(* ===== verification/Prelude.thy ===== *)
theory Prelude
  imports Main "HOL-Library.Word" "HOL-Library.List_Lexorder" "HOL-Library.Monad_Syntax"
begin

text \<open>
  Shared vocabulary of the development: bytes and byte strings, the Rust integer widths the
  sources cast to, the slice and vector operations of the Rust standard library that can
  panic, and the generic list facts the component theories use.

  A Rust \<^verbatim>\<open>&str\<close>, \<^verbatim>\<open>String\<close> or \<^verbatim>\<open>&[u8]\<close> is a list of bytes.  Rust compares
  strings and slices lexicographically by byte, which is the order of
  \<^verbatim>\<open>HOL-Library.List_Lexorder\<close> on lists of bytes.  An operation that can panic
  (an index or slice out of range) returns an \<^verbatim>\<open>option\<close>; \<^verbatim>\<open>None\<close> is the panic.
\<close>

section \<open>Bytes, strings and integer widths\<close>

type_synonym byte = "8 word"
type_synonym bytes = "8 word list"
type_synonym key = "8 word list"

text \<open>The bytes of an ASCII literal of the source, as in \<^verbatim>\<open>b"..."\<close>.\<close>

definition ascii :: "string \<Rightarrow> bytes" where
  "ascii s = map of_char s"

text \<open>\<^verbatim>\<open>as u32\<close> on a \<^verbatim>\<open>usize\<close>: the low 32 bits.\<close>

definition as_u32 :: "nat \<Rightarrow> nat" where
  "as_u32 n = n mod 2 ^ 32"

definition i64_min :: int where "i64_min = - (2 ^ 63)"
definition i64_max :: int where "i64_max = 2 ^ 63 - 1"

definition usize_max :: nat where "usize_max = 2 ^ 64 - 1"

text \<open>Two's complement at 64 bits: the wrapping of \<^verbatim>\<open>i64\<close> arithmetic and of \<^verbatim>\<open>as i64\<close>, and \<^verbatim>\<open>as usize\<close>.\<close>

definition wrap_i64 :: "int \<Rightarrow> int" where
  "wrap_i64 n = (n + 2 ^ 63) mod 2 ^ 64 - 2 ^ 63"

definition as_usize :: "int \<Rightarrow> nat" where
  "as_usize n = nat (n mod 2 ^ 64)"

definition in_i64 :: "int \<Rightarrow> bool" where
  "in_i64 n \<longleftrightarrow> i64_min \<le> n \<and> n \<le> i64_max"

text \<open>\<^verbatim>\<open>i64::checked_add\<close> and \<^verbatim>\<open>i64::checked_neg\<close>.\<close>

definition checked_add_i64 :: "int \<Rightarrow> int \<Rightarrow> int option" where
  "checked_add_i64 a b = (if in_i64 (a + b) then Some (a + b) else None)"

definition checked_neg_i64 :: "int \<Rightarrow> int option" where
  "checked_neg_i64 a = (if in_i64 (- a) then Some (- a) else None)"

section \<open>Slices and vectors that can panic\<close>

definition vget :: "'a list \<Rightarrow> nat \<Rightarrow> 'a option" where
  "vget xs i = (if i < length xs then Some (xs ! i) else None)"

definition vset :: "'a list \<Rightarrow> nat \<Rightarrow> 'a \<Rightarrow> 'a list option" where
  "vset xs i v = (if i < length xs then Some (xs[i := v]) else None)"

definition vslice :: "'a list \<Rightarrow> nat \<Rightarrow> nat \<Rightarrow> 'a list option" where
  "vslice xs a b = (if a \<le> b \<and> b \<le> length xs then Some (take (b - a) (drop a xs)) else None)"

definition vinsert :: "'a list \<Rightarrow> nat \<Rightarrow> 'a \<Rightarrow> 'a list option" where
  "vinsert xs i v = (if i \<le> length xs then Some (take i xs @ v # drop i xs) else None)"

definition vremove :: "'a list \<Rightarrow> nat \<Rightarrow> ('a \<times> 'a list) option" where
  "vremove xs i =
     (if i < length xs then Some (xs ! i, take i xs @ drop (Suc i) xs) else None)"

text \<open>\<^verbatim>\<open>dst[a..a + src.len()].copy_from_slice(src)\<close>.\<close>

definition vcopy_at :: "'a list \<Rightarrow> nat \<Rightarrow> 'a list \<Rightarrow> 'a list option" where
  "vcopy_at dst a src =
     (if a + length src \<le> length dst
      then Some (take a dst @ src @ drop (a + length src) dst) else None)"

text \<open>Results with an error value: the error is \<^verbatim>\<open>Inl\<close>, as in Rust's \<^verbatim>\<open>Err\<close>.\<close>

type_synonym ('e, 'a) res = "'e + 'a"

abbreviation Err :: "'e \<Rightarrow> 'e + 'a" where "Err e \<equiv> Inl e"
abbreviation Ok :: "'a \<Rightarrow> 'e + 'a" where "Ok x \<equiv> Inr x"

text \<open>\<^verbatim>\<open>str::from_utf8\<close>: well-formed UTF-8 has no overlong form, no surrogate and nothing above U+10FFFF.\<close>

definition cont_byte :: "byte \<Rightarrow> bool" where
  "cont_byte b \<longleftrightarrow> 128 \<le> b \<and> b \<le> 191"

fun utf8_valid :: "bytes \<Rightarrow> bool" where
  "utf8_valid [] = True"
| "utf8_valid (a # bs) =
     (if a < 128 then utf8_valid bs
      else if 194 \<le> a \<and> a \<le> 223 then
        (case bs of b # r \<Rightarrow> cont_byte b \<and> utf8_valid r | [] \<Rightarrow> False)
      else if 224 \<le> a \<and> a \<le> 239 then
        (case bs of
           b # c # r \<Rightarrow>
             cont_byte b \<and> (a = 224 \<longrightarrow> 160 \<le> b) \<and> (a = 237 \<longrightarrow> b \<le> 159) \<and> cont_byte c \<and> utf8_valid r
         | _ \<Rightarrow> False)
      else if 240 \<le> a \<and> a \<le> 244 then
        (case bs of
           b # c # d # r \<Rightarrow>
             cont_byte b \<and> (a = 240 \<longrightarrow> 144 \<le> b) \<and> (a = 244 \<longrightarrow> b \<le> 143) \<and> cont_byte c \<and> cont_byte d
             \<and> utf8_valid r
         | _ \<Rightarrow> False)
      else False)"

section \<open>Automation\<close>

named_theorems panic_simps \<open>panicking slice operations where they are in range\<close>
named_theorems store_simps \<open>the map operations of the store\<close>

lemma as_u32_id [simp]: "n < 2 ^ 32 \<Longrightarrow> as_u32 n = n"
  by (simp add: as_u32_def)

lemma as_u32_bound: "as_u32 n < 2 ^ 32"
  by (simp add: as_u32_def)

lemma vget_in [panic_simps]: "i < length xs \<Longrightarrow> vget xs i = Some (xs ! i)"
  by (simp add: vget_def)

lemma vget_Some_iff: "vget xs i = Some x \<longleftrightarrow> i < length xs \<and> x = xs ! i"
  by (auto simp: vget_def)

lemma vset_in [panic_simps]: "i < length xs \<Longrightarrow> vset xs i v = Some (xs[i := v])"
  by (simp add: vset_def)

lemma vslice_in [panic_simps]:
  "a \<le> b \<Longrightarrow> b \<le> length xs \<Longrightarrow> vslice xs a b = Some (take (b - a) (drop a xs))"
  by (simp add: vslice_def)

lemma vinsert_in [panic_simps]:
  "i \<le> length xs \<Longrightarrow> vinsert xs i v = Some (take i xs @ v # drop i xs)"
  by (simp add: vinsert_def)

lemma vremove_in [panic_simps]:
  "i < length xs \<Longrightarrow> vremove xs i = Some (xs ! i, take i xs @ drop (Suc i) xs)"
  by (simp add: vremove_def)

lemma vcopy_at_in [panic_simps]:
  "a + length src \<le> length dst \<Longrightarrow>
   vcopy_at dst a src = Some (take a dst @ src @ drop (a + length src) dst)"
  by (simp add: vcopy_at_def)

section \<open>Lists\<close>

lemma sum_list_map_length_concat: "sum_list (map length xss) = length (concat xss)"
  by (simp add: length_concat)

lemma take_drop_Cons: "i < length xs \<Longrightarrow> xs = take i xs @ xs ! i # drop (Suc i) xs"
  by (rule id_take_nth_drop)

lemma concat_list_update:
  "i < length xss \<Longrightarrow>
   concat (xss[i := ys]) = concat (take i xss) @ ys @ concat (drop (Suc i) xss)"
  by (simp add: upd_conv_take_nth_drop)

lemma concat_nth_split:
  "i < length xss \<Longrightarrow>
   concat xss = concat (take i xss) @ xss ! i @ concat (drop (Suc i) xss)"
  using arg_cong [OF id_take_nth_drop [of i xss], of concat] by simp

lemma ball_list_update: "\<forall>x\<in>set xs. P x \<Longrightarrow> P y \<Longrightarrow> x \<in> set (xs[i := y]) \<Longrightarrow> P x"
  using set_update_subset_insert [of xs i y] by auto

lemma wrap_i64_id: "in_i64 n \<Longrightarrow> wrap_i64 n = n"
  by (simp add: wrap_i64_def in_i64_def i64_min_def i64_max_def)

lemma as_usize_id: "0 \<le> n \<Longrightarrow> n < 2 ^ 64 \<Longrightarrow> as_usize n = nat n"
  by (simp add: as_usize_def)

end
