(* ===== verification/ListADT.thy ===== *)
theory ListADT
  imports Prelude
begin

text \<open>
  The interface between the list commands (\<^verbatim>\<open>src/storage/list.rs\<close>) and the containers that hold
  a list (\<^verbatim>\<open>src/storage/value/list.rs\<close> and \<^verbatim>\<open>src/storage/value/quicklist.rs\<close>).  Every operation of
  a container is partial (\<^verbatim>\<open>None\<close> is a panic); the laws say that under the invariant it does not
  panic and acts on the abstract list of elements.  The lemmas of the locale are about the loops that
  the clients run over the operations.  The reference definition of LREM is here too, since both
  containers are compared with it.
\<close>

section \<open>Removing matching elements, as a specification\<close>

fun drop_matches :: "'a \<Rightarrow> nat \<Rightarrow> 'a list \<Rightarrow> 'a list" where
  "drop_matches v n [] = []"
| "drop_matches v n (x # xs) =
     (if 0 < n \<and> x = v then drop_matches v (n - 1) xs else x # drop_matches v n xs)"

definition drop_end :: "bool \<Rightarrow> 'a \<Rightarrow> nat \<Rightarrow> 'a list \<Rightarrow> 'a list" where
  "drop_end from_back v n xs =
     (if from_back then rev (drop_matches v n (rev xs)) else drop_matches v n xs)"

section \<open>Loops over a container\<close>

fun push_all :: "('q \<Rightarrow> 'a \<Rightarrow> 'q option) \<Rightarrow> 'a list \<Rightarrow> 'q \<Rightarrow> 'q option" where
  "push_all push [] q = Some q"
| "push_all push (x # xs) q = do { q' \<leftarrow> push q x; push_all push xs q' }"

fun pop_n :: "('q \<Rightarrow> ('a option \<times> 'q) option) \<Rightarrow> nat \<Rightarrow> 'q \<Rightarrow> ('a list \<times> 'q) option" where
  "pop_n pop 0 q = Some ([], q)"
| "pop_n pop (Suc n) q = do {
     (r, q') \<leftarrow> pop q;
     (case r of
        None \<Rightarrow> Some ([], q')
      | Some x \<Rightarrow> do { (xs, q'') \<leftarrow> pop_n pop n q'; Some (x # xs, q'') }) }"

section \<open>The interface\<close>

locale list_adt =
  fixes abs :: "'q \<Rightarrow> bytes list"
    and inv :: "'q \<Rightarrow> bool"
    and elem_ok :: "bytes \<Rightarrow> bool"
    and room :: "'q \<Rightarrow> bytes \<Rightarrow> bool"
    and slot_ok :: "'q \<Rightarrow> bytes \<Rightarrow> bool"
    and new :: "'q"
    and len :: "'q \<Rightarrow> nat"
    and push_back push_front :: "'q \<Rightarrow> bytes \<Rightarrow> 'q option"
    and pop_front pop_back :: "'q \<Rightarrow> (bytes option \<times> 'q) option"
    and get :: "'q \<Rightarrow> nat \<Rightarrow> bytes option option"
    and iter :: "'q \<Rightarrow> bytes list option"
    and range :: "'q \<Rightarrow> nat \<Rightarrow> nat \<Rightarrow> bytes list option"
    and set_at :: "'q \<Rightarrow> nat \<Rightarrow> bytes \<Rightarrow> (bool \<times> 'q) option"
    and insert_at :: "'q \<Rightarrow> nat \<Rightarrow> bytes \<Rightarrow> 'q option"
    and remove_matching :: "'q \<Rightarrow> bytes \<Rightarrow> nat \<Rightarrow> bool \<Rightarrow> (nat \<times> 'q) option"
    and trim :: "'q \<Rightarrow> nat \<Rightarrow> nat \<Rightarrow> 'q option"
    and clear :: "'q \<Rightarrow> 'q"
  assumes new_law: "inv new \<and> abs new = []"
    and len_law: "inv q \<Longrightarrow> len q = length (abs q)"
    and push_back_law: "inv q \<Longrightarrow> elem_ok s \<Longrightarrow>
      \<exists>q'. push_back q s = Some q' \<and> inv q' \<and> abs q' = abs q @ [s]"
    and push_front_law: "inv q \<Longrightarrow> elem_ok s \<Longrightarrow>
      \<exists>q'. push_front q s = Some q' \<and> inv q' \<and> abs q' = s # abs q"
    and pop_front_law: "inv q \<Longrightarrow>
      \<exists>q'. pop_front q = Some (if abs q = [] then None else Some (hd (abs q)), q')
        \<and> inv q' \<and> abs q' = tl (abs q)"
    and pop_back_law: "inv q \<Longrightarrow>
      \<exists>q'. pop_back q = Some (if abs q = [] then None else Some (last (abs q)), q')
        \<and> inv q' \<and> abs q' = butlast (abs q)"
    and get_law: "inv q \<Longrightarrow> get q i = Some (if i < length (abs q) then Some (abs q ! i) else None)"
    and iter_law: "inv q \<Longrightarrow> iter q = Some (abs q)"
    and range_law: "inv q \<Longrightarrow> range q i n = Some (take n (drop i (abs q)))"
    and set_law: "inv q \<Longrightarrow> room q v \<Longrightarrow> slot_ok q v \<Longrightarrow> elem_ok v \<Longrightarrow>
      \<exists>q'. set_at q i v = Some (i < length (abs q), q') \<and> inv q' \<and> abs q' = (abs q)[i := v]"
    and insert_law: "inv q \<Longrightarrow> room q v \<Longrightarrow> elem_ok v \<Longrightarrow>
      \<exists>q'. insert_at q i v = Some q' \<and> inv q' \<and> abs q' = take i (abs q) @ v # drop i (abs q)"
    and remove_law: "inv q \<Longrightarrow>
      \<exists>q'. remove_matching q v n fb = Some (min n (count_list (abs q) v), q')
        \<and> inv q' \<and> abs q' = drop_end fb v n (abs q)"
    and trim_law: "inv q \<Longrightarrow> \<exists>q'. trim q i n = Some q' \<and> inv q' \<and> abs q' = take n (drop i (abs q))"
    and clear_law: "inv q \<Longrightarrow> inv (clear q) \<and> abs (clear q) = []"
begin

lemma push_back_all:
  "inv q \<Longrightarrow> \<forall>s\<in>set xs. elem_ok s \<Longrightarrow>
   \<exists>q'. push_all push_back xs q = Some q' \<and> inv q' \<and> abs q' = abs q @ xs"
proof (induction xs arbitrary: q)
  case (Cons x xs)
  then obtain q1 where q1: "push_back q x = Some q1" "inv q1" "abs q1 = abs q @ [x]"
    using push_back_law [of q x] by auto
  with Cons.IH [OF q1(2)] Cons.prems show ?case by auto
qed simp

lemma push_front_all:
  "inv q \<Longrightarrow> \<forall>s\<in>set xs. elem_ok s \<Longrightarrow>
   \<exists>q'. push_all push_front xs q = Some q' \<and> inv q' \<and> abs q' = rev xs @ abs q"
proof (induction xs arbitrary: q)
  case (Cons x xs)
  then obtain q1 where q1: "push_front q x = Some q1" "inv q1" "abs q1 = x # abs q"
    using push_front_law [of q x] by auto
  with Cons.IH [OF q1(2)] Cons.prems show ?case by auto
qed simp

lemma pop_front_n:
  "inv q \<Longrightarrow> \<exists>q'. pop_n pop_front n q = Some (take n (abs q), q') \<and> inv q' \<and> abs q' = drop n (abs q)"
proof (induction n arbitrary: q)
  case (Suc n)
  obtain q1 where q1: "pop_front q = Some (if abs q = [] then None else Some (hd (abs q)), q1)"
    "inv q1" "abs q1 = tl (abs q)" using pop_front_law [OF Suc.prems] by blast
  show ?case
  proof (cases "abs q")
    case Nil
    with q1 show ?thesis by auto
  next
    case (Cons x xs)
    with q1 Suc.IH [OF q1(2)] show ?thesis by auto
  qed
qed auto

lemma pop_back_n:
  "inv q \<Longrightarrow> \<exists>q'. pop_n pop_back n q = Some (take n (rev (abs q)), q')
     \<and> inv q' \<and> abs q' = rev (drop n (rev (abs q)))"
proof (induction n arbitrary: q)
  case (Suc n)
  obtain q1 where q1: "pop_back q = Some (if abs q = [] then None else Some (last (abs q)), q1)"
    "inv q1" "abs q1 = butlast (abs q)" using pop_back_law [OF Suc.prems] by blast
  show ?case
  proof (cases "abs q" rule: rev_cases)
    case Nil
    with q1 show ?thesis by auto
  next
    case (snoc xs x)
    with q1 Suc.IH [OF q1(2)] show ?thesis by auto
  qed
qed auto

end

section \<open>Facts about the specification\<close>

lemma drop_matches_0 [simp]: "drop_matches v 0 xs = xs"
  by (induction xs) auto

lemma drop_matches_notin: "v \<notin> set xs \<Longrightarrow> drop_matches v n xs = xs"
  by (induction xs) auto

lemma drop_matches_append:
  "drop_matches v n (xs @ ys) = drop_matches v n xs @ drop_matches v (n - count_list xs v) ys"
  by (induction v n xs rule: drop_matches.induct) auto

lemma length_drop_matches:
  "length (drop_matches v n xs) = length xs - min n (count_list xs v)"
proof (induction v n xs rule: drop_matches.induct)
  case (2 v n x xs)
  then show ?case using count_le_length [of xs v] by (auto simp: min_def Suc_diff_le)
qed simp

lemma set_drop_matches: "set (drop_matches v n xs) \<subseteq> set xs"
  by (induction v n xs rule: drop_matches.induct) auto

lemma length_concat_drop_matches: "length (concat (drop_matches v n xs)) \<le> length (concat xs)"
  by (induction v n xs rule: drop_matches.induct) auto

lemma count_list_rev [simp]: "count_list (rev xs) v = count_list xs v"
  by (induction xs) auto

lemma drop_end_0 [simp]: "drop_end fb v 0 xs = xs"
  by (simp add: drop_end_def)

lemma drop_end_notin: "v \<notin> set xs \<Longrightarrow> drop_end fb v n xs = xs"
  by (simp add: drop_end_def drop_matches_notin)

lemma length_drop_end: "length (drop_end fb v n xs) = length xs - min n (count_list xs v)"
  by (simp add: drop_end_def length_drop_matches)

lemma length_concat_rev: "length (concat (rev xs)) = length (concat xs)"
  by (induction xs) auto

lemma length_concat_drop_end: "length (concat (drop_end fb v n xs)) \<le> length (concat xs)"
  using length_concat_drop_matches [of v n "rev xs"] length_concat_drop_matches [of v n xs]
  by (auto simp: drop_end_def length_concat_rev)

lemma set_drop_end: "set (drop_end fb v n xs) \<subseteq> set xs"
  using set_drop_matches [of v n xs] set_drop_matches [of v n "rev xs"] by (simp add: drop_end_def)

end
