(* ===== verification/QuickList.thy ===== *)
theory QuickList
  imports ListADT
begin

text \<open>
  The packed list of \<^verbatim>\<open>src/storage/value/quicklist.rs\<close>: a deque of chunks, each a byte
  buffer with a vector of 32-bit offsets and a head index.  The model keeps the buffer, the
  offsets (with the \<^verbatim>\<open>as u32\<close> casts) and the head; vector capacities are not observable
  through the operations modelled here and are left out (\<^verbatim>\<open>memory_bytes\<close>,
  \<^verbatim>\<open>shrink_to_fit\<close>).  Every operation that indexes a vector returns an option.

  \<^verbatim>\<open>chunk_abs\<close> and \<^verbatim>\<open>ql_abs\<close> read a chunk and a quicklist as a list of strings;
  \<^verbatim>\<open>ql_inv\<close> is the invariant.  The lemmas show that no operation panics under the
  invariant and that each computes the list operation of its name.
\<close>

section \<open>Chunks\<close>

definition CHUNK_ENTRIES :: nat where "CHUNK_ENTRIES = 128"
definition CHUNK_BYTES :: nat where "CHUNK_BYTES = 4096"
definition FRONT_SLOTS :: nat where "FRONT_SLOTS = 16"

record chunk =
  ch_data :: bytes
  ch_offs :: "nat list"
  ch_head :: nat

definition chunk_new :: chunk where
  "chunk_new = \<lparr>ch_data = [], ch_offs = [0], ch_head = 0\<rparr>"

definition chunk_len :: "chunk \<Rightarrow> nat" where
  "chunk_len c = length (ch_offs c) - 1 - ch_head c"

definition chunk_live_bytes :: "chunk \<Rightarrow> nat option" where
  "chunk_live_bytes c = do {
     o' \<leftarrow> vget (ch_offs c) (ch_head c);
     Some (length (ch_data c) - o') }"

definition chunk_get :: "chunk \<Rightarrow> nat \<Rightarrow> bytes option" where
  "chunk_get c j = (let i = ch_head c + j in do {
     a \<leftarrow> vget (ch_offs c) i;
     b \<leftarrow> vget (ch_offs c) (i + 1);
     vslice (ch_data c) a b })"

definition chunk_reset :: "chunk \<Rightarrow> chunk" where
  "chunk_reset c = c\<lparr>ch_data := [], ch_offs := [0], ch_head := 0\<rparr>"

definition chunk_rebuild :: "chunk \<Rightarrow> nat \<Rightarrow> nat \<Rightarrow> chunk option" where
  "chunk_rebuild c slots gap = do {
     base \<leftarrow> vget (ch_offs c) (ch_head c);
     live \<leftarrow> vslice (ch_data c) base (length (ch_data c));
     Some \<lparr>ch_data = replicate gap 0 @ live,
           ch_offs = replicate slots (as_u32 gap)
                       @ map (\<lambda>o'. as_u32 (o' - base + gap)) (drop (ch_head c) (ch_offs c)),
           ch_head = slots\<rparr> }"

definition chunk_seal :: "chunk \<Rightarrow> chunk option" where
  "chunk_seal c = (if ch_head c > 0 then chunk_rebuild c 0 0 else Some c)"

definition chunk_full_back :: "chunk \<Rightarrow> bool" where
  "chunk_full_back c \<longleftrightarrow> chunk_len c \<ge> CHUNK_ENTRIES \<or> length (ch_data c) \<ge> CHUNK_BYTES"

definition chunk_full_front :: "chunk \<Rightarrow> bool option" where
  "chunk_full_front c =
     (if chunk_len c \<ge> CHUNK_ENTRIES then Some True
      else do { b \<leftarrow> chunk_live_bytes c; Some (b \<ge> CHUNK_BYTES) })"

definition chunk_push_back :: "chunk \<Rightarrow> bytes \<Rightarrow> chunk" where
  "chunk_push_back c s =
     (let d = ch_data c @ s in
      c\<lparr>ch_data := d, ch_offs := ch_offs c @ [as_u32 (length d)]\<rparr>)"

definition chunk_push_front :: "chunk \<Rightarrow> bytes \<Rightarrow> chunk option" where
  "chunk_push_front c s = (let n = length s in do {
     first \<leftarrow> vget (ch_offs c) (ch_head c);
     c1 \<leftarrow> (if ch_head c = 0 \<or> first < n then do {
               live \<leftarrow> chunk_live_bytes c;
               chunk_rebuild c FRONT_SLOTS (max (max n (live div 2)) 64) }
            else Some c);
     end' \<leftarrow> vget (ch_offs c1) (ch_head c1);
     d \<leftarrow> (if n \<le> end' then vcopy_at (ch_data c1) (end' - n) s else None);
     offs \<leftarrow> (if ch_head c1 > 0
              then vset (ch_offs c1) (ch_head c1 - 1) (as_u32 (end' - n)) else None);
     Some \<lparr>ch_data = d, ch_offs = offs, ch_head = ch_head c1 - 1\<rparr> })"

definition chunk_pop_back_with :: "(bytes \<Rightarrow> 'r) \<Rightarrow> chunk \<Rightarrow> ('r \<times> chunk) option" where
  "chunk_pop_back_with f c =
     (if length (ch_offs c) < 2 then None
      else do {
        start \<leftarrow> vget (ch_offs c) (length (ch_offs c) - 2);
        s \<leftarrow> vslice (ch_data c) start (length (ch_data c));
        let c1 = c\<lparr>ch_data := take start (ch_data c), ch_offs := butlast (ch_offs c)\<rparr>;
        Some (f s, if chunk_len c1 = 0 then chunk_reset c1 else c1) })"

definition chunk_pop_front_with :: "(bytes \<Rightarrow> 'r) \<Rightarrow> chunk \<Rightarrow> ('r \<times> chunk) option" where
  "chunk_pop_front_with f c = do {
     s \<leftarrow> chunk_get c 0;
     let c1 = c\<lparr>ch_head := ch_head c + 1\<rparr>;
     Some (f s, if chunk_len c1 = 0 then chunk_reset c1 else c1) }"

definition chunk_from_iter :: "bytes list \<Rightarrow> chunk" where
  "chunk_from_iter items = foldl chunk_push_back chunk_new items"

record chunk_iter =
  it_c :: chunk
  it_i :: nat
  it_j :: nat

definition chunk_iter_of :: "chunk \<Rightarrow> chunk_iter" where
  "chunk_iter_of c = \<lparr>it_c = c, it_i = ch_head c, it_j = length (ch_offs c) - 1\<rparr>"

definition chunk_iter_next :: "chunk_iter \<Rightarrow> (bytes option \<times> chunk_iter) option" where
  "chunk_iter_next it =
     (if it_i it \<ge> it_j it then Some (None, it)
      else do {
        a \<leftarrow> vget (ch_offs (it_c it)) (it_i it);
        b \<leftarrow> vget (ch_offs (it_c it)) (it_i it + 1);
        s \<leftarrow> vslice (ch_data (it_c it)) a b;
        Some (Some s, it\<lparr>it_i := it_i it + 1\<rparr>) })"

definition chunk_iter_size :: "chunk_iter \<Rightarrow> nat" where
  "chunk_iter_size it = it_j it - it_i it"

definition chunk_iter_next_back :: "chunk_iter \<Rightarrow> (bytes option \<times> chunk_iter) option" where
  "chunk_iter_next_back it =
     (if it_i it \<ge> it_j it then Some (None, it)
      else (let j = it_j it - 1 in do {
        a \<leftarrow> vget (ch_offs (it_c it)) j;
        b \<leftarrow> vget (ch_offs (it_c it)) (j + 1);
        s \<leftarrow> vslice (ch_data (it_c it)) a b;
        Some (Some s, it\<lparr>it_j := j\<rparr>) }))"

text \<open>
  Collecting an iterator, forwards or in reverse: the loop that Rust's \<^verbatim>\<open>collect\<close> and
  \<^verbatim>\<open>rev().collect\<close> run, with fuel one more than the size hint.
\<close>

fun collect_with :: "('i \<Rightarrow> ('a option \<times> 'i) option) \<Rightarrow> nat \<Rightarrow> 'i \<Rightarrow> 'a list option" where
  "collect_with nxt 0 it = None"
| "collect_with nxt (Suc n) it =
     (case nxt it of
        None \<Rightarrow> None
      | Some (None, _) \<Rightarrow> Some []
      | Some (Some x, it') \<Rightarrow> map_option ((#) x) (collect_with nxt n it'))"

definition chunk_items :: "chunk \<Rightarrow> bytes list option" where
  "chunk_items c =
     (let it = chunk_iter_of c in collect_with chunk_iter_next (Suc (chunk_iter_size it)) it)"

definition chunk_items_rev :: "chunk \<Rightarrow> bytes list option" where
  "chunk_items_rev c =
     (let it = chunk_iter_of c in collect_with chunk_iter_next_back (Suc (chunk_iter_size it)) it)"

section \<open>The quicklist\<close>

record quicklist =
  ql_chunks :: "chunk list"
  ql_len :: nat

definition ql_new :: quicklist where
  "ql_new = \<lparr>ql_chunks = [], ql_len = 0\<rparr>"

definition ql_is_empty :: "quicklist \<Rightarrow> bool" where
  "ql_is_empty q \<longleftrightarrow> ql_len q = 0"

text \<open>
  The \<^verbatim>\<open>match\<close> that opens \<^verbatim>\<open>push_back\<close> and \<^verbatim>\<open>push_front\<close>: the chunks with
  one that has room at the end concerned.
\<close>

definition ql_room_back :: "chunk list \<Rightarrow> chunk list option" where
  "ql_room_back cs =
     (if cs = [] then Some [chunk_new]
      else if \<not> chunk_full_back (last cs) then Some cs
      else do { c' \<leftarrow> chunk_seal (last cs); Some (butlast cs @ [c', chunk_new]) })"

definition ql_push_back :: "quicklist \<Rightarrow> bytes \<Rightarrow> quicklist option" where
  "ql_push_back q s = do {
     cs \<leftarrow> ql_room_back (ql_chunks q);
     Some (q\<lparr>ql_chunks := butlast cs @ [chunk_push_back (last cs) s],
             ql_len := ql_len q + 1\<rparr>) }"

definition ql_room_front :: "chunk list \<Rightarrow> chunk list option" where
  "ql_room_front cs =
     (case cs of
        [] \<Rightarrow> Some [chunk_new]
      | c # rest \<Rightarrow> do {
          full \<leftarrow> chunk_full_front c;
          (if \<not> full then Some (c # rest)
           else do { c' \<leftarrow> chunk_seal c; Some (chunk_new # c' # rest) }) })"

definition ql_push_front :: "quicklist \<Rightarrow> bytes \<Rightarrow> quicklist option" where
  "ql_push_front q s = do {
     cs \<leftarrow> ql_room_front (ql_chunks q);
     c \<leftarrow> chunk_push_front (hd cs) s;
     Some (q\<lparr>ql_chunks := c # tl cs, ql_len := ql_len q + 1\<rparr>) }"

definition ql_from_strs :: "bytes list \<Rightarrow> quicklist option" where
  "ql_from_strs items = foldl (\<lambda>q s. q \<bind> (\<lambda>q'. ql_push_back q' s)) (Some ql_new) items"

definition ql_pop_front_with ::
  "(bytes \<Rightarrow> 'r) \<Rightarrow> quicklist \<Rightarrow> ('r option \<times> quicklist) option" where
  "ql_pop_front_with f q =
     (case ql_chunks q of
        [] \<Rightarrow> Some (None, q)
      | c # rest \<Rightarrow> do {
          (r, c') \<leftarrow> chunk_pop_front_with f c;
          Some (Some r, q\<lparr>ql_chunks := (if chunk_len c' = 0 then rest else c' # rest),
                          ql_len := ql_len q - 1\<rparr>) })"

definition ql_pop_back_with ::
  "(bytes \<Rightarrow> 'r) \<Rightarrow> quicklist \<Rightarrow> ('r option \<times> quicklist) option" where
  "ql_pop_back_with f q =
     (if ql_chunks q = [] then Some (None, q)
      else do {
        (r, c') \<leftarrow> chunk_pop_back_with f (last (ql_chunks q));
        Some (Some r, q\<lparr>ql_chunks := butlast (ql_chunks q) @ (if chunk_len c' = 0 then [] else [c']),
                        ql_len := ql_len q - 1\<rparr>) })"

definition ql_pop_front :: "quicklist \<Rightarrow> (bytes option \<times> quicklist) option" where
  "ql_pop_front q = ql_pop_front_with (\<lambda>s. s) q"

definition ql_pop_back :: "quicklist \<Rightarrow> (bytes option \<times> quicklist) option" where
  "ql_pop_back q = ql_pop_back_with (\<lambda>s. s) q"

fun locate_fwd :: "chunk list \<Rightarrow> nat \<Rightarrow> nat \<Rightarrow> (nat \<times> nat) option" where
  "locate_fwd [] ci r = None"
| "locate_fwd (c # cs) ci r =
     (if r < chunk_len c then Some (ci, r) else locate_fwd cs (Suc ci) (r - chunk_len c))"

text \<open>The backward scan: the chunks in reverse, \<^verbatim>\<open>ci\<close> the index of the first of them.\<close>

fun locate_bwd :: "chunk list \<Rightarrow> nat \<Rightarrow> nat \<Rightarrow> (nat \<times> nat) option" where
  "locate_bwd [] ci r = None"
| "locate_bwd (c # cs) ci r =
     (if r < chunk_len c then Some (ci, chunk_len c - 1 - r)
      else locate_bwd cs (ci - 1) (r - chunk_len c))"

definition ql_locate :: "quicklist \<Rightarrow> nat \<Rightarrow> (nat \<times> nat) option" where
  "ql_locate q idx =
     (if idx \<ge> ql_len q then None
      else if idx < ql_len q div 2 then locate_fwd (ql_chunks q) 0 idx
      else locate_bwd (rev (ql_chunks q)) (length (ql_chunks q) - 1) (ql_len q - 1 - idx))"

definition ql_get :: "quicklist \<Rightarrow> nat \<Rightarrow> bytes option option" where
  "ql_get q idx =
     (case ql_locate q idx of
        None \<Rightarrow> Some None
      | Some (ci, j) \<Rightarrow> do { c \<leftarrow> vget (ql_chunks q) ci; s \<leftarrow> chunk_get c j; Some (Some s) })"

definition ql_iter :: "quicklist \<Rightarrow> bytes list option" where
  "ql_iter q = map_option concat (those (map chunk_items (ql_chunks q)))"

definition ql_range :: "quicklist \<Rightarrow> nat \<Rightarrow> nat \<Rightarrow> bytes list option" where
  "ql_range q start count =
     (let (ci, j) = (case ql_locate q start of Some p \<Rightarrow> p | None \<Rightarrow> (length (ql_chunks q), 0));
          cs = drop (min ci (length (ql_chunks q))) (ql_chunks q)
      in map_option
           (\<lambda>its. take count (concat (case its of [] \<Rightarrow> [] | x # xs \<Rightarrow> drop j x # xs)))
           (those (map chunk_items cs)))"

definition ql_rewrite_chunk :: "quicklist \<Rightarrow> nat \<Rightarrow> bytes list \<Rightarrow> quicklist option" where
  "ql_rewrite_chunk q ci items = do {
     c \<leftarrow> vget (ql_chunks q) ci;
     let n = ql_len q - chunk_len c + length items;
     (if items = [] then
        Some \<lparr>ql_chunks = take ci (ql_chunks q) @ drop (Suc ci) (ql_chunks q), ql_len = n\<rparr>
      else if length items \<le> CHUNK_ENTRIES \<and> sum_list (map length items) \<le> CHUNK_BYTES then
        Some \<lparr>ql_chunks = (ql_chunks q)[ci := chunk_from_iter items], ql_len = n\<rparr>
      else (let mid = length items div 2 in do {
        cs \<leftarrow> vinsert ((ql_chunks q)[ci := chunk_from_iter (take mid items)]) (ci + 1)
                (chunk_from_iter (drop mid items));
        Some \<lparr>ql_chunks = cs, ql_len = n\<rparr> })) }"

definition ql_set :: "quicklist \<Rightarrow> nat \<Rightarrow> bytes \<Rightarrow> (bool \<times> quicklist) option" where
  "ql_set q idx value =
     (case ql_locate q idx of
        None \<Rightarrow> Some (False, q)
      | Some (ci, j) \<Rightarrow> do {
          c \<leftarrow> vget (ql_chunks q) ci;
          items \<leftarrow> chunk_items c;
          items' \<leftarrow> vset items j value;
          q' \<leftarrow> ql_rewrite_chunk q ci items';
          Some (True, q') })"

definition ql_insert :: "quicklist \<Rightarrow> nat \<Rightarrow> bytes \<Rightarrow> quicklist option" where
  "ql_insert q idx value =
     (if idx = 0 then ql_push_front q value
      else if idx \<ge> ql_len q then ql_push_back q value
      else do {
        (ci, j) \<leftarrow> ql_locate q idx;
        c \<leftarrow> vget (ql_chunks q) ci;
        items \<leftarrow> chunk_items c;
        items' \<leftarrow> vinsert items j value;
        ql_rewrite_chunk q ci items' })"

definition position :: "('a \<Rightarrow> bool) \<Rightarrow> 'a list \<Rightarrow> nat option" where
  "position p xs = (let n = length (takeWhile (Not \<circ> p) xs) in if n < length xs then Some n else None)"

definition ql_position :: "quicklist \<Rightarrow> bytes \<Rightarrow> nat option option" where
  "ql_position q value = map_option (position (\<lambda>v. v = value)) (ql_iter q)"

text \<open>
  The two removal loops: from the back with an index that walks down, from the front with an
  index that stays where an element was removed.  The state is the items and the counters
  \<^verbatim>\<open>removed\<close> and \<^verbatim>\<open>k\<close>.
\<close>

fun rm_bwd :: "'a \<Rightarrow> nat \<Rightarrow> nat \<Rightarrow> 'a list \<Rightarrow> nat \<Rightarrow> nat \<Rightarrow> 'a list \<times> nat \<times> nat" where
  "rm_bwd v limit 0 items removed k = (items, removed, k)"
| "rm_bwd v limit (Suc i) items removed k =
     (if removed < limit then
        (if items ! i = v
         then rm_bwd v limit i (take i items @ drop (Suc i) items) (removed + 1) (k + 1)
         else rm_bwd v limit i items removed k)
      else (items, removed, k))"

function rm_fwd :: "'a \<Rightarrow> nat \<Rightarrow> nat \<Rightarrow> 'a list \<Rightarrow> nat \<Rightarrow> nat \<Rightarrow> 'a list \<times> nat \<times> nat" where
  "rm_fwd v limit i items removed k =
     (if i < length items \<and> removed < limit then
        (if items ! i = v
         then rm_fwd v limit i (take i items @ drop (Suc i) items) (removed + 1) (k + 1)
         else rm_fwd v limit (Suc i) items removed k)
      else (items, removed, k))"
  by pat_completeness auto
termination
  by (relation "measure (\<lambda>(v, limit, i, items, removed, k). length items - i)") auto

declare rm_fwd.simps [simp del]

fun ql_remove_loop ::
  "bytes \<Rightarrow> nat \<Rightarrow> bool \<Rightarrow> nat list \<Rightarrow> quicklist \<Rightarrow> nat \<Rightarrow> nat list
     \<Rightarrow> (quicklist \<times> nat \<times> nat list) option" where
  "ql_remove_loop value limit from_back [] q removed dead = Some (q, removed, dead)"
| "ql_remove_loop value limit from_back (ci # order) q removed dead =
     (if removed \<ge> limit then Some (q, removed, dead)
      else do {
        c \<leftarrow> vget (ql_chunks q) ci;
        items \<leftarrow> chunk_items c;
        (if value \<notin> set items then ql_remove_loop value limit from_back order q removed dead
         else (let (owned, removed', k) =
                     (if from_back then rm_bwd value limit (length items) items removed 0
                      else rm_fwd value limit 0 items removed 0);
                   q1 = q\<lparr>ql_len := ql_len q - k\<rparr>
               in if owned = []
                  then ql_remove_loop value limit from_back order q1 removed' (dead @ [ci])
                  else ql_remove_loop value limit from_back order
                         (q1\<lparr>ql_chunks := (ql_chunks q1)[ci := chunk_from_iter owned]\<rparr>)
                         removed' dead)) })"

definition remove_index :: "nat \<Rightarrow> 'a list \<Rightarrow> 'a list" where
  "remove_index i xs = take i xs @ drop (Suc i) xs"

definition ql_remove_matching ::
  "quicklist \<Rightarrow> bytes \<Rightarrow> nat \<Rightarrow> bool \<Rightarrow> (nat \<times> quicklist) option" where
  "ql_remove_matching q value limit from_back =
     (let n = length (ql_chunks q);
          order = (if from_back then rev [0..<n] else [0..<n]) in do {
      (q1, removed, dead) \<leftarrow> ql_remove_loop value limit from_back order q 0 [];
      Some (removed,
            q1\<lparr>ql_chunks := foldl (\<lambda>cs ci. remove_index ci cs) (ql_chunks q1) (rev (sort dead))\<rparr>) })"

fun pop_front_n :: "nat \<Rightarrow> chunk \<Rightarrow> chunk option" where
  "pop_front_n 0 c = Some c"
| "pop_front_n (Suc n) c = do { (_, c') \<leftarrow> chunk_pop_front_with (\<lambda>_. ()) c; pop_front_n n c' }"

fun pop_back_n :: "nat \<Rightarrow> chunk \<Rightarrow> chunk option" where
  "pop_back_n 0 c = Some c"
| "pop_back_n (Suc n) c = do { (_, c') \<leftarrow> chunk_pop_back_with (\<lambda>_. ()) c; pop_back_n n c' }"

fun trim_front :: "chunk list \<Rightarrow> nat \<Rightarrow> nat \<Rightarrow> (chunk list \<times> nat) option" where
  "trim_front [] len skip = Some ([], len)"
| "trim_front (c # cs) len skip =
     (if skip = 0 then Some (c # cs, len)
      else if chunk_len c \<le> skip
      then trim_front cs (len - chunk_len c) (skip - chunk_len c)
      else do { c' \<leftarrow> pop_front_n skip c; Some (c' # cs, len - skip) })"

text \<open>The chunks of the second loop are given last chunk first.\<close>

fun trim_back :: "chunk list \<Rightarrow> nat \<Rightarrow> nat \<Rightarrow> (chunk list \<times> nat) option" where
  "trim_back [] len keep = Some ([], len)"
| "trim_back (c # cs) len keep =
     (if len \<le> keep then Some (c # cs, len)
      else if chunk_len c \<le> len - keep then trim_back cs (len - chunk_len c) keep
      else do { c' \<leftarrow> pop_back_n (len - keep) c; Some (c' # cs, len - (len - keep)) })"

definition ql_trim :: "quicklist \<Rightarrow> nat \<Rightarrow> nat \<Rightarrow> quicklist option" where
  "ql_trim q start keep = do {
     (cs, n) \<leftarrow> trim_front (ql_chunks q) (ql_len q) start;
     (rcs, n') \<leftarrow> trim_back (rev cs) n keep;
     Some \<lparr>ql_chunks = rev rcs, ql_len = n'\<rparr> }"

definition ql_clear :: "quicklist \<Rightarrow> quicklist" where
  "ql_clear q = q\<lparr>ql_chunks := [], ql_len := 0\<rparr>"

section \<open>Abstraction and invariant\<close>

text \<open>
  \<^verbatim>\<open>segs\<close> cuts a buffer at consecutive offsets.  A chunk is well formed when its head is an
  offset, the live offsets ascend, the last one is the end of the buffer and the buffer is
  addressable by a 32-bit offset.  \<^verbatim>\<open>ql_wf\<close> allows empty chunks, \<^verbatim>\<open>ql_inv\<close> does not.
\<close>

fun segs :: "'a list \<Rightarrow> nat list \<Rightarrow> 'a list list" where
  "segs d (a # b # os) = take (b - a) (drop a d) # segs d (b # os)"
| "segs d _ = []"

definition chunk_abs :: "chunk \<Rightarrow> bytes list" where
  "chunk_abs c = segs (ch_data c) (drop (ch_head c) (ch_offs c))"

definition chunk_wf :: "chunk \<Rightarrow> bool" where
  "chunk_wf c \<longleftrightarrow> ch_head c < length (ch_offs c) \<and> sorted (drop (ch_head c) (ch_offs c))
     \<and> last (ch_offs c) = length (ch_data c) \<and> length (ch_data c) < 2 ^ 32"

definition ql_abs :: "quicklist \<Rightarrow> bytes list" where
  "ql_abs q = concat (map chunk_abs (ql_chunks q))"

abbreviation chunks_abs :: "chunk list \<Rightarrow> bytes list" where
  "chunks_abs cs \<equiv> concat (map chunk_abs cs)"

fun seqdrop :: "bool \<Rightarrow> 'a \<Rightarrow> nat \<Rightarrow> 'a list list \<Rightarrow> 'a list list" where
  "seqdrop fb v n [] = []"
| "seqdrop fb v n (xs # xss) = drop_end fb v n xs # seqdrop fb v (n - count_list xs v) xss"

abbreviation after :: "nat list \<Rightarrow> chunk list \<Rightarrow> nat \<Rightarrow> bytes list" where
  "after dead cs i \<equiv> if i \<in> set dead then [] else chunk_abs (cs ! i)"

definition ql_wf :: "quicklist \<Rightarrow> bool" where
  "ql_wf q \<longleftrightarrow> (\<forall>c\<in>set (ql_chunks q). chunk_wf c) \<and> ql_len q = length (ql_abs q)"

definition ql_inv :: "quicklist \<Rightarrow> bool" where
  "ql_inv q \<longleftrightarrow> ql_wf q \<and> (\<forall>c\<in>set (ql_chunks q). 0 < chunk_len c)"

definition ql_elem_ok :: "bytes \<Rightarrow> bool" where
  "ql_elem_ok s \<longleftrightarrow> length s \<le> 512 * 1024 * 1024"

definition ql_bytes :: "quicklist \<Rightarrow> nat" where
  "ql_bytes q = length (concat (ql_abs q))"

section \<open>Chunk operations\<close>

lemma length_segs [simp]: "length (segs d os) = length os - 1"
  by (induction d os rule: segs.induct) auto

lemma segs_nth: "Suc i < length os \<Longrightarrow> segs d os ! i = take (os ! Suc i - os ! i) (drop (os ! i) d)"
proof (induction d os arbitrary: i rule: segs.induct)
  case (1 d a b os)
  then show ?case by (cases i) auto
qed auto

lemma segs_cong:
  "sorted os \<Longrightarrow> os \<noteq> [] \<Longrightarrow> drop (hd os) d = drop (hd os) d' \<Longrightarrow> segs d os = segs d' os"
proof (induction d os rule: segs.induct)
  case (1 d a b os)
  have "drop (b - a) (drop a d) = drop (b - a) (drop a d')" "a \<le> b"
    using 1(2,4) by auto
  then have "drop b d = drop b d'"
    by simp
  then show ?case using 1 by auto
qed auto

lemma segs_snoc:
  "sorted os \<Longrightarrow> os \<noteq> [] \<Longrightarrow> last os = length d \<Longrightarrow>
   segs (d @ s) (os @ [length d + length s]) = segs d os @ [s]"
proof (induction d os rule: segs.induct)
  case (1 d a b os)
  have b: "b \<le> length d"
    using 1(2,4) by (metis last_ConsR last_in_set list.distinct(1) list.set_intros(1) sorted_simps(2)
      order_refl set_ConsD)
  have a: "a \<le> b" using 1(2) by simp
  have "take (b - a) (drop a (d @ s)) = take (b - a) (drop a d)" using a b by simp
  then show ?case using 1 by simp
qed auto

lemma segs_shift:
  "sorted os \<Longrightarrow> (\<forall>o'\<in>set os. b \<le> o') \<Longrightarrow>
   segs (replicate g x @ drop b d) (map (\<lambda>o'. o' - b + g) os) = segs d os"
  by (induction d os rule: segs.induct) (auto simp: drop_drop)

lemma segs_butlast:
  "sorted os \<Longrightarrow> Suc 0 < length os \<Longrightarrow>
   segs (take (os ! (length os - 2)) d) (butlast os) = butlast (segs d os)"
proof (induction d os rule: segs.induct)
  case (1 d a b os)
  show ?case
  proof (cases os)
    case Nil
    then show ?thesis by simp
  next
    case (Cons c os')
    have b: "b \<le> (b # os) ! (length (b # os) - 2)"
      using 1(2) Cons by (auto simp: nth_Cons split: nat.splits)
    have "take (b - a) (drop a (take ((b # os) ! (length (b # os) - 2)) d)) = take (b - a) (drop a d)"
      using b 1(2) by (auto simp: drop_take min_def)
    with Cons 1 b show ?thesis by (simp add: numeral_2_eq_2)
  qed
qed auto

lemma segs_last:
  "sorted os \<Longrightarrow> Suc 0 < length os \<Longrightarrow> last os = length d \<Longrightarrow>
   last (segs d os) = drop (os ! (length os - 2)) d"
proof (induction d os rule: segs.induct)
  case (1 d a b os)
  then show ?case by (cases os) (auto simp: numeral_2_eq_2)
qed auto

lemma chunk_len_abs [simp]: "length (chunk_abs c) = chunk_len c"
  by (simp add: chunk_abs_def chunk_len_def)

lemma chunk_wf_new [simp]: "chunk_wf chunk_new" "chunk_abs chunk_new = []" "chunk_len chunk_new = 0"
  by (simp_all add: chunk_wf_def chunk_new_def chunk_abs_def chunk_len_def)

lemma chunk_reset_wf [simp]: "chunk_wf (chunk_reset c)" "chunk_abs (chunk_reset c) = []"
   "chunk_len (chunk_reset c) = 0"
  by (simp_all add: chunk_wf_def chunk_reset_def chunk_abs_def chunk_len_def)

lemma chunk_wf_offs_le:
  assumes "chunk_wf c" "ch_head c \<le> i" "i < length (ch_offs c)"
  shows "ch_offs c ! i \<le> length (ch_data c)"
proof -
  have "drop (ch_head c) (ch_offs c) ! (i - ch_head c) \<le> drop (ch_head c) (ch_offs c) ! (length (ch_offs c) - 1 - ch_head c)"
    using assms by (intro sorted_nth_mono) (auto simp: chunk_wf_def)
  moreover have "ch_offs c \<noteq> []" using assms by auto
  ultimately show ?thesis using assms by (simp add: chunk_wf_def last_conv_nth)
qed

lemma chunk_wf_offs_mono:
  assumes "chunk_wf c" "ch_head c \<le> i" "i \<le> j" "j < length (ch_offs c)"
  shows "ch_offs c ! i \<le> ch_offs c ! j"
  using sorted_nth_mono [of "drop (ch_head c) (ch_offs c)" "i - ch_head c" "j - ch_head c"] assms
  by (simp add: chunk_wf_def)

lemma chunk_get_abs:
  assumes "chunk_wf c" "j < chunk_len c"
  shows "chunk_get c j = Some (chunk_abs c ! j)"
proof -
  have l: "ch_head c + j + 1 < length (ch_offs c)" using assms by (simp add: chunk_len_def)
  then have "ch_offs c ! (ch_head c + j) \<le> ch_offs c ! (ch_head c + j + 1)"
    using assms chunk_wf_offs_mono by auto
  moreover have "ch_offs c ! (ch_head c + j + 1) \<le> length (ch_data c)"
    using assms l chunk_wf_offs_le by simp
  ultimately show ?thesis using l
    by (simp add: chunk_get_def chunk_abs_def panic_simps segs_nth Let_def)
qed

lemma chunk_live_bytes_wf:
  "chunk_wf c \<Longrightarrow> chunk_live_bytes c = Some (length (ch_data c) - ch_offs c ! ch_head c)"
  by (simp add: chunk_live_bytes_def chunk_wf_def panic_simps)

lemma chunk_push_back_wf:
  assumes "chunk_wf c" "length (ch_data c) + length s < 2 ^ 32"
  shows "chunk_wf (chunk_push_back c s)" "chunk_abs (chunk_push_back c s) = chunk_abs c @ [s]"
proof -
  let ?os = "drop (ch_head c) (ch_offs c)"
  have os: "?os \<noteq> []" "sorted ?os" "last ?os = length (ch_data c)"
    using assms by (auto simp: chunk_wf_def)
  have le: "\<forall>o'\<in>set ?os. o' \<le> length (ch_data c)"
    using chunk_wf_offs_le [OF assms(1)] by (auto simp: in_set_conv_nth)
  show "chunk_wf (chunk_push_back c s)"
    using assms le by (auto simp: chunk_wf_def chunk_push_back_def Let_def sorted_append
        intro: order_trans)
  show "chunk_abs (chunk_push_back c s) = chunk_abs c @ [s]"
    using assms segs_snoc [OF os(2,1,3)] by (simp add: chunk_abs_def chunk_push_back_def Let_def chunk_wf_def)
qed

lemma chunk_rebuild_wf:
  assumes "chunk_wf c" "gap + length (ch_data c) - ch_offs c ! ch_head c < 2 ^ 32"
  obtains c' where "chunk_rebuild c slots gap = Some c'" "chunk_wf c'" "chunk_abs c' = chunk_abs c"
    "ch_head c' = slots" "ch_offs c' ! slots = gap"
    "length (ch_data c') = gap + length (ch_data c) - ch_offs c ! ch_head c"
    "length (ch_offs c') = slots + length (ch_offs c) - ch_head c"
proof -
  let ?os = "drop (ch_head c) (ch_offs c)" and ?b = "ch_offs c ! ch_head c"
  have h: "ch_head c < length (ch_offs c)" and s: "sorted ?os" and l: "last ?os = length (ch_data c)"
    using assms by (auto simp: chunk_wf_def)
  have ge: "\<forall>o'\<in>set ?os. ?b \<le> o' \<and> o' \<le> length (ch_data c)"
    using chunk_wf_offs_mono [OF assms(1)] chunk_wf_offs_le [OF assms(1)] h
    by (auto simp: in_set_conv_nth)
  have b: "?b \<le> length (ch_data c)" using chunk_wf_offs_le [OF assms(1)] h by simp
  let ?c = "\<lparr>ch_data = replicate gap 0 @ drop ?b (ch_data c),
     ch_offs = replicate slots gap @ map (\<lambda>o'. o' - ?b + gap) ?os, ch_head = slots\<rparr>"
  have eq: "map (\<lambda>o'. as_u32 (o' - ?b + gap)) ?os = map (\<lambda>o'. o' - ?b + gap) ?os"
    using ge assms(2) by (auto intro!: as_u32_id)
  have g: "as_u32 gap = gap" using assms(2) b by simp
  have r: "chunk_rebuild c slots gap = Some ?c"
    using h b by (simp add: chunk_rebuild_def panic_simps eq g)
  have sm: "sorted (map (\<lambda>o'. o' - ?b + gap) ?os)"
    using s by (auto simp: sorted_iff_nth_mono intro!: diff_le_mono)
  have "chunk_wf ?c"
    using h l b assms(2) sm by (auto simp: chunk_wf_def last_map)
  moreover have "chunk_abs ?c = chunk_abs c"
    using segs_shift [OF s, of ?b gap "0::8 word" "ch_data c"] ge by (simp add: chunk_abs_def)
  ultimately show ?thesis
    using that [OF r] h b by (simp add: nth_append)
qed

lemma chunk_seal_wf:
  assumes "chunk_wf c"
  obtains c' where "chunk_seal c = Some c'" "chunk_wf c'" "chunk_abs c' = chunk_abs c"
proof (cases "ch_head c > 0")
  case True
  have "0 + length (ch_data c) - ch_offs c ! ch_head c < 2 ^ 32"
    using assms by (auto simp: chunk_wf_def)
  from chunk_rebuild_wf [OF assms this, of 0] show ?thesis
    using True that by (simp add: chunk_seal_def) metis
qed (use assms that in \<open>auto simp: chunk_seal_def\<close>)

lemma chunk_prepend_wf:
  assumes wf: "chunk_wf c" and h: "0 < ch_head c" and n: "length s \<le> ch_offs c ! ch_head c"
  defines "e \<equiv> ch_offs c ! ch_head c"
  defines "c' \<equiv> \<lparr>ch_data = take (e - length s) (ch_data c) @ s @ drop e (ch_data c),
     ch_offs = (ch_offs c)[ch_head c - 1 := e - length s], ch_head = ch_head c - 1\<rparr>"
  shows "chunk_wf c'" "chunk_abs c' = s # chunk_abs c"
proof -
  let ?os = "drop (ch_head c) (ch_offs c)"
  have hl: "ch_head c < length (ch_offs c)" and so: "sorted ?os" using wf by (auto simp: chunk_wf_def)
  have el: "e \<le> length (ch_data c)" using chunk_wf_offs_le [OF wf] hl by (simp add: e_def)
  have ne: "?os \<noteq> []" using hl by simp
  have hd: "hd ?os = e" using hl by (simp add: e_def hd_drop_conv_nth)
  have "drop (ch_head c - 1) (ch_offs c) = ch_offs c ! (ch_head c - 1) # ?os"
    using h hl by (metis Cons_nth_drop_Suc One_nat_def Suc_pred less_imp_diff_less)
  then have d: "drop (ch_head c - 1) ((ch_offs c)[ch_head c - 1 := e - length s]) = (e - length s) # ?os"
    using h hl by (simp add: drop_update_swap)
  have "sorted ((e - length s) # ?os)"
    using so ne hd by (cases ?os) auto
  moreover have "last ((ch_offs c)[ch_head c - 1 := e - length s]) = last (ch_offs c)"
  proof -
    have "ch_head c - 1 \<noteq> length (ch_offs c) - 1" using h hl by linarith
    then show ?thesis using hl by (metis last_list_update length_0_conv not_less_zero)
  qed
  ultimately show "chunk_wf c'"
    using wf hl h el n d by (auto simp: chunk_wf_def c'_def e_def)
  obtain os where os: "?os = e # os" using ne hd by (cases ?os) auto
  have "segs (ch_data c') ?os = segs (ch_data c) ?os"
    using el n by (intro segs_cong [OF so ne]) (auto simp: hd c'_def e_def)
  moreover have "take (e - (e - length s)) (drop (e - length s) (ch_data c')) = s"
    using el n by (simp add: c'_def e_def)
  ultimately show "chunk_abs c' = s # chunk_abs c"
    using d os by (simp add: chunk_abs_def c'_def)
qed

lemma chunk_push_front_wf:
  assumes wf: "chunk_wf c" and b: "2 * (length (ch_data c) - ch_offs c ! ch_head c) + length s + 64 < 2 ^ 32"
  obtains c' where "chunk_push_front c s = Some c'" "chunk_wf c'" "chunk_abs c' = s # chunk_abs c"
proof -
  have hl: "ch_head c < length (ch_offs c)" using wf by (simp add: chunk_wf_def)
  have oe: "ch_offs c ! ch_head c \<le> length (ch_data c)" using chunk_wf_offs_le [OF wf] hl by simp
  let ?prep = "(if ch_head c = 0 \<or> ch_offs c ! ch_head c < length s
      then chunk_live_bytes c \<bind> (\<lambda>live. chunk_rebuild c FRONT_SLOTS (max (max (length s) (live div 2)) 64))
      else Some c)"
  obtain c1 where c1: "?prep = Some c1" "chunk_wf c1" "chunk_abs c1 = chunk_abs c"
    "0 < ch_head c1" "length s \<le> ch_offs c1 ! ch_head c1"
  proof (cases "ch_head c = 0 \<or> ch_offs c ! ch_head c < length s")
    case True
    let ?live = "length (ch_data c) - ch_offs c ! ch_head c"
    let ?gap = "max (max (length s) (?live div 2)) 64"
    have "?gap + length (ch_data c) - ch_offs c ! ch_head c < 2 ^ 32"
      using b oe by (auto simp: max_def)
    from chunk_rebuild_wf [OF wf this, of FRONT_SLOTS] True that
    show ?thesis by (simp add: chunk_live_bytes_wf [OF wf] FRONT_SLOTS_def) (metis max.cobounded1 max.coboundedI1 zero_less_numeral)
  next
    case False
    then show ?thesis using that wf by auto
  qed
  let ?e = "ch_offs c1 ! ch_head c1"
  have hl1: "ch_head c1 < length (ch_offs c1)" using c1(2) by (simp add: chunk_wf_def)
  have e1: "?e \<le> length (ch_data c1)" using chunk_wf_offs_le [OF c1(2)] hl1 by simp
  have "?e < 2 ^ 32" using e1 c1(2) by (simp add: chunk_wf_def)
  then have "chunk_push_front c s = Some \<lparr>ch_data = take (?e - length s) (ch_data c1) @ s @ drop ?e (ch_data c1),
     ch_offs = (ch_offs c1)[ch_head c1 - 1 := ?e - length s], ch_head = ch_head c1 - 1\<rparr>"
    using c1 hl hl1 e1 by (simp add: chunk_push_front_def Let_def panic_simps)
  with chunk_prepend_wf [OF c1(2,4,5)] c1(3) that show ?thesis by simp
qed

lemma chunk_pop_front_with_wf:
  assumes wf: "chunk_wf c" and n: "0 < chunk_len c"
  obtains c' where "chunk_pop_front_with f c = Some (f (hd (chunk_abs c)), c')" "chunk_wf c'"
    "chunk_abs c' = tl (chunk_abs c)"
proof -
  let ?c = "c\<lparr>ch_head := ch_head c + 1\<rparr>"
  have l: "Suc (ch_head c) < length (ch_offs c)" using n by (simp add: chunk_len_def)
  have d: "drop (ch_head c) (ch_offs c) = ch_offs c ! ch_head c # ch_offs c ! Suc (ch_head c) # drop (Suc (Suc (ch_head c))) (ch_offs c)"
    "drop (Suc (ch_head c)) (ch_offs c) = ch_offs c ! Suc (ch_head c) # drop (Suc (Suc (ch_head c))) (ch_offs c)"
    using l by (metis Cons_nth_drop_Suc Suc_lessD)+
  have wf': "chunk_wf ?c" using wf l d by (auto simp: chunk_wf_def)
  have ab: "chunk_abs ?c = tl (chunk_abs c)" using d by (simp add: chunk_abs_def)
  have "chunk_get c 0 = Some (hd (chunk_abs c))"
    using chunk_get_abs [OF wf n] n by (metis chunk_len_abs hd_conv_nth length_greater_0_conv)
  then have "chunk_pop_front_with f c = Some (f (hd (chunk_abs c)), if chunk_len ?c = 0 then chunk_reset ?c else ?c)"
    by (simp add: chunk_pop_front_with_def Let_def)
  moreover have "chunk_len ?c = 0 \<Longrightarrow> tl (chunk_abs c) = []"
    using ab by (metis chunk_len_abs length_0_conv)
  ultimately show ?thesis using that wf' ab
    by (cases "chunk_len ?c = 0") auto
qed

lemma chunk_pop_back_with_wf:
  assumes wf: "chunk_wf c" and n: "0 < chunk_len c"
  obtains c' where "chunk_pop_back_with f c = Some (f (last (chunk_abs c)), c')" "chunk_wf c'"
    "chunk_abs c' = butlast (chunk_abs c)"
proof -
  let ?os = "drop (ch_head c) (ch_offs c)"
  let ?start = "ch_offs c ! (length (ch_offs c) - 2)"
  let ?c = "c\<lparr>ch_data := take ?start (ch_data c), ch_offs := butlast (ch_offs c)\<rparr>"
  have l: "Suc (ch_head c) < length (ch_offs c)" using n by (simp add: chunk_len_def)
  have so: "sorted ?os" "Suc 0 < length ?os" "last ?os = length (ch_data c)"
    using wf l by (auto simp: chunk_wf_def)
  have st: "?os ! (length ?os - 2) = ?start" using l by (simp add: numeral_2_eq_2)
  have sl: "?start \<le> length (ch_data c)" using chunk_wf_offs_le [OF wf, of "length (ch_offs c) - 2"] l by simp
  have bl: "drop (ch_head c) (butlast (ch_offs c)) = butlast ?os" by (simp add: drop_butlast)
  have sb: "sorted (butlast ?os)" using so(1) by (simp add: sorted_butlast)
  have "last (butlast (ch_offs c)) = ?start"
  proof -
    have "butlast (ch_offs c) \<noteq> []" using l by (metis length_butlast length_greater_0_conv less_diff_conv less_nat_zero_code neq0_conv not_less_eq One_nat_def add.commute plus_1_eq_Suc)
    then show ?thesis using l by (simp add: last_conv_nth nth_butlast numeral_2_eq_2)
  qed
  then have wf': "chunk_wf ?c" using wf l bl sb sl by (auto simp: chunk_wf_def)
  have ab: "chunk_abs ?c = butlast (chunk_abs c)"
    using segs_butlast [OF so(1,2), of "ch_data c"] st bl by (simp add: chunk_abs_def)
  have la: "last (chunk_abs c) = drop ?start (ch_data c)"
    using segs_last [OF so] st by (simp add: chunk_abs_def)
  have "chunk_pop_back_with f c = Some (f (last (chunk_abs c)), if chunk_len ?c = 0 then chunk_reset ?c else ?c)"
    using l sl by (simp add: chunk_pop_back_with_def panic_simps la Let_def)
  moreover have "chunk_len ?c = 0 \<Longrightarrow> butlast (chunk_abs c) = []"
    using ab by (metis chunk_len_abs length_0_conv)
  ultimately show ?thesis using that wf' ab
    by (cases "chunk_len ?c = 0") auto
qed

lemma chunk_from_iter_wf_gen:
  "chunk_wf c \<Longrightarrow> length (ch_data c) + length (concat items) < 2 ^ 32 \<Longrightarrow>
   chunk_wf (foldl chunk_push_back c items)
   \<and> chunk_abs (foldl chunk_push_back c items) = chunk_abs c @ items"
proof (induction items arbitrary: c)
  case (Cons s items)
  have "chunk_wf (chunk_push_back c s)" "chunk_abs (chunk_push_back c s) = chunk_abs c @ [s]"
    using chunk_push_back_wf [OF Cons.prems(1)] Cons.prems(2) by auto
  moreover have "length (ch_data (chunk_push_back c s)) = length (ch_data c) + length s"
    by (simp add: chunk_push_back_def Let_def)
  ultimately show ?case using Cons by simp
qed auto

lemma chunk_from_iter_wf:
  assumes "length (concat items) < 2 ^ 32"
  shows "chunk_wf (chunk_from_iter items)" "chunk_abs (chunk_from_iter items) = items"
    "chunk_len (chunk_from_iter items) = length items"
proof -
  have "length (ch_data chunk_new) = 0" by (simp add: chunk_new_def)
  then show "chunk_wf (chunk_from_iter items)" and a: "chunk_abs (chunk_from_iter items) = items"
    using chunk_from_iter_wf_gen [of chunk_new items] assms by (auto simp: chunk_from_iter_def)
  show "chunk_len (chunk_from_iter items) = length items"
    using a by (metis chunk_len_abs)
qed

lemma chunk_iter_next_wf:
  assumes wf: "chunk_wf c" and i: "ch_head c \<le> i" "i < j" "j < length (ch_offs c)"
  shows "chunk_iter_next \<lparr>it_c = c, it_i = i, it_j = j\<rparr> =
      Some (Some (chunk_abs c ! (i - ch_head c)), \<lparr>it_c = c, it_i = Suc i, it_j = j\<rparr>)"
  using chunk_get_abs [OF wf, of "i - ch_head c"] i
  by (auto simp: chunk_iter_next_def chunk_get_def Let_def chunk_len_def bind_eq_Some_conv)

lemma chunk_iter_next_back_wf:
  assumes wf: "chunk_wf c" and i: "ch_head c \<le> i" "i \<le> j" "Suc j < length (ch_offs c)"
  shows "chunk_iter_next_back \<lparr>it_c = c, it_i = i, it_j = Suc j\<rparr> =
      Some (Some (chunk_abs c ! (j - ch_head c)), \<lparr>it_c = c, it_i = i, it_j = j\<rparr>)"
  using chunk_get_abs [OF wf, of "j - ch_head c"] i
  by (auto simp: chunk_iter_next_back_def chunk_get_def Let_def chunk_len_def bind_eq_Some_conv)

lemma collect_fwd:
  assumes "chunk_wf c"
  shows "ch_head c \<le> i \<Longrightarrow> i \<le> j \<Longrightarrow> j < length (ch_offs c) \<Longrightarrow>
    collect_with chunk_iter_next (Suc (j - i)) \<lparr>it_c = c, it_i = i, it_j = j\<rparr> =
      Some (map (\<lambda>k. chunk_abs c ! (k - ch_head c)) [i..<j])"
proof (induction "j - i" arbitrary: i)
  case 0
  then show ?case by (simp add: chunk_iter_next_def)
next
  case (Suc n)
  then have "n = j - Suc i" "i < j" by auto
  then show ?case
    using Suc.prems chunk_iter_next_wf [OF assms Suc.prems(1) \<open>i < j\<close> Suc.prems(3)] Suc.hyps(1) [of "Suc i"]
    by (simp add: upt_conv_Cons Suc_diff_Suc [symmetric] del: collect_with.simps) (simp add: Suc_diff_Suc)
qed

lemma collect_bwd:
  assumes "chunk_wf c"
  shows "ch_head c \<le> i \<Longrightarrow> i \<le> j \<Longrightarrow> j < length (ch_offs c) \<Longrightarrow>
    collect_with chunk_iter_next_back (Suc (j - i)) \<lparr>it_c = c, it_i = i, it_j = j\<rparr> =
      Some (rev (map (\<lambda>k. chunk_abs c ! (k - ch_head c)) [i..<j]))"
proof (induction j)
  case 0
  then show ?case by (simp add: chunk_iter_next_back_def)
next
  case (Suc j)
  show ?case
  proof (cases "i = Suc j")
    case True
    then show ?thesis by (simp add: chunk_iter_next_back_def)
  next
    case False
    then have ij: "i \<le> j" using Suc.prems by simp
    show ?thesis
      using Suc.IH Suc.prems ij chunk_iter_next_back_wf [OF assms Suc.prems(1) ij Suc.prems(3)]
      by (simp add: Suc_diff_le)
  qed
qed

lemma map_nth_upt_shift: "map (\<lambda>k. xs ! (k - h)) [h..<h + length xs] = xs"
  by (rule nth_equalityI) auto

lemma chunk_items_abs:
  assumes "chunk_wf c"
  shows "chunk_items c = Some (chunk_abs c)" "chunk_items_rev c = Some (rev (chunk_abs c))"
proof -
  have h: "ch_head c \<le> length (ch_offs c) - 1" "length (ch_offs c) - 1 < length (ch_offs c)"
    using assms by (auto simp: chunk_wf_def)
  have "length (ch_offs c) - 1 = ch_head c + length (chunk_abs c)"
    using assms by (simp add: chunk_wf_def chunk_len_def)
  then have "map (\<lambda>k. chunk_abs c ! (k - ch_head c)) [ch_head c..<length (ch_offs c) - 1] = chunk_abs c"
    using map_nth_upt_shift [of "chunk_abs c" "ch_head c"] by simp
  then show "chunk_items c = Some (chunk_abs c)" "chunk_items_rev c = Some (rev (chunk_abs c))"
    using collect_fwd [OF assms order_refl h] collect_bwd [OF assms order_refl h]
    by (simp_all add: chunk_items_def chunk_items_rev_def chunk_iter_of_def chunk_iter_size_def Let_def del: collect_with.simps)
qed

section \<open>Quicklist operations\<close>

lemma ql_inv_wf [simp]: "ql_inv q \<Longrightarrow> ql_wf q"
  by (simp add: ql_inv_def)

lemma chunk_len_chunk_abs_eq: "chunk_abs c = xs \<Longrightarrow> chunk_len c = length xs"
  by (metis chunk_len_abs)

lemma ql_new_inv [simp]: "ql_inv ql_new" "ql_abs ql_new = []"
  by (simp_all add: ql_inv_def ql_wf_def ql_new_def ql_abs_def)

lemma chunk_data_new: "ch_data chunk_new = []" "ch_head chunk_new = 0" "ch_offs chunk_new = [0]"
  by (simp_all add: chunk_new_def)

lemma ql_len_abs: "ql_wf q \<Longrightarrow> ql_len q = length (ql_abs q)"
  by (simp add: ql_wf_def)

lemma ql_upd_wf:
  assumes "\<forall>c\<in>set cs. chunk_wf c" "concat (map chunk_abs cs) = xs" "n = length xs"
  shows "ql_wf (q\<lparr>ql_chunks := cs, ql_len := n\<rparr>)" "ql_abs (q\<lparr>ql_chunks := cs, ql_len := n\<rparr>) = xs"
  using assms by (simp_all add: ql_wf_def ql_abs_def)

lemma ql_room_back_wf:
  assumes "\<forall>c\<in>set cs. chunk_wf c"
  shows "\<exists>ds d. ql_room_back cs = Some (ds @ [d]) \<and> (\<forall>c\<in>set ds. chunk_wf c) \<and> chunk_wf d
    \<and> concat (map chunk_abs ds) @ chunk_abs d = concat (map chunk_abs cs)
    \<and> length (ch_data d) < CHUNK_BYTES
    \<and> ((\<forall>c\<in>set cs. 0 < chunk_len c) \<longrightarrow> (\<forall>c\<in>set ds. 0 < chunk_len c))"
proof (cases cs rule: rev_cases)
  case Nil
  then show ?thesis
    by (intro exI [of _ "[]"] exI [of _ chunk_new]) (simp add: ql_room_back_def CHUNK_BYTES_def chunk_data_new)
next
  case (snoc ds c)
  then have wf: "chunk_wf c" "\<forall>c\<in>set ds. chunk_wf c" using assms by auto
  show ?thesis
  proof (cases "chunk_full_back c")
    case True
    obtain c' where c': "chunk_seal c = Some c'" "chunk_wf c'" "chunk_abs c' = chunk_abs c"
      using chunk_seal_wf [OF wf(1)] by metis
    then show ?thesis using snoc wf True chunk_len_chunk_abs_eq [OF c'(3)]
      by (intro exI [of _ "ds @ [c']"] exI [of _ chunk_new])
        (auto simp: ql_room_back_def CHUNK_BYTES_def chunk_data_new)
  next
    case False
    then show ?thesis using snoc wf
      by (intro exI [of _ ds] exI [of _ c]) (auto simp: ql_room_back_def chunk_full_back_def)
  qed
qed

lemma ql_room_front_wf:
  assumes "\<forall>c\<in>set cs. chunk_wf c"
  shows "\<exists>d ds. ql_room_front cs = Some (d # ds) \<and> (\<forall>c\<in>set ds. chunk_wf c) \<and> chunk_wf d
    \<and> chunk_abs d @ concat (map chunk_abs ds) = concat (map chunk_abs cs)
    \<and> length (ch_data d) - ch_offs d ! ch_head d < CHUNK_BYTES
    \<and> ((\<forall>c\<in>set cs. 0 < chunk_len c) \<longrightarrow> (\<forall>c\<in>set ds. 0 < chunk_len c))"
proof (cases cs)
  case Nil
  then show ?thesis
    by (intro exI [of _ chunk_new] exI [of _ "[]"]) (simp add: ql_room_front_def CHUNK_BYTES_def chunk_data_new)
next
  case (Cons c ds)
  then have wf: "chunk_wf c" "\<forall>c\<in>set ds. chunk_wf c" using assms by auto
  let ?full = "chunk_len c \<ge> CHUNK_ENTRIES \<or> length (ch_data c) - ch_offs c ! ch_head c \<ge> CHUNK_BYTES"
  have f: "chunk_full_front c = Some ?full"
    by (simp add: chunk_full_front_def chunk_live_bytes_wf [OF wf(1)])
  show ?thesis
  proof (cases ?full)
    case True
    obtain c' where c': "chunk_seal c = Some c'" "chunk_wf c'" "chunk_abs c' = chunk_abs c"
      using chunk_seal_wf [OF wf(1)] by metis
    then show ?thesis using Cons wf True f chunk_len_chunk_abs_eq [OF c'(3)]
      by (intro exI [of _ chunk_new] exI [of _ "c' # ds"])
        (auto simp: ql_room_front_def CHUNK_BYTES_def chunk_data_new)
  next
    case False
    then show ?thesis using Cons wf f
      by (intro exI [of _ c] exI [of _ ds]) (auto simp: ql_room_front_def)
  qed
qed

lemma ql_push_back_wf:
  assumes "ql_wf q" "ql_elem_ok s"
  shows "\<exists>q'. ql_push_back q s = Some q' \<and> ql_wf q' \<and> ql_abs q' = ql_abs q @ [s]
    \<and> (ql_inv q \<longrightarrow> ql_inv q')"
proof -
  obtain ds d where ds: "ql_room_back (ql_chunks q) = Some (ds @ [d])" "\<forall>c\<in>set ds. chunk_wf c"
    "chunk_wf d" "concat (map chunk_abs ds) @ chunk_abs d = ql_abs q" "length (ch_data d) < CHUNK_BYTES"
    "(\<forall>c\<in>set (ql_chunks q). 0 < chunk_len c) \<longrightarrow> (\<forall>c\<in>set ds. 0 < chunk_len c)"
    using ql_room_back_wf [of "ql_chunks q"] assms(1) by (auto simp: ql_wf_def ql_abs_def)
  have c: "chunk_wf (chunk_push_back d s)" "chunk_abs (chunk_push_back d s) = chunk_abs d @ [s]"
    using chunk_push_back_wf [OF ds(3), of s] ds(5) assms(2)
    by (auto simp: ql_elem_ok_def CHUNK_BYTES_def)
  let ?cs = "ds @ [chunk_push_back d s]"
  have "concat (map chunk_abs ?cs) = ql_abs q @ [s]" using c(2) ds(4) by simp
  then have "ql_wf (q\<lparr>ql_chunks := ?cs, ql_len := ql_len q + 1\<rparr>)"
    "ql_abs (q\<lparr>ql_chunks := ?cs, ql_len := ql_len q + 1\<rparr>) = ql_abs q @ [s]"
    using ql_upd_wf [of ?cs "ql_abs q @ [s]" "ql_len q + 1" q] ds(2) c(1) ql_len_abs [OF assms(1)] by auto
  then show ?thesis
    using ds(1,6) chunk_len_chunk_abs_eq [OF c(2)] by (auto simp: ql_push_back_def ql_inv_def)
qed

lemma ql_push_front_wf:
  assumes "ql_wf q" "ql_elem_ok s"
  shows "\<exists>q'. ql_push_front q s = Some q' \<and> ql_wf q' \<and> ql_abs q' = s # ql_abs q
    \<and> (ql_inv q \<longrightarrow> ql_inv q')"
proof -
  obtain d ds where ds: "ql_room_front (ql_chunks q) = Some (d # ds)" "\<forall>c\<in>set ds. chunk_wf c"
    "chunk_wf d" "chunk_abs d @ concat (map chunk_abs ds) = ql_abs q"
    "length (ch_data d) - ch_offs d ! ch_head d < CHUNK_BYTES"
    "(\<forall>c\<in>set (ql_chunks q). 0 < chunk_len c) \<longrightarrow> (\<forall>c\<in>set ds. 0 < chunk_len c)"
    using ql_room_front_wf [of "ql_chunks q"] assms(1) by (auto simp: ql_wf_def ql_abs_def)
  have "2 * (length (ch_data d) - ch_offs d ! ch_head d) + length s + 64 < 2 ^ 32"
    using ds(5) assms(2) by (simp add: ql_elem_ok_def CHUNK_BYTES_def)
  from chunk_push_front_wf [OF ds(3) this] obtain c where
    c: "chunk_push_front d s = Some c" "chunk_wf c" "chunk_abs c = s # chunk_abs d" by metis
  have "concat (map chunk_abs (c # ds)) = s # ql_abs q" using c(3) ds(4) by simp
  then have "ql_wf (q\<lparr>ql_chunks := c # ds, ql_len := ql_len q + 1\<rparr>)"
    "ql_abs (q\<lparr>ql_chunks := c # ds, ql_len := ql_len q + 1\<rparr>) = s # ql_abs q"
    using ql_upd_wf [of "c # ds" "s # ql_abs q" "ql_len q + 1" q] ds(2) c(2) ql_len_abs [OF assms(1)] by auto
  then show ?thesis
    using ds(1,6) c(1) chunk_len_chunk_abs_eq [OF c(3)] by (auto simp: ql_push_front_def ql_inv_def)
qed

lemma ql_pop_front_with_inv:
  assumes "ql_inv q"
  shows "ql_abs q = [] \<Longrightarrow> ql_pop_front_with f q = Some (None, q)"
    "ql_abs q \<noteq> [] \<Longrightarrow> \<exists>q'. ql_pop_front_with f q = Some (Some (f (hd (ql_abs q))), q')
       \<and> ql_inv q' \<and> ql_abs q' = tl (ql_abs q)"
proof -
  show "ql_pop_front_with f q = Some (None, q)" if "ql_abs q = []"
  proof (cases "ql_chunks q")
    case (Cons c cs)
    then have "0 < length (chunk_abs c)" using assms by (simp add: ql_inv_def)
    with that Cons show ?thesis by (simp add: ql_abs_def)
  qed (simp add: ql_pop_front_with_def)
next
  assume ne: "ql_abs q \<noteq> []"
  then obtain c cs where q: "ql_chunks q = c # cs" by (cases "ql_chunks q") (auto simp: ql_abs_def)
  with assms have c: "chunk_wf c" "0 < chunk_len c" by (auto simp: ql_inv_def ql_wf_def)
  then have nc: "chunk_abs c \<noteq> []" by (metis chunk_len_abs length_greater_0_conv)
  obtain c' where c': "chunk_pop_front_with f c = Some (f (hd (chunk_abs c)), c')" "chunk_wf c'"
    "chunk_abs c' = tl (chunk_abs c)"
    using chunk_pop_front_with_wf [OF c] by metis
  have "chunk_len c' = 0 \<Longrightarrow> chunk_abs c' = []" by (metis chunk_len_abs length_0_conv)
  then show "\<exists>q'. ql_pop_front_with f q = Some (Some (f (hd (ql_abs q))), q') \<and> ql_inv q' \<and> ql_abs q' = tl (ql_abs q)"
    using q c c' nc assms chunk_len_chunk_abs_eq [OF c'(3)]
    by (auto simp: ql_pop_front_with_def ql_inv_def ql_wf_def ql_abs_def)
qed

lemma ql_pop_back_with_inv:
  assumes "ql_inv q"
  shows "ql_abs q = [] \<Longrightarrow> ql_pop_back_with f q = Some (None, q)"
    "ql_abs q \<noteq> [] \<Longrightarrow> \<exists>q'. ql_pop_back_with f q = Some (Some (f (last (ql_abs q))), q')
       \<and> ql_inv q' \<and> ql_abs q' = butlast (ql_abs q)"
proof -
  show "ql_pop_back_with f q = Some (None, q)" if "ql_abs q = []"
  proof (cases "ql_chunks q")
    case (Cons c cs)
    then have "0 < length (chunk_abs c)" using assms by (simp add: ql_inv_def)
    with that Cons show ?thesis by (simp add: ql_abs_def)
  qed (simp add: ql_pop_back_with_def)
next
  assume ne: "ql_abs q \<noteq> []"
  then obtain c cs where q: "ql_chunks q = cs @ [c]"
    by (cases "ql_chunks q" rule: rev_cases) (auto simp: ql_abs_def)
  with assms have c: "chunk_wf c" "0 < chunk_len c" by (auto simp: ql_inv_def ql_wf_def)
  then have nc: "chunk_abs c \<noteq> []" by (metis chunk_len_abs length_greater_0_conv)
  obtain c' where c': "chunk_pop_back_with f c = Some (f (last (chunk_abs c)), c')" "chunk_wf c'"
    "chunk_abs c' = butlast (chunk_abs c)"
    using chunk_pop_back_with_wf [OF c] by metis
  have "chunk_len c' = 0 \<Longrightarrow> chunk_abs c' = []" by (metis chunk_len_abs length_0_conv)
  then show "\<exists>q'. ql_pop_back_with f q = Some (Some (f (last (ql_abs q))), q') \<and> ql_inv q' \<and> ql_abs q' = butlast (ql_abs q)"
    using q c c' nc assms chunk_len_chunk_abs_eq [OF c'(3)]
    by (auto simp: ql_pop_back_with_def ql_inv_def ql_wf_def ql_abs_def butlast_append)
qed

lemma locate_fwd_abs:
  "r < length (chunks_abs cs) \<Longrightarrow>
   \<exists>k j. locate_fwd cs ci r = Some (ci + k, j) \<and> k < length cs \<and> j < chunk_len (cs ! k)
     \<and> r = length (chunks_abs (take k cs)) + j"
proof (induction cs ci r rule: locate_fwd.induct)
  case (2 c cs ci r)
  show ?case
  proof (cases "r < chunk_len c")
    case True
    then show ?thesis by (intro exI [of _ 0] exI [of _ r]) auto
  next
    case False
    with 2 obtain k j where "locate_fwd cs (Suc ci) (r - chunk_len c) = Some (Suc ci + k, j)"
      "k < length cs" "j < chunk_len (cs ! k)" "r - chunk_len c = length (chunks_abs (take k cs)) + j"
      by fastforce
    with False show ?thesis by (intro exI [of _ "Suc k"] exI [of _ j]) auto
  qed
qed simp

lemma locate_bwd_abs:
  "r < length (chunks_abs cs) \<Longrightarrow>
   \<exists>k j. locate_bwd (rev cs) (length cs - 1) r = Some (k, j) \<and> k < length cs \<and> j < chunk_len (cs ! k)
     \<and> length (chunks_abs cs) - 1 - r = length (chunks_abs (take k cs)) + j"
proof (induction cs arbitrary: r rule: rev_induct)
  case (snoc c cs)
  show ?case
  proof (cases "r < chunk_len c")
    case True
    then show ?thesis by (intro exI [of _ "length cs"] exI [of _ "chunk_len c - 1 - r"]) auto
  next
    case False
    then have "r - chunk_len c < length (chunks_abs cs)" using snoc.prems by simp
    from snoc.IH [OF this] obtain k j where "locate_bwd (rev cs) (length cs - 1) (r - chunk_len c) = Some (k, j)"
      "k < length cs" "j < chunk_len (cs ! k)"
      "length (chunks_abs cs) - 1 - (r - chunk_len c) = length (chunks_abs (take k cs)) + j"
      by auto
    with False show ?thesis by (intro exI [of _ k] exI [of _ j]) (auto simp: nth_append)
  qed
qed simp

lemma ql_locate_abs:
  assumes "ql_wf q" "idx < ql_len q"
  shows "\<exists>ci j. ql_locate q idx = Some (ci, j) \<and> ci < length (ql_chunks q)
    \<and> j < chunk_len (ql_chunks q ! ci) \<and> idx = length (chunks_abs (take ci (ql_chunks q))) + j"
proof -
  have n: "ql_len q = length (chunks_abs (ql_chunks q))" using assms(1) by (simp add: ql_wf_def ql_abs_def)
  show ?thesis
  proof (cases "idx < ql_len q div 2")
    case True
    then show ?thesis using locate_fwd_abs [of idx "ql_chunks q" 0] assms(2) n
      by (auto simp: ql_locate_def)
  next
    case False
    then show ?thesis using locate_bwd_abs [of "ql_len q - 1 - idx" "ql_chunks q"] assms(2) n
      by (auto simp: ql_locate_def)
  qed
qed

lemma ql_locate_None: "ql_len q \<le> idx \<Longrightarrow> ql_locate q idx = None"
  by (simp add: ql_locate_def)

lemma ql_abs_split:
  assumes "ci < length (ql_chunks q)"
  shows "ql_abs q = chunks_abs (take ci (ql_chunks q)) @ chunk_abs (ql_chunks q ! ci)
           @ chunks_abs (drop (Suc ci) (ql_chunks q))"
  using concat_nth_split [of ci "map chunk_abs (ql_chunks q)"] assms
  by (simp add: ql_abs_def take_map drop_map)

lemma ql_get_abs:
  assumes "ql_wf q"
  shows "ql_get q idx = Some (if idx < length (ql_abs q) then Some (ql_abs q ! idx) else None)"
proof (cases "idx < ql_len q")
  case True
  then obtain ci j where l: "ql_locate q idx = Some (ci, j)" "ci < length (ql_chunks q)"
    "j < chunk_len (ql_chunks q ! ci)" "idx = length (chunks_abs (take ci (ql_chunks q))) + j"
    using ql_locate_abs [OF assms] by metis
  then have "chunk_wf (ql_chunks q ! ci)" using assms by (simp add: ql_wf_def)
  from chunk_get_abs [OF this l(3)] l True show ?thesis
    using ql_len_abs [OF assms] ql_abs_split [OF l(2)]
    by (simp add: ql_get_def panic_simps nth_append)
next
  case False
  then show ?thesis using ql_len_abs [OF assms] by (simp add: ql_get_def ql_locate_None)
qed

lemma those_chunk_items:
  "\<forall>c\<in>set cs. chunk_wf c \<Longrightarrow> those (map chunk_items cs) = Some (map chunk_abs cs)"
  by (induction cs) (auto simp: chunk_items_abs)

lemma ql_iter_abs: "ql_wf q \<Longrightarrow> ql_iter q = Some (ql_abs q)"
  by (simp add: ql_iter_def ql_wf_def those_chunk_items ql_abs_def)

lemma ql_position_abs: "ql_wf q \<Longrightarrow> ql_position q v = Some (position (\<lambda>x. x = v) (ql_abs q))"
  by (simp add: ql_position_def ql_iter_abs)

lemma ql_range_abs:
  assumes "ql_wf q"
  shows "ql_range q start count = Some (take count (drop start (ql_abs q)))"
proof (cases "start < ql_len q")
  case True
  then obtain ci j where l: "ql_locate q start = Some (ci, j)" "ci < length (ql_chunks q)"
    "j < chunk_len (ql_chunks q ! ci)" "start = length (chunks_abs (take ci (ql_chunks q))) + j"
    using ql_locate_abs [OF assms] by metis
  have wf: "\<forall>c\<in>set (drop ci (ql_chunks q)). chunk_wf c"
    using assms by (auto simp: ql_wf_def dest: in_set_dropD)
  have d: "drop ci (ql_chunks q) = ql_chunks q ! ci # drop (Suc ci) (ql_chunks q)"
    using l(2) by (simp add: Cons_nth_drop_Suc)
  have "drop start (ql_abs q) = drop j (chunk_abs (ql_chunks q ! ci)) @ chunks_abs (drop (Suc ci) (ql_chunks q))"
    using ql_abs_split [OF l(2)] l(3,4) by simp
  then show ?thesis
    using those_chunk_items [OF wf] l(1,2) d by (simp add: ql_range_def Let_def)
next
  case False
  then show ?thesis using ql_len_abs [OF assms] by (simp add: ql_range_def ql_locate_None)
qed



lemma length_concat_split:
  "length (concat (take m xs)) + length (concat (drop m xs)) = length (concat xs)"
  by (metis append_take_drop_id concat_append length_append)

lemma ql_replace_at:
  assumes wf: "ql_wf q" and ci: "ci < length (ql_chunks q)" and ds: "\<forall>d\<in>set ds. chunk_wf d"
  defines "q' \<equiv> \<lparr>ql_chunks = take ci (ql_chunks q) @ ds @ drop (Suc ci) (ql_chunks q),
     ql_len = ql_len q - chunk_len (ql_chunks q ! ci) + length (chunks_abs ds)\<rparr>"
  shows "ql_wf q'"
    "ql_abs q' = chunks_abs (take ci (ql_chunks q)) @ chunks_abs ds @ chunks_abs (drop (Suc ci) (ql_chunks q))"
    "ql_inv q \<Longrightarrow> \<forall>d\<in>set ds. 0 < chunk_len d \<Longrightarrow> ql_inv q'"
proof -
  have wfs: "\<forall>c\<in>set (take ci (ql_chunks q)) \<union> set (drop (Suc ci) (ql_chunks q)). chunk_wf c"
    using wf by (auto simp: ql_wf_def dest: in_set_takeD in_set_dropD)
  show ab: "ql_abs q' = chunks_abs (take ci (ql_chunks q)) @ chunks_abs ds @ chunks_abs (drop (Suc ci) (ql_chunks q))"
    by (simp add: ql_abs_def q'_def)
  have n: "ql_len q' = length (ql_abs q')"
    using ql_len_abs [OF wf] ql_abs_split [OF ci] ab by (simp add: q'_def)
  show w: "ql_wf q'" unfolding ql_wf_def using n wfs ds by (auto simp: q'_def)
  show "ql_inv q'" if "ql_inv q" "\<forall>d\<in>set ds. 0 < chunk_len d"
    unfolding ql_inv_def using w that by (auto simp: q'_def ql_inv_def dest: in_set_takeD in_set_dropD)
qed

lemma ql_rewrite_chunk_form:
  assumes ci: "ci < length (ql_chunks q)" and b: "length (concat items) < 2 ^ 32"
  shows "\<exists>ds. ql_rewrite_chunk q ci items
        = Some \<lparr>ql_chunks = take ci (ql_chunks q) @ ds @ drop (Suc ci) (ql_chunks q),
                ql_len = ql_len q - chunk_len (ql_chunks q ! ci) + length (chunks_abs ds)\<rparr>
    \<and> (\<forall>d\<in>set ds. chunk_wf d) \<and> chunks_abs ds = items
    \<and> ((length items = 1 \<longrightarrow> length (concat items) \<le> CHUNK_BYTES) \<longrightarrow> (\<forall>d\<in>set ds. 0 < chunk_len d))"
proof -
  let ?cs = "ql_chunks q" and ?mid = "length items div 2"
  let ?small = "length items \<le> CHUNK_ENTRIES \<and> sum_list (map length items) \<le> CHUNK_BYTES"
  consider (nil) "items = []" | (one) "items \<noteq> []" ?small | (split) "items \<noteq> []" "\<not> ?small" by blast
  then show ?thesis
  proof cases
    case nil
    then show ?thesis using ci by (intro exI [of _ "[]"]) (simp add: ql_rewrite_chunk_def panic_simps Let_def)
  next
    case one
    then show ?thesis using ci chunk_from_iter_wf [OF b]
      by (intro exI [of _ "[chunk_from_iter items]"])
        (simp add: ql_rewrite_chunk_def panic_simps Let_def upd_conv_take_nth_drop)
  next
    case split
    let ?a = "take ?mid items" and ?b = "drop ?mid items"
    have bt: "length (concat ?a) < 2 ^ 32" "length (concat ?b) < 2 ^ 32"
      using b length_concat_split [of ?mid items] by linarith+
    have two: "0 < ?mid" if "length items = 1 \<longrightarrow> length (concat items) \<le> CHUNK_BYTES"
    proof (rule ccontr)
      assume "\<not> 0 < ?mid"
      moreover have "length items \<noteq> 0" using split(1) by simp
      ultimately have "length items = 1" by arith
      then show False using that split(2) by (simp add: length_concat CHUNK_ENTRIES_def)
    qed
    have "vinsert (?cs[ci := chunk_from_iter ?a]) (ci + 1) (chunk_from_iter ?b)
        = Some (take ci ?cs @ [chunk_from_iter ?a, chunk_from_iter ?b] @ drop (Suc ci) ?cs)"
      using ci by (simp add: vinsert_def upd_conv_take_nth_drop min_def)
    moreover have "length ?a + length ?b = length items"
      by (metis append_take_drop_id length_append)
    ultimately show ?thesis
      using split ci chunk_from_iter_wf [OF bt(1)] chunk_from_iter_wf [OF bt(2)] two
      by (intro exI [of _ "[chunk_from_iter ?a, chunk_from_iter ?b]"])
        (auto simp: ql_rewrite_chunk_def panic_simps Let_def)
  qed
qed

lemma ql_rewrite_chunk_wf:
  assumes wf: "ql_wf q" and ci: "ci < length (ql_chunks q)" and b: "length (concat items) < 2 ^ 32"
  shows "\<exists>q'. ql_rewrite_chunk q ci items = Some q' \<and> ql_wf q'
    \<and> ql_abs q' = chunks_abs (take ci (ql_chunks q)) @ items @ chunks_abs (drop (Suc ci) (ql_chunks q))
    \<and> (ql_inv q \<and> (length items = 1 \<longrightarrow> length (concat items) \<le> CHUNK_BYTES) \<longrightarrow> ql_inv q')"
  using ql_rewrite_chunk_form [OF ci b] ql_replace_at [OF wf ci] by metis

lemma length_concat_list_update_le:
  "j < length xs \<Longrightarrow> length (concat (xs[j := v])) \<le> length (concat xs) + length v"
  using concat_list_update [of j xs v] concat_nth_split [of j xs] by simp

lemma ql_bytes_chunk_le:
  "ci < length (ql_chunks q) \<Longrightarrow> length (concat (chunk_abs (ql_chunks q ! ci))) \<le> ql_bytes q"
  by (simp add: ql_bytes_def ql_abs_split)

lemma ql_set_abs:
  assumes wf: "ql_wf q" and b: "ql_bytes q + length v < 2 ^ 32"
  shows "ql_len q \<le> idx \<Longrightarrow> ql_set q idx v = Some (False, q)"
    "idx < ql_len q \<Longrightarrow> \<exists>q'. ql_set q idx v = Some (True, q') \<and> ql_wf q'
       \<and> ql_abs q' = (ql_abs q)[idx := v] \<and> (ql_inv q \<and> length v \<le> CHUNK_BYTES \<longrightarrow> ql_inv q')"
proof -
  show "ql_set q idx v = Some (False, q)" if "ql_len q \<le> idx"
    using that by (simp add: ql_set_def ql_locate_None)
next
  assume "idx < ql_len q"
  then obtain ci j where l: "ql_locate q idx = Some (ci, j)" "ci < length (ql_chunks q)"
    "j < chunk_len (ql_chunks q ! ci)" "idx = length (chunks_abs (take ci (ql_chunks q))) + j"
    using ql_locate_abs [OF wf] by metis
  let ?c = "ql_chunks q ! ci" and ?items = "(chunk_abs (ql_chunks q ! ci))[j := v]"
  have c: "chunk_wf ?c" using wf l(2) by (simp add: ql_wf_def)
  have "length (concat ?items) < 2 ^ 32"
    using length_concat_list_update_le [of j "chunk_abs ?c" v] ql_bytes_chunk_le [OF l(2)] b l(3) by simp
  from ql_rewrite_chunk_wf [OF wf l(2) this] obtain q' where
    q': "ql_rewrite_chunk q ci ?items = Some q'" "ql_wf q'"
      "ql_abs q' = chunks_abs (take ci (ql_chunks q)) @ ?items @ chunks_abs (drop (Suc ci) (ql_chunks q))"
      "ql_inv q \<and> (length ?items = 1 \<longrightarrow> length (concat ?items) \<le> CHUNK_BYTES) \<longrightarrow> ql_inv q'"
    by blast
  have "length (concat (xs[0 := v])) = length v" if "length xs = Suc 0" for xs :: "bytes list"
    using that by (auto simp: length_Suc_conv)
  note sing = this [of "chunk_abs ?c"]
  have "ql_abs q' = (ql_abs q)[idx := v]"
    using q'(3) ql_abs_split [OF l(2)] l(3,4) by (simp add: list_update_append)
  moreover have "length ?items = 1 \<longrightarrow> length (concat ?items) \<le> length v"
    using l(3) sing by auto
  ultimately show "\<exists>q'. ql_set q idx v = Some (True, q') \<and> ql_wf q'
       \<and> ql_abs q' = (ql_abs q)[idx := v] \<and> (ql_inv q \<and> length v \<le> CHUNK_BYTES \<longrightarrow> ql_inv q')"
    using l q' chunk_items_abs [OF c] by (auto simp: ql_set_def panic_simps)
qed

lemma ql_insert_abs:
  assumes wf: "ql_wf q" and b: "ql_bytes q + length v < 2 ^ 32" "ql_elem_ok v"
  shows "\<exists>q'. ql_insert q idx v = Some q' \<and> ql_wf q'
       \<and> ql_abs q' = take idx (ql_abs q) @ v # drop idx (ql_abs q) \<and> (ql_inv q \<longrightarrow> ql_inv q')"
proof -
  consider "idx = 0" | "idx \<noteq> 0" "ql_len q \<le> idx" | "idx \<noteq> 0" "idx < ql_len q" by linarith
  then show ?thesis
  proof cases
    case 1
    then show ?thesis using ql_push_front_wf [OF wf b(2)] by (auto simp: ql_insert_def)
  next
    case 2
    then show ?thesis using ql_push_back_wf [OF wf b(2)] ql_len_abs [OF wf] by (auto simp: ql_insert_def)
  next
    case 3
    then obtain ci j where l: "ql_locate q idx = Some (ci, j)" "ci < length (ql_chunks q)"
      "j < chunk_len (ql_chunks q ! ci)" "idx = length (chunks_abs (take ci (ql_chunks q))) + j"
      using ql_locate_abs [OF wf] by metis
    let ?c = "ql_chunks q ! ci"
    let ?items = "take j (chunk_abs ?c) @ v # drop j (chunk_abs ?c)"
    have c: "chunk_wf ?c" using wf l(2) by (simp add: ql_wf_def)
    have "length (concat ?items) = length (concat (chunk_abs ?c)) + length v"
      using length_concat_split [of j "chunk_abs ?c"] by simp
    then have "length (concat ?items) < 2 ^ 32" using ql_bytes_chunk_le [OF l(2)] b(1) by simp
    from ql_rewrite_chunk_wf [OF wf l(2) this] obtain q' where
      q': "ql_rewrite_chunk q ci ?items = Some q'" "ql_wf q'"
        "ql_abs q' = chunks_abs (take ci (ql_chunks q)) @ ?items @ chunks_abs (drop (Suc ci) (ql_chunks q))"
        "ql_inv q \<and> (length ?items = 1 \<longrightarrow> length (concat ?items) \<le> CHUNK_BYTES) \<longrightarrow> ql_inv q'"
      by blast
    have "ql_abs q' = take idx (ql_abs q) @ v # drop idx (ql_abs q)"
      using q'(3) ql_abs_split [OF l(2)] l(3,4) by simp
    moreover have "length ?items \<noteq> 1" using l(3) by simp
    ultimately show ?thesis
      using 3 l q' chunk_items_abs [OF c] by (auto simp: ql_insert_def panic_simps)
  qed
qed

subsection \<open>Removing matches\<close>

lemma rm_fwd_spec:
  "i \<le> length items \<Longrightarrow> rm_fwd v limit i items removed k =
    (take i items @ drop_matches v (limit - removed) (drop i items),
     removed + min (limit - removed) (count_list (drop i items) v),
     k + min (limit - removed) (count_list (drop i items) v))"
proof (induction v limit i items removed k rule: rm_fwd.induct)
  case (1 v limit i items removed k)
  show ?case
  proof (cases "i < length items \<and> removed < limit")
    case False
    then show ?thesis using 1(3) by (subst rm_fwd.simps) auto
  next
    case True
    then have d: "drop i items = items ! i # drop (Suc i) items" by (simp add: Cons_nth_drop_Suc)
    have t: "take (Suc i) items = take i items @ [items ! i]" using True by (simp add: take_Suc_conv_app_nth)
    have m: "min (limit - removed) (Suc c) = Suc (min (limit - Suc removed) c)" for c
      using True by (auto simp: min_def)
    show ?thesis
    proof (cases "items ! i = v")
      case eq: True
      show ?thesis
        using 1(1) [OF True eq] True eq d m by (subst rm_fwd.simps) auto
    next
      case False
      show ?thesis
        using 1(2) [OF True False] True False d t by (subst rm_fwd.simps) simp
    qed
  qed
qed

lemma rm_bwd_spec:
  "i \<le> length items \<Longrightarrow> rm_bwd v limit i items removed k =
    (rev (drop_matches v (limit - removed) (rev (take i items))) @ drop i items,
     removed + min (limit - removed) (count_list (take i items) v),
     k + min (limit - removed) (count_list (take i items) v))"
proof (induction v limit i items removed k rule: rm_bwd.induct)
  case (2 v limit i items removed k)
  have t: "take (Suc i) items = take i items @ [items ! i]" using 2(3) by (simp add: take_Suc_conv_app_nth)
  have d: "drop i items = items ! i # drop (Suc i) items" using 2(3) by (simp add: Cons_nth_drop_Suc)
  show ?case
  proof (cases "removed < limit")
    case False
    then show ?thesis by simp
  next
    case lt: True
    show ?thesis
    proof (cases "items ! i = v")
      case True
      with lt 2 show ?thesis by (auto simp: t min_def count_list_append)
    next
      case False
      with lt 2 show ?thesis by (auto simp: t d min_def count_list_append)
    qed
  qed
qed simp

lemma segs_concat:
  "sorted os \<Longrightarrow> os \<noteq> [] \<Longrightarrow> last os = length d \<Longrightarrow> concat (segs d os) = drop (hd os) d"
proof (induction d os rule: segs.induct)
  case (1 d a b os)
  then have "concat (segs d (b # os)) = drop b d" "a \<le> b" by auto
  then show ?case by (metis append_take_drop_id concat.simps(2) drop_drop le_add_diff_inverse2 list.sel(1) segs.simps(1))
qed auto

lemma chunk_bytes_bound: "chunk_wf c \<Longrightarrow> length (concat (chunk_abs c)) < 2 ^ 32"
  using segs_concat [of "drop (ch_head c) (ch_offs c)" "ch_data c"]
  by (auto simp: chunk_wf_def chunk_abs_def)

lemma seqdrop_0 [simp]: "seqdrop fb v 0 xss = xss"
  by (induction xss) auto

lemma seqdrop_fwd: "concat (seqdrop False v n xss) = drop_end False v n (concat xss)"
  by (induction xss arbitrary: n) (auto simp: drop_end_def drop_matches_append)

lemma seqdrop_bwd: "concat (rev (seqdrop True v n xss)) = drop_end True v n (concat (rev xss))"
  by (induction xss arbitrary: n) (auto simp: drop_end_def drop_matches_append)

lemma nths_all_ge: "\<forall>i\<in>A. i < d \<Longrightarrow> nths xs {j. j + d \<notin> A} = xs"
proof -
  assume "\<forall>i\<in>A. i < d"
  then have "{j. j + d \<notin> A} = UNIV" by auto
  then show ?thesis by (simp add: nths_all)
qed

lemma remove_index_foldl:
  "sorted ds \<Longrightarrow> distinct ds \<Longrightarrow> \<forall>d\<in>set ds. d < length cs \<Longrightarrow>
   foldl (\<lambda>cs ci. remove_index ci cs) cs (rev ds) = nths cs {i. i \<notin> set ds}"
proof (induction ds arbitrary: cs rule: rev_induct)
  case (snoc d ds)
  then have lt: "\<forall>i\<in>set ds. i < d" by (auto simp: sorted_append order.strict_iff_order)
  have d: "d < length cs" using snoc.prems by simp
  then have cs: "cs = take d cs @ cs ! d # drop (Suc d) cs" by (simp add: id_take_nth_drop)
  have "foldl (\<lambda>cs ci. remove_index ci cs) (remove_index d cs) (rev ds) = nths (remove_index d cs) {i. i \<notin> set ds}"
    using snoc.prems lt d by (intro snoc.IH) (auto simp: sorted_append remove_index_def)
  also have "\<dots> = nths (take d cs) {i. i \<notin> set ds} @ drop (Suc d) cs"
    using d lt by (simp add: remove_index_def nths_append nths_all_ge)
  also have "nths (take d cs) {i. i \<notin> set ds} = nths (take d cs) {i. i \<notin> set (ds @ [d])}"
    using d by (auto simp: nths_def intro!: arg_cong [where f = "map fst"] filter_cong dest!: set_zip_rightD)
  also have "nths (take d cs) {i. i \<notin> set (ds @ [d])} @ drop (Suc d) cs = nths cs {i. i \<notin> set (ds @ [d])}"
  proof -
    have "{j. Suc j + d \<notin> set (ds @ [d])} = UNIV" using lt by auto
    then show ?thesis using d lt by (subst (3) cs) (simp add: nths_append nths_Cons nths_all)
  qed
  finally show ?case by simp
qed (simp add: nths_all)

lemma chunks_abs_nths:
  "chunks_abs (nths cs {i. i \<notin> set dead}) = concat (map (after dead cs) [0..<length cs])"
proof (induction cs rule: rev_induct)
  case (snoc c cs)
  have m: "map (after dead (cs @ [c])) [0..<length cs] = map (after dead cs) [0..<length cs]"
    by (intro map_cong) (auto simp: nth_append)
  show ?case using snoc by (simp add: nths_append m del: map_eq_conv)
qed simp

lemma rm_chunk:
  "(if from_back then rm_bwd v limit (length items) items removed 0 else rm_fwd v limit 0 items removed 0)
   = (drop_end from_back v (limit - removed) items, removed + min (limit - removed) (count_list items v),
      min (limit - removed) (count_list items v))"
  by (simp add: rm_bwd_spec rm_fwd_spec drop_end_def)

lemma ql_remove_step:
  fixes v :: bytes
  assumes c: "chunk_wf (ql_chunks q ! ci)" "ci < length (ql_chunks q)" and lim: "removed < limit"
    and "ci \<notin> set dead"
  defines "xs \<equiv> chunk_abs (ql_chunks q ! ci)"
  defines "k \<equiv> min (limit - removed) (count_list xs v)"
  shows "\<exists>q1 dead1. ql_remove_loop v limit fb (ci # order) q removed dead
       = ql_remove_loop v limit fb order q1 (removed + k) dead1
    \<and> (dead1 = dead \<and> (\<exists>c'. ql_chunks q1 = (ql_chunks q)[ci := c'] \<and> chunk_wf c'
          \<and> chunk_abs c' = drop_end fb v (limit - removed) xs
          \<and> (0 < chunk_len (ql_chunks q ! ci) \<longrightarrow> 0 < chunk_len c'))
       \<or> dead1 = dead @ [ci] \<and> ql_chunks q1 = ql_chunks q \<and> drop_end fb v (limit - removed) xs = [])
    \<and> ql_len q1 = ql_len q - k"
proof -
  let ?ys = "drop_end fb v (limit - removed) xs"
  consider "v \<notin> set xs" | "v \<in> set xs" "?ys = []" | "v \<in> set xs" "?ys \<noteq> []" by blast
  then show ?thesis
  proof cases
    case 1
    then have "k = 0" by (simp add: k_def count_list_0_iff)
    with 1 show ?thesis
      using chunk_items_abs [OF c(1)] c lim
      by (intro exI [of _ q] exI [of _ dead]) (auto simp: panic_simps xs_def [symmetric] drop_end_notin intro!: exI [of _ "ql_chunks q ! ci"])
  next
    case 2
    then show ?thesis
      using chunk_items_abs [OF c(1)] c lim
      by (intro exI [of _ "q\<lparr>ql_len := ql_len q - k\<rparr>"] exI [of _ "dead @ [ci]"])
        (simp add: panic_simps rm_chunk xs_def [symmetric] k_def [symmetric])
  next
    case 3
    have "length (concat ?ys) < 2 ^ 32"
      using length_concat_drop_end [of fb v "limit - removed" xs] chunk_bytes_bound [OF c(1)] by (simp add: xs_def)
    note w = chunk_from_iter_wf [OF this]
    from 3 show ?thesis
      using chunk_items_abs [OF c(1)] c lim w
      by (intro exI [of _ "q\<lparr>ql_len := ql_len q - k, ql_chunks := (ql_chunks q)[ci := chunk_from_iter ?ys]\<rparr>"] exI [of _ dead])
        (auto simp: panic_simps rm_chunk xs_def [symmetric] k_def [symmetric])
  qed
qed

lemma ql_remove_loop_spec:
  assumes "distinct order" "\<forall>i\<in>set order. i < length (ql_chunks q)" "set order \<inter> set dead = {}" "distinct dead"
    "\<forall>c\<in>set (ql_chunks q). chunk_wf c"
  shows "\<exists>q' dead'. ql_remove_loop v limit fb order q removed dead = Some (q', removed
         + min (limit - removed) (count_list (concat (map (\<lambda>i. chunk_abs (ql_chunks q ! i)) order)) v), dead')
    \<and> length (ql_chunks q') = length (ql_chunks q) \<and> (\<forall>c\<in>set (ql_chunks q'). chunk_wf c)
    \<and> distinct dead' \<and> set dead \<subseteq> set dead' \<and> set dead' \<subseteq> set dead \<union> set order
    \<and> (\<forall>i. i \<notin> set order \<longrightarrow> ql_chunks q' ! i = ql_chunks q ! i)
    \<and> map (after dead' (ql_chunks q')) order
        = seqdrop fb v (limit - removed) (map (\<lambda>i. chunk_abs (ql_chunks q ! i)) order)
    \<and> (\<forall>i\<in>set order. i \<notin> set dead' \<longrightarrow> 0 < chunk_len (ql_chunks q ! i) \<longrightarrow> 0 < chunk_len (ql_chunks q' ! i))
    \<and> ql_len q' = ql_len q
         - min (limit - removed) (count_list (concat (map (\<lambda>i. chunk_abs (ql_chunks q ! i)) order)) v)"
  using assms
proof (induction order arbitrary: q removed dead)
  case Nil
  then show ?case by simp
next
  case (Cons ci order)
  let ?xs = "chunk_abs (ql_chunks q ! ci)"
  have c: "chunk_wf (ql_chunks q ! ci)" "ci < length (ql_chunks q)" "ci \<notin> set dead" using Cons.prems by auto
  show ?case
  proof (cases "limit \<le> removed")
    case True
    then show ?thesis using Cons.prems by auto
  next
    case False
    then have lim: "removed < limit" by simp
    let ?k = "min (limit - removed) (count_list ?xs v)"
    obtain q1 dead1 where s: "ql_remove_loop v limit fb (ci # order) q removed dead
          = ql_remove_loop v limit fb order q1 (removed + ?k) dead1" "ql_len q1 = ql_len q - ?k"
      "dead1 = dead \<and> (\<exists>c'. ql_chunks q1 = (ql_chunks q)[ci := c'] \<and> chunk_wf c'
          \<and> chunk_abs c' = drop_end fb v (limit - removed) ?xs
          \<and> (0 < chunk_len (ql_chunks q ! ci) \<longrightarrow> 0 < chunk_len c'))
       \<or> dead1 = dead @ [ci] \<and> ql_chunks q1 = ql_chunks q \<and> drop_end fb v (limit - removed) ?xs = []"
      using ql_remove_step [OF c(1,2) lim c(3), of v fb order] by (elim exE conjE) (rule that)
    have same: "\<forall>i. i \<noteq> ci \<longrightarrow> ql_chunks q1 ! i = ql_chunks q ! i" "length (ql_chunks q1) = length (ql_chunks q)"
      "set dead \<subseteq> set dead1" "set dead1 \<subseteq> insert ci (set dead)" "distinct dead1" "set order \<inter> set dead1 = {}"
      using s(3) Cons.prems(1,3,4) c(3) by auto
    have wf1: "\<forall>c\<in>set (ql_chunks q1). chunk_wf c"
      using s(3) Cons.prems(5) ball_list_update [of "ql_chunks q" chunk_wf] by metis
    have ci: "after dead1 (ql_chunks q1) ci = drop_end fb v (limit - removed) ?xs"
      "ci \<notin> set dead1 \<longrightarrow> 0 < chunk_len (ql_chunks q ! ci) \<longrightarrow> 0 < chunk_len (ql_chunks q1 ! ci)"
      using s(3) c by auto
    have m: "map (\<lambda>i. chunk_abs (ql_chunks q1 ! i)) order = map (\<lambda>i. chunk_abs (ql_chunks q ! i)) order"
      using same(1) Cons.prems(1) by auto
    have cio: "ci \<notin> set order" using Cons.prems(1) by simp
    let ?n = "count_list (concat (map (\<lambda>i. chunk_abs (ql_chunks q ! i)) order)) v"
    have "distinct order" "\<forall>i\<in>set order. i < length (ql_chunks q1)" using Cons.prems(1,2) same(2) by auto
    from Cons.IH [OF this same(6,5) wf1, of "removed + ?k", unfolded m] obtain q' dead' where
      q': "ql_remove_loop v limit fb order q1 (removed + ?k) dead1
           = Some (q', removed + ?k + min (limit - (removed + ?k)) ?n, dead')"
      "length (ql_chunks q') = length (ql_chunks q1)" "\<forall>c\<in>set (ql_chunks q'). chunk_wf c"
      "distinct dead'" "set dead1 \<subseteq> set dead'" "set dead' \<subseteq> set dead1 \<union> set order"
      "\<forall>i. i \<notin> set order \<longrightarrow> ql_chunks q' ! i = ql_chunks q1 ! i"
      "map (after dead' (ql_chunks q')) order
        = seqdrop fb v (limit - (removed + ?k)) (map (\<lambda>i. chunk_abs (ql_chunks q ! i)) order)"
      "\<forall>i\<in>set order. i \<notin> set dead' \<longrightarrow> 0 < chunk_len (ql_chunks q1 ! i) \<longrightarrow> 0 < chunk_len (ql_chunks q' ! i)"
      "ql_len q' = ql_len q1 - min (limit - (removed + ?k)) ?n"
      by blast
    have n: "?k + min (limit - (removed + ?k)) ?n = min (limit - removed) (count_list ?xs v + ?n)"
      "limit - (removed + ?k) = limit - removed - count_list ?xs v" by auto
    have dci: "ci \<in> set dead' \<longleftrightarrow> ci \<in> set dead1" using q'(5,6) cio by auto
    have a: "after dead' (ql_chunks q') ci = drop_end fb v (limit - removed) ?xs"
      using ci(1) dci q'(7) cio by (simp split: if_splits)
    show ?thesis
    proof (intro exI [of _ q'] exI [of _ dead'] conjI)
      show "map (after dead' (ql_chunks q')) (ci # order)
        = seqdrop fb v (limit - removed) (map (\<lambda>i. chunk_abs (ql_chunks q ! i)) (ci # order))"
        using q'(8) a n(2) by (simp only: list.map seqdrop.simps)
      show "\<forall>i\<in>set (ci # order). i \<notin> set dead' \<longrightarrow> 0 < chunk_len (ql_chunks q ! i) \<longrightarrow> 0 < chunk_len (ql_chunks q' ! i)"
        using q'(7,9) ci(2) dci same(1) cio by (metis set_ConsD)
      show "set dead \<subseteq> set dead'" "set dead' \<subseteq> set dead \<union> set (ci # order)"
        using q'(5,6) same(3,4) by auto
      show "\<forall>i. i \<notin> set (ci # order) \<longrightarrow> ql_chunks q' ! i = ql_chunks q ! i"
        using q'(7) same(1) by simp
      show "ql_remove_loop v limit fb (ci # order) q removed dead = Some (q', removed
         + min (limit - removed) (count_list (concat (map (\<lambda>i. chunk_abs (ql_chunks q ! i)) (ci # order))) v), dead')"
        using q'(1) s(1) n(1) by (simp add: count_list_append)
      show "ql_len q' = ql_len q
         - min (limit - removed) (count_list (concat (map (\<lambda>i. chunk_abs (ql_chunks q ! i)) (ci # order))) v)"
        using q'(10) s(2) n(1) by (simp add: count_list_append)
    qed (use q'(2,3,4) same(2) in simp_all)
  qed
qed

lemma ql_remove_matching_abs:
  assumes "ql_wf q"
  shows "\<exists>q'. ql_remove_matching q v limit fb = Some (min limit (count_list (ql_abs q) v), q') \<and> ql_wf q'
    \<and> ql_abs q' = drop_end fb v limit (ql_abs q) \<and> (ql_inv q \<longrightarrow> ql_inv q')"
proof -
  let ?n = "length (ql_chunks q)"
  let ?order = "if fb then rev [0..<?n] else [0..<?n]"
  have m: "map (\<lambda>i. chunk_abs (ql_chunks q ! i)) [0..<?n] = map chunk_abs (ql_chunks q)"
    by (intro nth_equalityI) auto
  have cnt: "count_list (concat (map (\<lambda>i. chunk_abs (ql_chunks q ! i)) ?order)) v = count_list (ql_abs q) v"
  proof -
    have "count_list (concat (rev xss)) v = count_list (concat xss) v" for xss :: "bytes list list"
      by (induction xss) (auto simp: count_list_append)
    then show ?thesis using m by (simp add: rev_map [symmetric] ql_abs_def)
  qed
  have "distinct ?order" "\<forall>i\<in>set ?order. i < ?n" "set ?order \<inter> set [] = {}" "distinct ([] :: nat list)"
    "\<forall>c\<in>set (ql_chunks q). chunk_wf c" using assms by (auto simp: ql_wf_def)
  from ql_remove_loop_spec [OF this, of v limit fb 0, unfolded cnt diff_zero add_0] obtain q' dead where
    q': "ql_remove_loop v limit fb ?order q 0 [] = Some (q', min limit (count_list (ql_abs q) v), dead)"
    "length (ql_chunks q') = ?n" "\<forall>c\<in>set (ql_chunks q'). chunk_wf c" "distinct dead" "set dead \<subseteq> set [] \<union> set ?order"
    "map (after dead (ql_chunks q')) ?order = seqdrop fb v limit (map (\<lambda>i. chunk_abs (ql_chunks q ! i)) ?order)"
    "\<forall>i\<in>set ?order. i \<notin> set dead \<longrightarrow> 0 < chunk_len (ql_chunks q ! i) \<longrightarrow> 0 < chunk_len (ql_chunks q' ! i)"
    "ql_len q' = ql_len q - min limit (count_list (ql_abs q) v)"
    by (elim exE conjE) (rule that)
  let ?cs = "nths (ql_chunks q') {i. i \<notin> set dead}"
  have f: "foldl (\<lambda>cs ci. remove_index ci cs) (ql_chunks q') (rev (sort dead)) = ?cs"
    using remove_index_foldl [of "sort dead" "ql_chunks q'"] q'(2,4,5) by (auto simp: subset_iff split: if_splits)
  have "concat (map (after dead (ql_chunks q')) [0..<?n]) = drop_end fb v limit (ql_abs q)"
  proof (cases fb)
    case True
    then have "map (after dead (ql_chunks q')) [0..<?n] = rev (seqdrop True v limit (rev (map chunk_abs (ql_chunks q))))"
      using q'(6) m by (simp only: if_True rev_map [symmetric] rev_swap rev_rev_ident)
    then show ?thesis using True by (simp only: seqdrop_bwd rev_rev_ident ql_abs_def)
  next
    case False
    then show ?thesis using q'(6) m by (simp only: if_False seqdrop_fwd ql_abs_def)
  qed
  then have a: "chunks_abs ?cs = drop_end fb v limit (ql_abs q)"
    using chunks_abs_nths [of "ql_chunks q'" dead] q'(2) by simp
  have "\<forall>c\<in>set ?cs. 0 < chunk_len c" if "ql_inv q"
    using that q'(2,7) by (fastforce simp: set_nths ql_inv_def split: if_splits)
  moreover have "\<forall>c\<in>set ?cs. chunk_wf c" using q'(3) by (auto dest: in_set_nthsD)
  moreover have "ql_remove_matching q v limit fb
      = Some (min limit (count_list (ql_abs q) v), q'\<lparr>ql_chunks := ?cs\<rparr>)"
    using q'(1) f by (simp add: ql_remove_matching_def Let_def)
  moreover have "ql_len q' = length (chunks_abs ?cs)"
    using a q'(8) ql_len_abs [OF assms] by (simp add: length_drop_end)
  ultimately show ?thesis
    using a by (intro exI [of _ "q'\<lparr>ql_chunks := ?cs\<rparr>"]) (simp add: ql_wf_def ql_inv_def ql_abs_def)
qed

subsection \<open>Trimming\<close>

lemma pop_front_n_wf:
  "chunk_wf c \<Longrightarrow> n \<le> chunk_len c \<Longrightarrow>
   \<exists>c'. pop_front_n n c = Some c' \<and> chunk_wf c' \<and> chunk_abs c' = drop n (chunk_abs c)"
proof (induction n arbitrary: c)
  case (Suc n)
  then obtain c1 where c1: "chunk_pop_front_with (\<lambda>_. ()) c = Some ((), c1)" "chunk_wf c1"
    "chunk_abs c1 = tl (chunk_abs c)"
    using chunk_pop_front_with_wf [of c "\<lambda>_. ()"] by auto
  have "n \<le> chunk_len c1" using chunk_len_chunk_abs_eq [OF c1(3)] Suc.prems by simp
  from Suc.IH [OF c1(2) this] c1 show ?case by (auto simp: drop_Suc)
qed auto

lemma pop_back_n_wf:
  "chunk_wf c \<Longrightarrow> n \<le> chunk_len c \<Longrightarrow>
   \<exists>c'. pop_back_n n c = Some c' \<and> chunk_wf c' \<and> chunk_abs c' = take (chunk_len c - n) (chunk_abs c)"
proof (induction n arbitrary: c)
  case (Suc n)
  then obtain c1 where c1: "chunk_pop_back_with (\<lambda>_. ()) c = Some ((), c1)" "chunk_wf c1"
    "chunk_abs c1 = butlast (chunk_abs c)"
    using chunk_pop_back_with_wf [of c "\<lambda>_. ()"] by auto
  have l: "chunk_len c1 = chunk_len c - 1" using chunk_len_chunk_abs_eq [OF c1(3)] by simp
  have "butlast (chunk_abs c) = take (chunk_len c - 1) (chunk_abs c)" by (simp add: butlast_conv_take)
  moreover have "min (chunk_len c - Suc n) (chunk_len c - 1) = chunk_len c - Suc n" by simp
  ultimately show ?case using Suc.IH [OF c1(2)] c1 l Suc.prems by (simp add: take_take)
qed auto

lemma trim_front_wf:
  "\<forall>c\<in>set cs. chunk_wf c \<Longrightarrow> len = length (chunks_abs cs) \<Longrightarrow>
   \<exists>cs' n. trim_front cs len skip = Some (cs', n) \<and> (\<forall>c\<in>set cs'. chunk_wf c)
     \<and> chunks_abs cs' = drop skip (chunks_abs cs) \<and> n = length (chunks_abs cs')
     \<and> ((\<forall>c\<in>set cs. 0 < chunk_len c) \<longrightarrow> (\<forall>c\<in>set cs'. 0 < chunk_len c))"
proof (induction cs len skip rule: trim_front.induct)
  case (2 c cs len skip)
  consider "skip = 0" | "skip \<noteq> 0" "chunk_len c \<le> skip" | "skip \<noteq> 0" "skip < chunk_len c" by linarith
  then show ?case
  proof cases
    case 3
    then obtain c' where c': "pop_front_n skip c = Some c'" "chunk_wf c'" "chunk_abs c' = drop skip (chunk_abs c)"
      using pop_front_n_wf [of c skip] 2(2) by auto
    have "chunk_len c' = chunk_len c - skip" using chunk_len_chunk_abs_eq [OF c'(3)] by simp
    with c' 3 2(2,3) show ?thesis by auto
  next
    case 2
    with "2.prems" "2.IH" show ?thesis by fastforce
  qed (use 2 in auto)
qed simp

lemma trim_back_wf:
  "\<forall>c\<in>set cs. chunk_wf c \<Longrightarrow> len = length (chunks_abs (rev cs)) \<Longrightarrow>
   \<exists>cs' n. trim_back cs len keep = Some (cs', n) \<and> (\<forall>c\<in>set cs'. chunk_wf c)
     \<and> chunks_abs (rev cs') = take keep (chunks_abs (rev cs)) \<and> n = length (chunks_abs (rev cs'))
     \<and> ((\<forall>c\<in>set cs. 0 < chunk_len c) \<longrightarrow> (\<forall>c\<in>set cs'. 0 < chunk_len c))"
proof (induction cs len keep rule: trim_back.induct)
  case (2 c cs len keep)
  consider "len \<le> keep" | "keep < len" "chunk_len c \<le> len - keep" | "keep < len" "len - keep < chunk_len c" by linarith
  then show ?case
  proof cases
    case 3
    then obtain c' where c': "pop_back_n (len - keep) c = Some c'" "chunk_wf c'"
       "chunk_abs c' = take (chunk_len c - (len - keep)) (chunk_abs c)"
      using pop_back_n_wf [of c "len - keep"] 2(2) by auto
    have "chunk_len c' = chunk_len c - (len - keep)" using chunk_len_chunk_abs_eq [OF c'(3)] by simp
    with c' 3 2(2,3) show ?thesis by auto
  next
    case b: 2
    with "2.prems" "2.IH" show ?thesis by auto
  qed (use 2 in auto)
qed simp

lemma ql_trim_abs:
  assumes "ql_wf q"
  shows "\<exists>q'. ql_trim q start keep = Some q' \<and> ql_wf q' \<and> ql_abs q' = take keep (drop start (ql_abs q))
    \<and> (ql_inv q \<longrightarrow> ql_inv q')"
proof -
  have p: "\<forall>c\<in>set (ql_chunks q). chunk_wf c" "ql_len q = length (chunks_abs (ql_chunks q))"
    using assms by (simp_all add: ql_wf_def ql_abs_def)
  obtain cs n where f: "trim_front (ql_chunks q) (ql_len q) start = Some (cs, n)" "\<forall>c\<in>set cs. chunk_wf c"
    "chunks_abs cs = drop start (ql_abs q)" "n = length (chunks_abs cs)"
    "(\<forall>c\<in>set (ql_chunks q). 0 < chunk_len c) \<longrightarrow> (\<forall>c\<in>set cs. 0 < chunk_len c)"
    using trim_front_wf [OF p, of start, folded ql_abs_def] by (elim exE conjE) (rule that)
  obtain rcs n' where b: "trim_back (rev cs) n keep = Some (rcs, n')" "\<forall>c\<in>set rcs. chunk_wf c"
    "chunks_abs (rev rcs) = take keep (chunks_abs cs)" "n' = length (chunks_abs (rev rcs))"
    "(\<forall>c\<in>set cs. 0 < chunk_len c) \<longrightarrow> (\<forall>c\<in>set rcs. 0 < chunk_len c)"
    using trim_back_wf [of "rev cs" n keep, unfolded set_rev rev_rev_ident, OF f(2,4)]
    by (elim exE conjE) (rule that)
  have "ql_trim q start keep = Some \<lparr>ql_chunks = rev rcs, ql_len = n'\<rparr>"
    using f(1) b(1) by (simp add: ql_trim_def)
  moreover have "ql_abs \<lparr>ql_chunks = rev rcs, ql_len = n'\<rparr> = take keep (drop start (ql_abs q))"
    using b(3) f(3) by (simp add: ql_abs_def)
  moreover have w: "ql_wf \<lparr>ql_chunks = rev rcs, ql_len = n'\<rparr>"
    using b(2,4) by (simp add: ql_wf_def ql_abs_def)
  moreover have "ql_inv \<lparr>ql_chunks = rev rcs, ql_len = n'\<rparr>" if "ql_inv q"
  proof -
    have "\<forall>c\<in>set (ql_chunks q). 0 < chunk_len c" using that by (simp add: ql_inv_def)
    then have "\<forall>c\<in>set rcs. 0 < chunk_len c" by (rule b(5) [THEN mp, OF f(5) [THEN mp]])
    with w show ?thesis by (simp add: ql_inv_def)
  qed
  ultimately show ?thesis by blast
qed

subsection \<open>Building, clearing\<close>

lemma ql_from_strs_abs:
  assumes "\<forall>s\<in>set items. ql_elem_ok s"
  shows "\<exists>q. ql_from_strs items = Some q \<and> ql_inv q \<and> ql_abs q = items"
  using assms
proof (induction items rule: rev_induct)
  case Nil
  then show ?case by (simp add: ql_from_strs_def)
next
  case (snoc s items)
  then obtain q where q: "ql_from_strs items = Some q" "ql_inv q" "ql_abs q = items" by auto
  with snoc.prems ql_push_back_wf [of q s] show ?case by (auto simp: ql_from_strs_def)
qed

lemma ql_clear_inv [simp]: "ql_inv (ql_clear q)" "ql_abs (ql_clear q) = []"
  by (simp_all add: ql_clear_def ql_inv_def ql_wf_def ql_abs_def)

lemma chunk_from_iter_Nil: "chunk_from_iter [] = chunk_new"
  by (simp add: chunk_from_iter_def)

lemma chunk_pop_new: "chunk_pop_back_with f chunk_new = None"
  by (simp add: chunk_pop_back_with_def chunk_new_def)

lemma ql_set_oversized:
  assumes "ql_wf q" "ql_chunks q = cs @ [c]" "chunk_len c = 1" "CHUNK_BYTES < length v" "length v < 2 ^ 32"
  shows "ql_set q (ql_len q - 1) v
    = Some (True, \<lparr>ql_chunks = cs @ [chunk_new, chunk_from_iter [v]], ql_len = ql_len q\<rparr>)"
proof -
  have c: "chunk_wf c" "0 < ql_len q" using assms(1,2,3) by (auto simp: ql_wf_def ql_abs_def)
  have len: "ql_len q = length (chunks_abs cs) + 1" using assms(1,2,3) by (simp add: ql_wf_def ql_abs_def)
  have l: "ql_locate q (ql_len q - 1) = Some (length cs, 0)"
  proof -
    obtain ci j where l: "ql_locate q (ql_len q - 1) = Some (ci, j)" "ci < length (ql_chunks q)"
      "j < chunk_len (ql_chunks q ! ci)" "ql_len q - 1 = length (chunks_abs (take ci (ql_chunks q))) + j"
      using ql_locate_abs [OF assms(1), of "ql_len q - 1"] c(2) by auto
    have "ci = length cs"
    proof (rule ccontr)
      assume "ci \<noteq> length cs"
      then have lt: "ci < length cs" using l(2) assms(2) by simp
      then have "length (chunks_abs cs) = length (chunks_abs (take ci cs)) + chunk_len (cs ! ci)
          + length (chunks_abs (drop (Suc ci) cs))"
        using concat_nth_split [of ci "map chunk_abs cs"] by (simp add: take_map drop_map)
      moreover have "length (chunks_abs cs) = length (chunks_abs (take ci cs)) + j" "j < chunk_len (cs ! ci)"
        using l(3,4) lt len assms(2) by (simp_all add: nth_append)
      ultimately show False by simp
    qed
    with l assms(2,3) show ?thesis by simp
  qed
  have "chunk_items c = Some (chunk_abs c)" using chunk_items_abs [OF c(1)] by simp
  moreover obtain x where "chunk_abs c = [x]"
    using assms(3) chunk_len_abs [of c] by (metis One_nat_def length_0_conv length_Suc_conv)
  ultimately show ?thesis
    using l assms(2,3,4) len
    by (simp add: ql_set_def panic_simps ql_rewrite_chunk_def chunk_from_iter_Nil)
qed

section \<open>The quicklist implements the list interface\<close>

lemma ql_pop_front_law:
  "ql_inv q \<Longrightarrow> \<exists>q'. ql_pop_front q = Some (if ql_abs q = [] then None else Some (hd (ql_abs q)), q')
     \<and> ql_inv q' \<and> ql_abs q' = tl (ql_abs q)"
  using ql_pop_front_with_inv [of q "\<lambda>s. s"] by (cases "ql_abs q = []") (auto simp: ql_pop_front_def)

lemma ql_pop_back_law:
  "ql_inv q \<Longrightarrow> \<exists>q'. ql_pop_back q = Some (if ql_abs q = [] then None else Some (last (ql_abs q)), q')
     \<and> ql_inv q' \<and> ql_abs q' = butlast (ql_abs q)"
  using ql_pop_back_with_inv [of q "\<lambda>s. s"] by (cases "ql_abs q = []") (auto simp: ql_pop_back_def)

lemma ql_set_law:
  assumes "ql_inv q" "ql_bytes q + length v < 2 ^ 32" "length v \<le> CHUNK_BYTES"
  shows "\<exists>q'. ql_set q i v = Some (i < length (ql_abs q), q') \<and> ql_inv q' \<and> ql_abs q' = (ql_abs q)[i := v]"
proof -
  have wf: "ql_wf q" using assms(1) by simp
  show ?thesis
    using ql_set_abs [OF wf assms(2), of i] assms ql_len_abs [OF wf]
    by (cases "i < ql_len q") (auto simp: list_update_beyond)
qed

interpretation ql: list_adt ql_abs ql_inv ql_elem_ok "\<lambda>q v. ql_bytes q + length v < 2 ^ 32"
  "\<lambda>_ v. length v \<le> CHUNK_BYTES" ql_new ql_len ql_push_back ql_push_front ql_pop_front ql_pop_back
  ql_get ql_iter ql_range ql_set ql_insert ql_remove_matching ql_trim ql_clear
proof (unfold_locales, goal_cases)
  case (3 q s)
  then show ?case using ql_push_back_wf [of q s] by auto
next
  case (4 q s)
  then show ?case using ql_push_front_wf [of q s] by auto
next
  case (11 q v i)
  then show ?case using ql_insert_abs [of q v i] by auto
next
  case (12 q v n fb)
  then show ?case using ql_remove_matching_abs [of q v n fb] by auto
next
  case (13 q i n)
  then show ?case using ql_trim_abs [of q i n] by auto
qed (simp_all add: ql_len_abs ql_get_abs ql_iter_abs ql_range_abs ql_pop_front_law ql_pop_back_law ql_set_law)

section \<open>Properties\<close>

text \<open>
  C22. Removing up to \<^verbatim>\<open>limit\<close> occurrences of a value from either end of a quicklist returns how many
  there were to remove and leaves the other elements in order, and the chunks that became empty are gone.
\<close>

theorem ql_remove_matching_correct:
  assumes "ql_inv q"
  shows "\<exists>q'. ql_remove_matching q v limit from_back = Some (min limit (count_list (ql_abs q) v), q')
    \<and> ql_inv q' \<and> ql_abs q' = drop_end from_back v limit (ql_abs q)
    \<and> ql_len q' = ql_len q - min limit (count_list (ql_abs q) v)"
  using ql.remove_law [OF assms, of v limit from_back] ql.len_law assms by (auto simp: length_drop_end)

theorem ql_remove_matching_correct_witness:
  "\<exists>q'. ql_remove_matching \<lparr>ql_chunks = [chunk_from_iter [[1], [2], [1]]], ql_len = 3\<rparr> [1] 1 True = Some (1, q')
    \<and> ql_abs q' = [[1], [2]]"
proof -
  have "length (concat [[1], [2], [1 :: byte]]) < 2 ^ 32" by simp
  note w = chunk_from_iter_wf [OF this]
  have a: "ql_abs \<lparr>ql_chunks = [chunk_from_iter [[1], [2], [1]]], ql_len = 3\<rparr> = [[1], [2], [1]]"
    using w by (simp add: ql_abs_def)
  have "ql_inv \<lparr>ql_chunks = [chunk_from_iter [[1], [2], [1]]], ql_len = 3\<rparr>"
    using w by (simp add: ql_inv_def ql_wf_def a)
  from ql_remove_matching_correct [OF this, of "[1]" 1 True] show ?thesis
    by (auto simp: a drop_end_def)
qed

text \<open>
  C26. Replacing the only element of the last chunk by one larger than a chunk leaves an empty chunk in
  front of it: the next pop from the back returns the element, and the one after that panics although
  the list is not empty.
\<close>

theorem ql_set_oversized_pop_panics:
  assumes "ql_wf q" "ql_chunks q = cs @ [c]" "chunk_len c = 1" "CHUNK_BYTES < length v" "length v < 2 ^ 32"
  shows "\<exists>q1 q2. ql_set q (ql_len q - 1) v = Some (True, q1) \<and> ql_pop_back q1 = Some (Some v, q2)
    \<and> ql_len q2 = ql_len q - 1 \<and> ql_pop_back q2 = None"
proof -
  have "length (concat [v]) < 2 ^ 32" using assms(5) by simp
  note w = chunk_from_iter_wf [OF this]
  obtain c' where c': "chunk_pop_back_with (\<lambda>s. s) (chunk_from_iter [v]) = Some (v, c')"
    "chunk_abs c' = []"
    using chunk_pop_back_with_wf [OF w(1), of "\<lambda>s. s"] w(2,3) by auto
  then have "chunk_len c' = 0" using chunk_len_abs [of c'] by simp
  with c'(1) show ?thesis
    using ql_set_oversized [OF assms]
    by (simp add: ql_pop_back_def ql_pop_back_with_def chunk_pop_new butlast_append)
qed

theorem ql_set_oversized_pop_panics_witness:
  "\<exists>q1 q2. ql_set \<lparr>ql_chunks = [chunk_from_iter [[1]], chunk_from_iter [[2]]], ql_len = 2\<rparr> 1 (replicate 5000 7)
      = Some (True, q1) \<and> ql_pop_back q1 = Some (Some (replicate 5000 7), q2) \<and> ql_len q2 = 1
      \<and> ql_pop_back q2 = None"
proof -
  let ?q = "\<lparr>ql_chunks = [chunk_from_iter [[1]], chunk_from_iter [[2]]], ql_len = 2\<rparr>"
  have b: "length (concat [[x]]) < 2 ^ 32" for x :: byte by simp
  have "ql_wf ?q" using chunk_from_iter_wf [OF b] by (simp add: ql_wf_def ql_abs_def)
  from ql_set_oversized_pop_panics [OF this, of "[chunk_from_iter [[1]]]" "chunk_from_iter [[2]]" "replicate 5000 7"]
  show ?thesis using chunk_from_iter_wf(3) [OF b] by (simp add: CHUNK_BYTES_def)
qed

end
