(* ===== verification/ListValue.thy ===== *)
theory ListValue
  imports QuickList
begin

text \<open>
  The list value of \<^verbatim>\<open>src/storage/value/list.rs\<close>: up to \<^verbatim>\<open>SMALL_MAX\<close> elements in a deque of small
  strings, beyond that a quicklist, and back to the deque at \<^verbatim>\<open>SMALL_BACK\<close> elements.  An element of
  the deque is the byte string that the small string holds (theory \<^verbatim>\<open>SmallStr\<close> shows that
  \<^verbatim>\<open>SmallStr::new\<close> followed by \<^verbatim>\<open>as_str\<close> or \<^verbatim>\<open>into_string\<close> gives the string back); the capacity
  requests of \<^verbatim>\<open>shrink_to_fit\<close> are not observable and are left out.
\<close>

section \<open>Operations\<close>

definition SMALL_MAX :: nat where "SMALL_MAX = 128"

definition SMALL_BACK :: nat where "SMALL_BACK = 32"

datatype list_value = Small "bytes list" | Packed quicklist

definition lv_new :: list_value where
  "lv_new = Small []"

definition lv_len :: "list_value \<Rightarrow> nat" where
  "lv_len l = (case l of Small v \<Rightarrow> length v | Packed q \<Rightarrow> ql_len q)"

definition lv_is_empty :: "list_value \<Rightarrow> bool" where
  "lv_is_empty l \<longleftrightarrow> lv_len l = 0"

definition lv_grow_check :: "list_value \<Rightarrow> list_value option" where
  "lv_grow_check l =
     (case l of
        Small v \<Rightarrow> if length v > SMALL_MAX then map_option Packed (ql_from_strs v) else Some l
      | Packed q \<Rightarrow> Some l)"

definition lv_shrink_check :: "list_value \<Rightarrow> list_value option" where
  "lv_shrink_check l =
     (case l of
        Packed q \<Rightarrow> if ql_len q \<le> SMALL_BACK then map_option Small (ql_iter q) else Some l
      | Small v \<Rightarrow> Some l)"

definition lv_push_back :: "list_value \<Rightarrow> bytes \<Rightarrow> list_value option" where
  "lv_push_back l s =
     (case l of
        Small v \<Rightarrow> (let v' = v @ [s] in
          if length v' > SMALL_MAX then lv_grow_check (Small v') else Some (Small v'))
      | Packed q \<Rightarrow> map_option Packed (ql_push_back q s))"

definition lv_push_front :: "list_value \<Rightarrow> bytes \<Rightarrow> list_value option" where
  "lv_push_front l s =
     (case l of
        Small v \<Rightarrow> (let v' = s # v in
          if length v' > SMALL_MAX then lv_grow_check (Small v') else Some (Small v'))
      | Packed q \<Rightarrow> map_option Packed (ql_push_front q s))"

definition lv_from_strs :: "bytes list \<Rightarrow> list_value option" where
  "lv_from_strs items = push_all lv_push_back items lv_new"

definition lv_pop_front_with ::
  "(bytes \<Rightarrow> 'r) \<Rightarrow> list_value \<Rightarrow> ('r option \<times> list_value) option" where
  "lv_pop_front_with f l =
     (case l of
        Small [] \<Rightarrow> Some (None, l)
      | Small (s # v) \<Rightarrow> Some (Some (f s), Small v)
      | Packed q \<Rightarrow> do {
          (r, q') \<leftarrow> ql_pop_front_with f q;
          l' \<leftarrow> lv_shrink_check (Packed q');
          Some (r, l') })"

definition lv_pop_back_with ::
  "(bytes \<Rightarrow> 'r) \<Rightarrow> list_value \<Rightarrow> ('r option \<times> list_value) option" where
  "lv_pop_back_with f l =
     (case l of
        Small v \<Rightarrow> if v = [] then Some (None, l) else Some (Some (f (last v)), Small (butlast v))
      | Packed q \<Rightarrow> do {
          (r, q') \<leftarrow> ql_pop_back_with f q;
          l' \<leftarrow> lv_shrink_check (Packed q');
          Some (r, l') })"

definition lv_pop_front :: "list_value \<Rightarrow> (bytes option \<times> list_value) option" where
  "lv_pop_front l =
     (case l of
        Small [] \<Rightarrow> Some (None, l)
      | Small (s # v) \<Rightarrow> Some (Some s, Small v)
      | Packed q \<Rightarrow> lv_pop_front_with (\<lambda>s. s) l)"

definition lv_pop_back :: "list_value \<Rightarrow> (bytes option \<times> list_value) option" where
  "lv_pop_back l =
     (case l of
        Small v \<Rightarrow> if v = [] then Some (None, l) else Some (Some (last v), Small (butlast v))
      | Packed q \<Rightarrow> lv_pop_back_with (\<lambda>s. s) l)"

definition lv_get :: "list_value \<Rightarrow> nat \<Rightarrow> bytes option option" where
  "lv_get l idx =
     (case l of
        Small v \<Rightarrow> Some (if idx < length v then Some (v ! idx) else None)
      | Packed q \<Rightarrow> ql_get q idx)"

definition lv_iter :: "list_value \<Rightarrow> bytes list option" where
  "lv_iter l = (case l of Small v \<Rightarrow> Some v | Packed q \<Rightarrow> ql_iter q)"

definition lv_range :: "list_value \<Rightarrow> nat \<Rightarrow> nat \<Rightarrow> bytes list option" where
  "lv_range l start count =
     (case l of
        Small v \<Rightarrow> (let e = min (min (start + count) usize_max) (length v) in vslice v (min start e) e)
      | Packed q \<Rightarrow> ql_range q start count)"

definition lv_set :: "list_value \<Rightarrow> nat \<Rightarrow> bytes \<Rightarrow> (bool \<times> list_value) option" where
  "lv_set l idx value =
     (case l of
        Small v \<Rightarrow> Some (if idx < length v then (True, Small (v[idx := value])) else (False, l))
      | Packed q \<Rightarrow> do { (r, q') \<leftarrow> ql_set q idx value; Some (r, Packed q') })"

definition lv_insert :: "list_value \<Rightarrow> nat \<Rightarrow> bytes \<Rightarrow> list_value option" where
  "lv_insert l idx value =
     (case l of
        Small v \<Rightarrow> do { v' \<leftarrow> vinsert v (min idx (length v)) value; lv_grow_check (Small v') }
      | Packed q \<Rightarrow> map_option Packed (ql_insert q idx value))"

definition lv_position :: "list_value \<Rightarrow> bytes \<Rightarrow> nat option option" where
  "lv_position l value = map_option (position (\<lambda>v. v = value)) (lv_iter l)"

definition lv_remove_matching ::
  "list_value \<Rightarrow> bytes \<Rightarrow> nat \<Rightarrow> bool \<Rightarrow> (nat \<times> list_value) option" where
  "lv_remove_matching l value limit from_back = do {
     (removed, l') \<leftarrow>
       (case l of
          Small v \<Rightarrow>
            (let (v', removed, _) =
                   (if from_back then rm_bwd value limit (length v) v 0 0
                    else rm_fwd value limit 0 v 0 0)
             in Some (removed, Small v'))
        | Packed q \<Rightarrow> do {
            (removed, q') \<leftarrow> ql_remove_matching q value limit from_back;
            Some (removed, Packed q') });
     l'' \<leftarrow> lv_shrink_check l';
     Some (removed, l'') }"

definition lv_trim :: "list_value \<Rightarrow> nat \<Rightarrow> nat \<Rightarrow> list_value option" where
  "lv_trim l start keep = do {
     l' \<leftarrow>
       (case l of
          Small v \<Rightarrow> Some (Small (take keep (drop (min start (length v)) v)))
        | Packed q \<Rightarrow> map_option Packed (ql_trim q start keep));
     lv_shrink_check l' }"

definition lv_clear :: "list_value \<Rightarrow> list_value" where
  "lv_clear l = lv_new"

section \<open>Abstraction and invariant\<close>

definition lv_abs :: "list_value \<Rightarrow> bytes list" where
  "lv_abs l = (case l of Small v \<Rightarrow> v | Packed q \<Rightarrow> ql_abs q)"

definition lv_inv :: "list_value \<Rightarrow> bool" where
  "lv_inv l \<longleftrightarrow> (\<forall>s\<in>set (lv_abs l). ql_elem_ok s)
     \<and> (case l of Small v \<Rightarrow> length v \<le> SMALL_MAX | Packed q \<Rightarrow> ql_inv q \<and> SMALL_BACK < ql_len q)"

definition lv_room :: "list_value \<Rightarrow> bytes \<Rightarrow> bool" where
  "lv_room l v \<longleftrightarrow> length (concat (lv_abs l)) + length v < 2 ^ 32"

definition lv_slot_ok :: "list_value \<Rightarrow> bytes \<Rightarrow> bool" where
  "lv_slot_ok l v \<longleftrightarrow> (case l of Small _ \<Rightarrow> True | Packed _ \<Rightarrow> length v \<le> CHUNK_BYTES)"

text \<open>
  A client of the container issues a sequence of operations and sees their results.  \<^verbatim>\<open>lv_run\<close> is the
  sequence on the container, \<^verbatim>\<open>spec_run\<close> the same on plain lists; \<^verbatim>\<open>ops_ok\<close> bounds the elements by
  the protocol's 512 MiB and, for the operations that rewrite a chunk in place, the bytes of the list
  by the range of a 32-bit offset and a replacement by the size of a chunk.
\<close>

datatype list_op =
    PushBack bytes | PushFront bytes | PopFront | PopBack | GetAt nat | Range nat nat
  | SetAt nat bytes | InsertAt nat bytes | Position bytes | RemoveMatching bytes nat bool
  | Trim nat nat | Clear | Len

datatype list_out = OUnit | OElem "bytes option" | OBool bool | ONat nat | OPos "nat option" | OList "bytes list"

fun lv_step :: "list_op \<Rightarrow> list_value \<Rightarrow> (list_out \<times> list_value) option" where
  "lv_step (PushBack s) l = map_option (Pair OUnit) (lv_push_back l s)"
| "lv_step (PushFront s) l = map_option (Pair OUnit) (lv_push_front l s)"
| "lv_step PopFront l = map_option (\<lambda>(r, l'). (OElem r, l')) (lv_pop_front l)"
| "lv_step PopBack l = map_option (\<lambda>(r, l'). (OElem r, l')) (lv_pop_back l)"
| "lv_step (GetAt i) l = map_option (\<lambda>r. (OElem r, l)) (lv_get l i)"
| "lv_step (Range i n) l = map_option (\<lambda>r. (OList r, l)) (lv_range l i n)"
| "lv_step (SetAt i v) l = map_option (\<lambda>(r, l'). (OBool r, l')) (lv_set l i v)"
| "lv_step (InsertAt i v) l = map_option (Pair OUnit) (lv_insert l i v)"
| "lv_step (Position v) l = map_option (\<lambda>r. (OPos r, l)) (lv_position l v)"
| "lv_step (RemoveMatching v n fb) l = map_option (\<lambda>(r, l'). (ONat r, l')) (lv_remove_matching l v n fb)"
| "lv_step (Trim i n) l = map_option (Pair OUnit) (lv_trim l i n)"
| "lv_step Clear l = Some (OUnit, lv_clear l)"
| "lv_step Len l = Some (ONat (lv_len l), l)"

fun spec_step :: "list_op \<Rightarrow> bytes list \<Rightarrow> list_out \<times> bytes list" where
  "spec_step (PushBack s) xs = (OUnit, xs @ [s])"
| "spec_step (PushFront s) xs = (OUnit, s # xs)"
| "spec_step PopFront xs = (OElem (if xs = [] then None else Some (hd xs)), tl xs)"
| "spec_step PopBack xs = (OElem (if xs = [] then None else Some (last xs)), butlast xs)"
| "spec_step (GetAt i) xs = (OElem (if i < length xs then Some (xs ! i) else None), xs)"
| "spec_step (Range i n) xs = (OList (take n (drop i xs)), xs)"
| "spec_step (SetAt i v) xs = (OBool (i < length xs), xs[i := v])"
| "spec_step (InsertAt i v) xs = (OUnit, take i xs @ v # drop i xs)"
| "spec_step (Position v) xs = (OPos (position (\<lambda>x. x = v) xs), xs)"
| "spec_step (RemoveMatching v n fb) xs = (ONat (min n (count_list xs v)), drop_end fb v n xs)"
| "spec_step (Trim i n) xs = (OUnit, take n (drop i xs))"
| "spec_step Clear xs = (OUnit, [])"
| "spec_step Len xs = (ONat (length xs), xs)"

fun op_ok :: "bytes list \<Rightarrow> list_op \<Rightarrow> bool" where
  "op_ok xs (PushBack s) \<longleftrightarrow> ql_elem_ok s"
| "op_ok xs (PushFront s) \<longleftrightarrow> ql_elem_ok s"
| "op_ok xs (SetAt i v) \<longleftrightarrow> length v \<le> CHUNK_BYTES \<and> length (concat xs) + length v < 2 ^ 32"
| "op_ok xs (InsertAt i v) \<longleftrightarrow> ql_elem_ok v \<and> length (concat xs) + length v < 2 ^ 32"
| "op_ok xs _ \<longleftrightarrow> True"

fun lv_run :: "list_op list \<Rightarrow> list_value \<Rightarrow> (list_out list \<times> list_value) option" where
  "lv_run [] l = Some ([], l)"
| "lv_run (x # xs) l = do { (r, l1) \<leftarrow> lv_step x l; (rs, l2) \<leftarrow> lv_run xs l1; Some (r # rs, l2) }"

fun spec_run :: "list_op list \<Rightarrow> bytes list \<Rightarrow> list_out list \<times> bytes list" where
  "spec_run [] xs = ([], xs)"
| "spec_run (x # ops) xs = (let (r, xs1) = spec_step x xs; (rs, xs2) = spec_run ops xs1 in (r # rs, xs2))"

fun ops_ok :: "bytes list \<Rightarrow> list_op list \<Rightarrow> bool" where
  "ops_ok xs [] \<longleftrightarrow> True"
| "ops_ok xs (x # ops) \<longleftrightarrow> op_ok xs x \<and> ops_ok (snd (spec_step x xs)) ops"

section \<open>Every operation acts on the abstract list\<close>

lemma lv_abs_simps [simp]: "lv_abs (Small v) = v" "lv_abs (Packed q) = ql_abs q"
  by (simp_all add: lv_abs_def)

lemma lv_inv_simps [simp]:
  "lv_inv (Small v) \<longleftrightarrow> (\<forall>s\<in>set v. ql_elem_ok s) \<and> length v \<le> SMALL_MAX"
  "lv_inv (Packed q) \<longleftrightarrow> (\<forall>s\<in>set (ql_abs q). ql_elem_ok s) \<and> ql_inv q \<and> SMALL_BACK < length (ql_abs q)"
  by (auto simp: lv_inv_def ql.len_law)

lemma lv_new_inv: "lv_inv lv_new \<and> lv_abs lv_new = []"
  by (simp add: lv_new_def)

lemma lv_len_abs: "lv_inv l \<Longrightarrow> lv_len l = length (lv_abs l)"
  by (cases l) (auto simp: lv_len_def ql.len_law)

lemma lv_grow_check_abs:
  assumes "\<forall>s\<in>set v. ql_elem_ok s"
  shows "\<exists>l. lv_grow_check (Small v) = Some l \<and> lv_inv l \<and> lv_abs l = v"
proof (cases "length v > SMALL_MAX")
  case True
  with ql_from_strs_abs [OF assms] assms show ?thesis
    by (auto simp: lv_grow_check_def SMALL_MAX_def SMALL_BACK_def)
qed (use assms in \<open>auto simp: lv_grow_check_def\<close>)

lemma lv_shrink_check_abs:
  assumes "ql_inv q" "\<forall>s\<in>set (ql_abs q). ql_elem_ok s"
  shows "\<exists>l. lv_shrink_check (Packed q) = Some l \<and> lv_inv l \<and> lv_abs l = ql_abs q"
  using assms ql.iter_law [OF assms(1)] ql.len_law [OF assms(1)]
  by (cases "ql_len q \<le> SMALL_BACK") (auto simp: lv_shrink_check_def SMALL_MAX_def SMALL_BACK_def)

lemma lv_push_back_abs:
  assumes "lv_inv l" "ql_elem_ok s"
  shows "\<exists>l'. lv_push_back l s = Some l' \<and> lv_inv l' \<and> lv_abs l' = lv_abs l @ [s]"
proof (cases l)
  case (Small v)
  then show ?thesis using assms lv_grow_check_abs [of "v @ [s]"] by (auto simp: lv_push_back_def Let_def)
next
  case (Packed q)
  then show ?thesis using assms ql.push_back_law [of q s] by (auto simp: lv_push_back_def)
qed

lemma lv_push_front_abs:
  assumes "lv_inv l" "ql_elem_ok s"
  shows "\<exists>l'. lv_push_front l s = Some l' \<and> lv_inv l' \<and> lv_abs l' = s # lv_abs l"
proof (cases l)
  case (Small v)
  then show ?thesis using assms lv_grow_check_abs [of "s # v"] by (auto simp: lv_push_front_def Let_def)
next
  case (Packed q)
  then show ?thesis using assms ql.push_front_law [of q s] by (auto simp: lv_push_front_def)
qed

lemma lv_pop_front_with_abs:
  assumes "lv_inv l"
  shows "\<exists>l'. lv_pop_front_with f l = Some (if lv_abs l = [] then None else Some (f (hd (lv_abs l))), l')
     \<and> lv_inv l' \<and> lv_abs l' = tl (lv_abs l)"
proof (cases l)
  case (Small v)
  then show ?thesis using assms by (cases v) (auto simp: lv_pop_front_with_def)
next
  case (Packed q)
  then have ne: "ql_abs q \<noteq> []" using assms by auto
  then obtain q' where q': "ql_pop_front_with f q = Some (Some (f (hd (ql_abs q))), q')" "ql_inv q'"
    "ql_abs q' = tl (ql_abs q)"
    using ql_pop_front_with_inv(2) [of q f] assms Packed by auto
  have "\<forall>s\<in>set (ql_abs q'). ql_elem_ok s" using q'(3) assms Packed ne by (auto dest: list.set_sel(2))
  with lv_shrink_check_abs [OF q'(2)] q' ne Packed show ?thesis by (auto simp: lv_pop_front_with_def)
qed

lemma lv_pop_back_with_abs:
  assumes "lv_inv l"
  shows "\<exists>l'. lv_pop_back_with f l = Some (if lv_abs l = [] then None else Some (f (last (lv_abs l))), l')
     \<and> lv_inv l' \<and> lv_abs l' = butlast (lv_abs l)"
proof (cases l)
  case (Small v)
  then show ?thesis using assms by (auto simp: lv_pop_back_with_def dest: in_set_butlastD)
next
  case (Packed q)
  then have ne: "ql_abs q \<noteq> []" using assms by auto
  then obtain q' where q': "ql_pop_back_with f q = Some (Some (f (last (ql_abs q))), q')" "ql_inv q'"
    "ql_abs q' = butlast (ql_abs q)"
    using ql_pop_back_with_inv(2) [of q f] assms Packed by auto
  have "\<forall>s\<in>set (ql_abs q'). ql_elem_ok s" using q'(3) assms Packed by (auto dest: in_set_butlastD)
  with lv_shrink_check_abs [OF q'(2)] q' ne Packed show ?thesis by (auto simp: lv_pop_back_with_def)
qed

lemma lv_pop_front_eq: "lv_pop_front l = lv_pop_front_with (\<lambda>s. s) l"
  by (auto simp: lv_pop_front_def lv_pop_front_with_def split: list_value.splits list.splits)

lemma lv_pop_back_eq: "lv_pop_back l = lv_pop_back_with (\<lambda>s. s) l"
  by (auto simp: lv_pop_back_def lv_pop_back_with_def split: list_value.splits)

lemma lv_get_abs:
  "lv_inv l \<Longrightarrow> lv_get l i = Some (if i < length (lv_abs l) then Some (lv_abs l ! i) else None)"
  by (cases l) (auto simp: lv_get_def ql.get_law)

lemma lv_iter_abs: "lv_inv l \<Longrightarrow> lv_iter l = Some (lv_abs l)"
  by (cases l) (auto simp: lv_iter_def ql.iter_law)

lemma lv_position_abs: "lv_inv l \<Longrightarrow> lv_position l v = Some (position (\<lambda>x. x = v) (lv_abs l))"
  by (simp add: lv_position_def lv_iter_abs)

lemma lv_range_abs:
  assumes "lv_inv l"
  shows "lv_range l i n = Some (take n (drop i (lv_abs l)))"
proof (cases l)
  case (Small v)
  then have "length v < usize_max" using assms by (simp add: SMALL_MAX_def usize_max_def)
  then have e: "min (min (i + n) usize_max) (length v) = min (i + n) (length v)" by simp
  have "take (min (i + n) (length v) - min i (length v)) (drop (min i (length v)) v) = take n (drop i v)"
    by (cases "i \<le> length v") (auto simp: min_def)
  moreover have "min i (min (i + n) (length v)) = min i (length v)" by simp
  ultimately show ?thesis using Small e by (simp add: lv_range_def vslice_def Let_def)
next
  case (Packed q)
  then show ?thesis using assms by (simp add: lv_range_def ql.range_law)
qed

lemma lv_set_abs:
  assumes "lv_inv l" "lv_room l v" "lv_slot_ok l v" "ql_elem_ok v"
  shows "\<exists>l'. lv_set l i v = Some (i < length (lv_abs l), l') \<and> lv_inv l' \<and> lv_abs l' = (lv_abs l)[i := v]"
proof (cases l)
  case (Small w)
  then show ?thesis using assms ball_list_update [of w ql_elem_ok v]
    by (auto simp: lv_set_def list_update_beyond)
next
  case (Packed q)
  then show ?thesis
    using assms ql.set_law [of q v i] ball_list_update [of "ql_abs q" ql_elem_ok v]
    by (auto simp: lv_set_def lv_room_def lv_slot_ok_def ql_bytes_def)
qed

lemma lv_insert_abs:
  assumes "lv_inv l" "lv_room l v" "ql_elem_ok v"
  shows "\<exists>l'. lv_insert l i v = Some l' \<and> lv_inv l' \<and> lv_abs l' = take i (lv_abs l) @ v # drop i (lv_abs l)"
proof (cases l)
  case (Small w)
  have "take (min i (length w)) w = take i w" "drop (min i (length w)) w = drop i w"
    by (auto simp: min_def)
  then show ?thesis
    using Small assms lv_grow_check_abs [of "take i w @ v # drop i w"]
    by (auto simp: lv_insert_def vinsert_def dest: in_set_takeD in_set_dropD)
next
  case (Packed q)
  obtain q' where q': "ql_insert q i v = Some q'" "ql_inv q'"
    "ql_abs q' = take i (ql_abs q) @ v # drop i (ql_abs q)"
    using ql.insert_law [of q v i] assms Packed by (auto simp: lv_room_def ql_bytes_def)
  have "\<forall>s\<in>set (ql_abs q'). ql_elem_ok s" "length (ql_abs q') = Suc (length (ql_abs q))"
    using q'(3) assms Packed by (auto dest: in_set_takeD in_set_dropD)
  with q' Packed assms show ?thesis by (simp add: lv_insert_def)
qed

lemma lv_remove_matching_abs:
  assumes "lv_inv l"
  shows "\<exists>l'. lv_remove_matching l v n fb = Some (min n (count_list (lv_abs l) v), l')
     \<and> lv_inv l' \<and> lv_abs l' = drop_end fb v n (lv_abs l)"
proof (cases l)
  case (Small w)
  then show ?thesis
    using assms set_drop_end [of fb v n w] rm_chunk [of fb v n w 0]
    by (auto simp: lv_remove_matching_def lv_shrink_check_def length_drop_end)
next
  case (Packed q)
  obtain q' where q': "ql_remove_matching q v n fb = Some (min n (count_list (ql_abs q) v), q')"
    "ql_inv q'" "ql_abs q' = drop_end fb v n (ql_abs q)"
    using ql.remove_law [of q v n fb] assms Packed by auto
  have "\<forall>s\<in>set (ql_abs q'). ql_elem_ok s" using q'(3) assms Packed set_drop_end [of fb v n "ql_abs q"] by auto
  with lv_shrink_check_abs [OF q'(2)] q' Packed show ?thesis by (auto simp: lv_remove_matching_def)
qed

lemma lv_trim_abs:
  assumes "lv_inv l"
  shows "\<exists>l'. lv_trim l i n = Some l' \<and> lv_inv l' \<and> lv_abs l' = take n (drop i (lv_abs l))"
proof (cases l)
  case (Small w)
  then show ?thesis
    using assms
    by (auto simp: lv_trim_def lv_shrink_check_def min_def dest: in_set_takeD in_set_dropD)
next
  case (Packed q)
  obtain q' where q': "ql_trim q i n = Some q'" "ql_inv q'" "ql_abs q' = take n (drop i (ql_abs q))"
    using ql.trim_law [of q i n] assms Packed by auto
  have "\<forall>s\<in>set (ql_abs q'). ql_elem_ok s"
    using q'(3) assms Packed by (auto dest: in_set_takeD in_set_dropD)
  with lv_shrink_check_abs [OF q'(2)] q' Packed show ?thesis by (auto simp: lv_trim_def)
qed

section \<open>The list value implements the list interface\<close>

interpretation lv: list_adt lv_abs lv_inv ql_elem_ok lv_room lv_slot_ok lv_new lv_len lv_push_back
  lv_push_front lv_pop_front lv_pop_back lv_get lv_iter lv_range lv_set lv_insert lv_remove_matching
  lv_trim lv_clear
  by unfold_locales
    (simp_all add: lv_new_inv lv_len_abs lv_push_back_abs lv_push_front_abs lv_pop_front_eq lv_pop_back_eq
      lv_pop_front_with_abs [where f = "\<lambda>s. s"] lv_pop_back_with_abs [where f = "\<lambda>s. s"] lv_get_abs
      lv_iter_abs lv_range_abs lv_set_abs lv_insert_abs lv_remove_matching_abs lv_trim_abs lv_clear_def)

lemma lv_from_strs_abs:
  "\<forall>s\<in>set items. ql_elem_ok s \<Longrightarrow> \<exists>l. lv_from_strs items = Some l \<and> lv_inv l \<and> lv_abs l = items"
  using lv.push_back_all [of lv_new items] lv_new_inv by (simp add: lv_from_strs_def)

lemma lv_step_refines:
  assumes "lv_inv l" "op_ok (lv_abs l) x"
  shows "\<exists>l'. lv_step x l = Some (fst (spec_step x (lv_abs l)), l') \<and> lv_inv l'
    \<and> lv_abs l' = snd (spec_step x (lv_abs l))"
proof (cases x)
  case (SetAt i v)
  have "lv_room l v" "lv_slot_ok l v" "ql_elem_ok v"
    using SetAt assms(2)
    by (auto simp: lv_room_def lv_slot_ok_def ql_elem_ok_def CHUNK_BYTES_def split: list_value.splits)
  then show ?thesis using SetAt lv.set_law [OF assms(1)] by fastforce
next
  case (InsertAt i v)
  then show ?thesis using assms lv.insert_law [OF assms(1), of v i] by (auto simp: lv_room_def)
next
  case (PushBack s)
  then show ?thesis using assms lv.push_back_law [OF assms(1), of s] by auto
next
  case (PushFront s)
  then show ?thesis using assms lv.push_front_law [OF assms(1), of s] by auto
next
  case PopFront
  then show ?thesis using lv.pop_front_law [OF assms(1)] by fastforce
next
  case PopBack
  then show ?thesis using lv.pop_back_law [OF assms(1)] by fastforce
next
  case (RemoveMatching v n fb)
  then show ?thesis using lv.remove_law [OF assms(1), of v n fb] by auto
next
  case (Trim i n)
  then show ?thesis using lv.trim_law [OF assms(1), of i n] by auto
qed (use assms lv.clear_law [OF assms(1)] in
    \<open>simp_all add: lv.get_law lv.range_law lv_position_abs lv.len_law\<close>)

lemma lv_run_spec:
  "lv_inv l \<Longrightarrow> ops_ok (lv_abs l) ops \<Longrightarrow>
   \<exists>l'. lv_run ops l = Some (fst (spec_run ops (lv_abs l)), l') \<and> lv_inv l'
     \<and> lv_abs l' = snd (spec_run ops (lv_abs l))"
proof (induction ops arbitrary: l)
  case (Cons x ops)
  obtain l1 where l1: "lv_step x l = Some (fst (spec_step x (lv_abs l)), l1)" "lv_inv l1"
    "lv_abs l1 = snd (spec_step x (lv_abs l))"
    using lv_step_refines [OF Cons.prems(1), of x] Cons.prems(2) by auto
  have "ops_ok (lv_abs l1) ops" using Cons.prems(2) l1(3) by simp
  from Cons.IH [OF l1(2) this] l1 show ?case by (auto simp: Let_def split: prod.splits)
qed simp

text \<open>
  C4. Within the bounds of \<^verbatim>\<open>ops_ok\<close> the list value implements a plain list: a sequence of pushes, pops,
  reads, replacements, insertions, removals and trims, started on the empty value, runs without a panic,
  gives the same results as on a plain list and ends in a value that holds that list, through every switch
  between the small and the packed representation.  The bounds: an element that is pushed or inserted
  has at most 512 MiB, a replacement at most the 4096 bytes of a chunk, and a list that an insertion
  or a replacement meets has, with the new element, less than 4 GiB.  Beyond the second bound the packed
  list does panic: a larger replacement leaves an empty chunk that a later pop runs into.
\<close>

theorem lv_run_refines:
  assumes "ops_ok [] ops"
  shows "\<exists>l'. lv_run ops lv_new = Some (fst (spec_run ops []), l') \<and> lv_inv l'
    \<and> lv_abs l' = snd (spec_run ops [])"
  using lv_run_spec [of lv_new ops] assms lv_new_inv by simp

theorem lv_run_refines_witness:
  "\<exists>l'. lv_run [PushBack [1], PushFront [2], SetAt 1 [3], RemoveMatching [2] 1 False, PopBack] lv_new
      = Some ([OUnit, OUnit, OBool True, ONat 1, OElem (Some [3])], l') \<and> lv_abs l' = []"
  using lv_run_refines [of "[PushBack [1], PushFront [2], SetAt 1 [3], RemoveMatching [2] 1 False, PopBack]"]
  by (auto simp: ql_elem_ok_def CHUNK_BYTES_def drop_end_def)

end
