(* ===== verification/Resp.thy ===== *)
theory Resp
  imports Prelude
begin

text \<open>
  The reply writers of \<^verbatim>\<open>src/utils/resp.rs\<close> and the integer formatting of
  \<^verbatim>\<open>src/storage/value/mod.rs\<close>.  An output buffer is the allocation of the \<^verbatim>\<open>Vec<u8>\<close>, stale spare
  bytes included, with its length, because the writers fill the spare capacity through raw pointers
  and then move the length.  A write outside the allocation, or an index outside a stack buffer, is
  \<^verbatim>\<open>None\<close>.  Each writer is shown to append exactly the bytes of a reference encoding, whatever the
  spare capacity holds.
\<close>

section \<open>Output buffers\<close>

record outbuf =
  ob_mem :: bytes
  ob_len :: nat

definition ob_ok :: "outbuf \<Rightarrow> bool" where
  "ob_ok out \<longleftrightarrow> ob_len out \<le> length (ob_mem out)"

definition ob_bytes :: "outbuf \<Rightarrow> bytes" where
  "ob_bytes out = take (ob_len out) (ob_mem out)"

definition ob_reserve :: "outbuf \<Rightarrow> nat \<Rightarrow> outbuf" where
  "ob_reserve out n =
     (if length (ob_mem out) - ob_len out < n
      then out\<lparr>ob_mem := ob_mem out @ replicate (n - (length (ob_mem out) - ob_len out)) 0\<rparr> else out)"

definition ob_poke :: "outbuf \<Rightarrow> nat \<Rightarrow> bytes \<Rightarrow> outbuf option" where
  "ob_poke out at bs = map_option (\<lambda>m. out\<lparr>ob_mem := m\<rparr>) (vcopy_at (ob_mem out) at bs)"

definition ob_extend :: "outbuf \<Rightarrow> bytes \<Rightarrow> outbuf option" where
  "ob_extend out bs =
     (let out1 = ob_reserve out (length bs) in do {
      out2 \<leftarrow> ob_poke out1 (ob_len out1) bs;
      Some (out2\<lparr>ob_len := ob_len out2 + length bs\<rparr>) })"

definition ob_push :: "outbuf \<Rightarrow> byte \<Rightarrow> outbuf option" where
  "ob_push out b = ob_extend out [b]"

definition ob_truncate :: "outbuf \<Rightarrow> nat \<Rightarrow> outbuf" where
  "ob_truncate out n = (if n \<le> ob_len out then out\<lparr>ob_len := n\<rparr> else out)"

section \<open>Reference encodings\<close>

definition digit :: "nat \<Rightarrow> byte" where
  "digit d = of_nat (48 + d)"

fun dec :: "nat \<Rightarrow> bytes" where
  "dec n = (if n < 10 then [digit n] else dec (n div 10) @ [digit (n mod 10)])"

declare dec.simps [simp del]

definition idec :: "int \<Rightarrow> bytes" where
  "idec n = (if n < 0 then 45 # dec (nat (- n)) else dec (nat n))"

definition crlf :: bytes where
  "crlf = [13, 10]"

definition resp_bulk :: "bytes \<Rightarrow> bytes" where
  "resp_bulk s = [36] @ dec (length s) @ crlf @ s @ crlf"

definition resp_integer :: "int \<Rightarrow> bytes" where
  "resp_integer n = [58] @ idec n @ crlf"

definition resp_array_header :: "nat \<Rightarrow> bytes" where
  "resp_array_header n = [42] @ dec n @ crlf"

definition resp_nil :: bytes where
  "resp_nil = [36, 45, 49] @ crlf"

definition resp_opt :: "bytes option \<Rightarrow> bytes" where
  "resp_opt v = (case v of Some s \<Rightarrow> resp_bulk s | None \<Rightarrow> resp_nil)"

section \<open>The writers\<close>

definition OK :: bytes where "OK = ascii ''+OK'' @ [13, 10]"

definition NIL :: bytes where "NIL = ascii ''$-1'' @ [13, 10]"

definition ZERO :: bytes where "ZERO = ascii '':0'' @ [13, 10]"

definition ONE :: bytes where "ONE = ascii '':1'' @ [13, 10]"

definition PONG :: bytes where "PONG = ascii ''+PONG'' @ [13, 10]"

definition INT_CACHE :: "bytes list" where
  "INT_CACHE = map (\<lambda>d. ascii '':'' @ ascii d @ [13, 10])
     [''0'', ''1'', ''2'', ''3'', ''4'', ''5'', ''6'', ''7'', ''8'', ''9'']"

definition DIGITS100 :: bytes where
  "DIGITS100 = ascii (''0001020304050607080910111213141516171819''
     @ ''2021222324252627282930313233343536373839''
     @ ''4041424344454647484950515253545556575859''
     @ ''6061626364656667686970717273747576777879''
     @ ''8081828384858687888990919293949596979899'')"

definition write_ok :: "outbuf \<Rightarrow> outbuf option" where
  "write_ok out = ob_extend out OK"

definition write_pong :: "outbuf \<Rightarrow> outbuf option" where
  "write_pong out = ob_extend out PONG"

definition write_nil :: "outbuf \<Rightarrow> outbuf option" where
  "write_nil out = ob_extend out NIL"

text \<open>
  The digit loops fill a stack buffer from the back: \<^verbatim>\<open>while v > 0\<close> in \<^verbatim>\<open>write_usize\<close>, a loop that
  tests after the division in \<^verbatim>\<open>write_i64\<close>, \<^verbatim>\<open>while n >= 10\<close> in \<^verbatim>\<open>write_int_to\<close> and
  \<^verbatim>\<open>SmallStr::from_int\<close>, and two digits at a time in \<^verbatim>\<open>write_integer\<close>.
\<close>

definition put_digit :: "bytes \<Rightarrow> nat \<Rightarrow> byte \<Rightarrow> (bytes \<times> nat) option" where
  "put_digit buf pos b =
     (if pos = 0 then None else map_option (\<lambda>buf'. (buf', pos - 1)) (vset buf (pos - 1) b))"

fun usize_loop :: "nat \<Rightarrow> bytes \<Rightarrow> nat \<Rightarrow> (bytes \<times> nat) option" where
  "usize_loop v buf pos =
     (if v > 0 then do {
        (buf', pos') \<leftarrow> put_digit buf pos (digit (v mod 10));
        usize_loop (v div 10) buf' pos' }
      else Some (buf, pos))"

fun int_loop :: "nat \<Rightarrow> bytes \<Rightarrow> nat \<Rightarrow> (bytes \<times> nat) option" where
  "int_loop m buf i =
     (if m \<ge> 10 then do {
        (buf', i') \<leftarrow> put_digit buf i (digit (m mod 10));
        int_loop (m div 10) buf' i' }
      else put_digit buf i (digit m))"

text \<open>\<^verbatim>\<open>v % 10\<close> and \<^verbatim>\<open>v / 10\<close> round towards zero: on the negative \<^verbatim>\<open>v\<close> here they are
  \<^verbatim>\<open>- ((- v) mod 10)\<close> and \<^verbatim>\<open>- ((- v) div 10)\<close>.\<close>

definition rust_rem :: "int \<Rightarrow> int \<Rightarrow> int" where
  "rust_rem a b = (if a < 0 then - ((- a) mod b) else a mod b)"

definition rust_div :: "int \<Rightarrow> int \<Rightarrow> int" where
  "rust_div a b = (if a < 0 then - ((- a) div b) else a div b)"

function neg_loop :: "int \<Rightarrow> bytes \<Rightarrow> nat \<Rightarrow> (bytes \<times> nat) option" where
  "neg_loop v buf pos = do {
     (buf', pos') \<leftarrow> put_digit buf pos (digit (nat (- rust_rem v 10)));
     (if rust_div v 10 = 0 then Some (buf', pos') else neg_loop (rust_div v 10) buf' pos') }"
  by pat_completeness auto

termination
  by (relation "measure (\<lambda>(v, _, _). nat \<bar>v\<bar>)") (auto simp: rust_div_def split: if_splits)

fun pair_loop :: "nat \<Rightarrow> bytes \<Rightarrow> nat \<Rightarrow> (nat \<times> bytes \<times> nat) option" where
  "pair_loop val digits d_pos =
     (if val \<ge> 100 then
        (let rem = (val mod 100) * 2 in do {
         (if d_pos < 2 then None else Some ());
         a \<leftarrow> vget DIGITS100 rem;
         digits1 \<leftarrow> vset digits (d_pos - 2) a;
         b \<leftarrow> vget DIGITS100 (rem + 1);
         digits2 \<leftarrow> vset digits1 (d_pos - 2 + 1) b;
         pair_loop (val div 100) digits2 (d_pos - 2) })
      else Some (val, digits, d_pos))"

definition pair_last :: "nat \<Rightarrow> bytes \<Rightarrow> nat \<Rightarrow> (bytes \<times> nat) option" where
  "pair_last val digits d_pos =
     (if val < 10 then put_digit digits d_pos (digit val)
      else do {
        (if d_pos < 2 then None else Some ());
        a \<leftarrow> vget DIGITS100 (val * 2);
        digits1 \<leftarrow> vset digits (d_pos - 2) a;
        b \<leftarrow> vget DIGITS100 (val * 2 + 1);
        digits2 \<leftarrow> vset digits1 (d_pos - 2 + 1) b;
        Some (digits2, d_pos - 2) })"

declare usize_loop.simps [simp del] int_loop.simps [simp del] neg_loop.simps [simp del]
  pair_loop.simps [simp del]

definition write_usize :: "outbuf \<Rightarrow> nat \<Rightarrow> outbuf option" where
  "write_usize out n =
     (if n < 10 then ob_push out (digit n)
      else do {
        (buf, pos) \<leftarrow> usize_loop n (replicate 20 0) 20;
        s \<leftarrow> vslice buf pos (length buf);
        ob_extend out s })"

definition write_i64 :: "outbuf \<Rightarrow> int \<Rightarrow> outbuf option" where
  "write_i64 out n =
     (if n \<ge> 0 then write_usize out (nat n)
      else do {
        out1 \<leftarrow> ob_push out 45;
        (buf, pos) \<leftarrow> neg_loop n (replicate 20 0) 20;
        s \<leftarrow> vslice buf pos (length buf);
        ob_extend out1 s })"

definition write_int_to :: "bytes \<Rightarrow> int \<Rightarrow> bytes option" where
  "write_int_to buf n =
     (if n < 0 then do {
        (buf1, i) \<leftarrow> int_loop (nat (- n)) buf (length buf);
        (buf2, i') \<leftarrow> put_digit buf1 i 45;
        vslice buf2 i' (length buf2) }
      else do {
        (buf1, i) \<leftarrow> int_loop (nat n) buf (length buf);
        vslice buf1 i (length buf1) })"

definition write_bulk_bytes :: "outbuf \<Rightarrow> bytes \<Rightarrow> outbuf option" where
  "write_bulk_bytes out s =
     (let len = length s; old_len = ob_len out in
      if len < 10 then
        (let total = 4 + len + 2; out0 = ob_reserve out total in do {
         out1 \<leftarrow> ob_poke out0 old_len [36, 48 + of_nat len, 13, 10];
         out2 \<leftarrow> ob_poke out1 (old_len + 4) s;
         out3 \<leftarrow> ob_poke out2 (old_len + (4 + len)) [13, 10];
         Some (out3\<lparr>ob_len := old_len + total\<rparr>) })
      else if len < 100 then
        (let total = 5 + len + 2; out0 = ob_reserve out total in do {
         out1 \<leftarrow> ob_poke out0 old_len [36];
         out2 \<leftarrow> ob_poke out1 (old_len + 1) [48 + of_nat (len div 10)];
         out3 \<leftarrow> ob_poke out2 (old_len + 2) [48 + of_nat (len mod 10)];
         out4 \<leftarrow> ob_poke out3 (old_len + 3) [13];
         out5 \<leftarrow> ob_poke out4 (old_len + 4) [10];
         out6 \<leftarrow> ob_poke out5 (old_len + 5) s;
         out7 \<leftarrow> ob_poke out6 (old_len + (5 + len)) [13];
         out8 \<leftarrow> ob_poke out7 (old_len + (6 + len)) [10];
         Some (out8\<lparr>ob_len := old_len + total\<rparr>) })
      else do {
        let out0 = ob_reserve out (1 + 10 + 2 + len + 2);
        out1 \<leftarrow> ob_push out0 36;
        out2 \<leftarrow> write_usize out1 len;
        out3 \<leftarrow> ob_extend out2 [13, 10];
        out4 \<leftarrow> ob_extend out3 s;
        ob_extend out4 [13, 10] })"

definition write_bulk :: "outbuf \<Rightarrow> bytes \<Rightarrow> outbuf option" where
  "write_bulk out s = write_bulk_bytes out s"

definition write_integer :: "outbuf \<Rightarrow> int \<Rightarrow> outbuf option" where
  "write_integer out n =
     (if 0 \<le> n \<and> n < 10 then do { c \<leftarrow> vget INT_CACHE (nat n); ob_extend out c }
      else
        (let old_len = ob_len out; out0 = ob_reserve out 32 in do {
         out1 \<leftarrow> ob_poke out0 old_len [58];
         (out2, val, pos) \<leftarrow>
           (if n < 0 then do { o' \<leftarrow> ob_poke out1 (old_len + 1) [45]; Some (o', nat (- n), 2) }
            else Some (out1, nat n, 1));
         (val', digits, d_pos) \<leftarrow> pair_loop val (replicate 20 0) 20;
         (digits', d_pos') \<leftarrow> pair_last val' digits d_pos;
         let d_len = 20 - d_pos';
         ds \<leftarrow> vslice digits' d_pos' (d_pos' + d_len);
         out3 \<leftarrow> ob_poke out2 (old_len + pos) ds;
         out4 \<leftarrow> ob_poke out3 (old_len + (pos + d_len)) [13];
         out5 \<leftarrow> ob_poke out4 (old_len + (pos + d_len + 1)) [10];
         Some (out5\<lparr>ob_len := old_len + (pos + d_len) + 2\<rparr>) }))"

definition write_boolean :: "outbuf \<Rightarrow> bool \<Rightarrow> outbuf option" where
  "write_boolean out b = ob_extend out (if b then ONE else ZERO)"

definition write_opt_bulk :: "outbuf \<Rightarrow> bytes option \<Rightarrow> outbuf option" where
  "write_opt_bulk out v = (case v of Some s \<Rightarrow> write_bulk out s | None \<Rightarrow> write_nil out)"

definition write_array_header :: "outbuf \<Rightarrow> nat \<Rightarrow> outbuf option" where
  "write_array_header out len = do {
     out1 \<leftarrow> ob_push out 42;
     out2 \<leftarrow> write_usize out1 len;
     ob_extend out2 [13, 10] }"

fun write_each :: "(outbuf \<Rightarrow> 'a \<Rightarrow> outbuf option) \<Rightarrow> outbuf \<Rightarrow> 'a list \<Rightarrow> outbuf option" where
  "write_each w out [] = Some out"
| "write_each w out (x # xs) = do { out1 \<leftarrow> w out x; write_each w out1 xs }"

definition write_array :: "outbuf \<Rightarrow> bytes list \<Rightarrow> outbuf option" where
  "write_array out items = do {
     out1 \<leftarrow> write_array_header out (length items);
     write_each write_bulk out1 items }"

definition write_opt_array :: "outbuf \<Rightarrow> bytes option list \<Rightarrow> outbuf option" where
  "write_opt_array out items = do {
     out1 \<leftarrow> write_array_header out (length items);
     write_each (\<lambda>o' item. case item of Some s \<Rightarrow> write_bulk o' s | None \<Rightarrow> write_nil o') out1 items }"

definition write_err :: "outbuf \<Rightarrow> bytes \<Rightarrow> outbuf option" where
  "write_err out msg = do {
     out1 \<leftarrow> ob_extend out (ascii ''-ERR '');
     out2 \<leftarrow> ob_extend out1 msg;
     ob_extend out2 [13, 10] }"

definition write_wrong_type :: "outbuf \<Rightarrow> outbuf option" where
  "write_wrong_type out =
     ob_extend out (ascii ''-WRONGTYPE Operation against a key holding the wrong kind of value'' @ [13, 10])"

definition is_ascii_uppercase :: "byte \<Rightarrow> bool" where
  "is_ascii_uppercase b \<longleftrightarrow> 65 \<le> b \<and> b \<le> 90"

definition write_store_err :: "outbuf \<Rightarrow> bytes \<Rightarrow> outbuf option" where
  "write_store_err out err =
     (if err = ascii ''WRONGTYPE'' then write_wrong_type out
      else (let code = takeWhile (\<lambda>b. b \<noteq> 32) err in
        if length code \<ge> 3 \<and> length err > length code \<and> list_all is_ascii_uppercase code then do {
          out1 \<leftarrow> ob_push out 45;
          out2 \<leftarrow> ob_extend out1 err;
          ob_extend out2 [13, 10] }
        else write_err out err))"

definition write_wrong_args :: "outbuf \<Rightarrow> bytes \<Rightarrow> outbuf option" where
  "write_wrong_args out cmd = do {
     out1 \<leftarrow> ob_extend out (ascii ''-ERR wrong number of arguments for '' @ [39]);
     out2 \<leftarrow> ob_extend out1 cmd;
     ob_extend out2 ([39] @ ascii '' command'' @ [13, 10]) }"

definition write_simple :: "outbuf \<Rightarrow> bytes \<Rightarrow> outbuf option" where
  "write_simple out s = do {
     out1 \<leftarrow> ob_push out 43;
     out2 \<leftarrow> ob_extend out1 s;
     ob_extend out2 [13, 10] }"

definition bulk :: "bytes \<Rightarrow> bytes" where
  "bulk s = ascii ''$'' @ dec (length s) @ [13, 10] @ s @ [13, 10]"

text \<open>A writer emits a byte string when it appends it to every well-formed buffer.\<close>

definition emits :: "(outbuf \<Rightarrow> outbuf option) \<Rightarrow> bytes \<Rightarrow> bool" where
  "emits w bs \<longleftrightarrow> (\<forall>out. ob_ok out \<longrightarrow>
     (\<exists>out'. w out = Some out' \<and> ob_ok out' \<and> ob_bytes out' = ob_bytes out @ bs))"

definition val_digits :: "bytes \<Rightarrow> nat" where
  "val_digits bs = foldl (\<lambda>v b. 10 * v + (unat b - 48)) 0 bs"

section \<open>Decimal digits\<close>

lemma length_dec_pos [simp]: "0 < length (dec n)"
  by (subst dec.simps) simp

lemma dec_less: "n < 10 \<Longrightarrow> dec n = [digit n]"
  by (subst dec.simps) simp

lemma dec_step: "10 \<le> n \<Longrightarrow> dec n = dec (n div 10) @ [digit (n mod 10)]"
  by (subst dec.simps) simp

lemma length_dec: "n < 10 ^ Suc k \<Longrightarrow> length (dec n) \<le> Suc k"
proof (induction k arbitrary: n)
  case 0
  then show ?case by (simp add: dec_less)
next
  case (Suc k)
  show ?case
  proof (cases "n < 10")
    case False
    have "n div 10 < 10 ^ Suc k" using Suc.prems by (auto intro: less_mult_imp_div_less)
    with Suc.IH False show ?thesis by (simp add: dec_step)
  qed (simp add: dec_less)
qed

lemma length_dec_u64: "n < 2 ^ 64 \<Longrightarrow> length (dec n) \<le> 20"
  using length_dec [of n 19] by simp

lemma length_dec_i64: "n \<le> 2 ^ 63 \<Longrightarrow> length (dec n) \<le> 19"
  using length_dec [of n 18] by simp

lemma put_digit_in:
  "0 < pos \<Longrightarrow> pos \<le> length buf \<Longrightarrow>
   put_digit buf pos b = Some (take (pos - 1) buf @ b # drop pos buf, pos - 1)"
  by (simp add: put_digit_def panic_simps upd_conv_take_nth_drop)

lemma usize_loop_dec:
  "0 < v \<Longrightarrow> length (dec v) \<le> pos \<Longrightarrow> pos \<le> length buf \<Longrightarrow>
   usize_loop v buf pos = Some (take (pos - length (dec v)) buf @ dec v @ drop pos buf, pos - length (dec v))"
proof (induction v buf pos rule: usize_loop.induct)
  case (1 v buf pos)
  have pos: "0 < pos" using 1(3) length_dec_pos [of v] by linarith
  let ?buf = "take (pos - 1) buf @ digit (v mod 10) # drop pos buf"
  have p: "put_digit buf pos (digit (v mod 10)) = Some (?buf, pos - 1)" using pos 1(4) by (rule put_digit_in)
  show ?case
  proof (cases "v < 10")
    case True
    then have "v div 10 = 0" "v mod 10 = v" by simp_all
    then show ?thesis using p True 1(2) by (subst usize_loop.simps) (simp add: dec_less usize_loop.simps [of 0])
  next
    case False
    then have d: "dec v = dec (v div 10) @ [digit (v mod 10)]" by (simp add: dec_step)
    have "usize_loop (v div 10) ?buf (pos - 1)
      = Some (take (pos - 1 - length (dec (v div 10))) ?buf @ dec (v div 10) @ drop (pos - 1) ?buf,
              pos - 1 - length (dec (v div 10)))"
      using 1(1) [OF 1(2) p refl] False d 1(3,4) pos by auto
    moreover have "min (pos - Suc (length (dec (v div 10)))) (pos - Suc 0) = pos - Suc (length (dec (v div 10)))"
      "min (length buf) (pos - Suc 0) = pos - Suc 0" using 1(4) by auto
    ultimately show ?thesis using p 1(2,4) d pos by (subst usize_loop.simps) simp
  qed
qed

lemma int_loop_dec:
  "length (dec v) \<le> pos \<Longrightarrow> pos \<le> length buf \<Longrightarrow>
   int_loop v buf pos = Some (take (pos - length (dec v)) buf @ dec v @ drop pos buf, pos - length (dec v))"
proof (induction v buf pos rule: int_loop.induct)
  case (1 v buf pos)
  have pos: "0 < pos" using 1(2) length_dec_pos [of v] by linarith
  let ?buf = "take (pos - 1) buf @ digit (v mod 10) # drop pos buf"
  have p: "put_digit buf pos b = Some (take (pos - 1) buf @ b # drop pos buf, pos - 1)" for b
    using pos 1(3) by (rule put_digit_in)
  show ?case
  proof (cases "v < 10")
    case True
    then show ?thesis using p by (subst int_loop.simps) (simp add: dec_less)
  next
    case False
    then have d: "dec v = dec (v div 10) @ [digit (v mod 10)]" by (simp add: dec_step)
    have "int_loop (v div 10) ?buf (pos - 1)
      = Some (take (pos - 1 - length (dec (v div 10))) ?buf @ dec (v div 10) @ drop (pos - 1) ?buf,
              pos - 1 - length (dec (v div 10)))"
      using 1(1) [OF _ p refl] False d 1(2,3) pos by auto
    moreover have "min (pos - Suc (length (dec (v div 10)))) (pos - Suc 0) = pos - Suc (length (dec (v div 10)))"
      "min (length buf) (pos - Suc 0) = pos - Suc 0" using 1(3) by auto
    ultimately show ?thesis using p False 1(3) d pos by (subst int_loop.simps) simp
  qed
qed

lemma neg_loop_usize: "v < 0 \<Longrightarrow> neg_loop v buf pos = usize_loop (nat (- v)) buf pos"
proof (induction v buf pos rule: neg_loop.induct)
  case (1 v buf pos)
  have r: "nat (- rust_rem v 10) = nat (- v) mod 10" "nat (- rust_div v 10) = nat (- v) div 10"
    using 1(2) by (auto simp: rust_rem_def rust_div_def nat_mod_distrib nat_div_distrib)
  have z: "rust_div v 10 = 0 \<longleftrightarrow> nat (- v) div 10 = 0" "rust_div v 10 \<noteq> 0 \<Longrightarrow> rust_div v 10 < 0"
    using 1(2) by (auto simp: rust_div_def)
  show ?case
  proof (cases "put_digit buf pos (digit (nat (- v) mod 10))")
    case None
    then show ?thesis using r 1(2) by (subst neg_loop.simps, subst usize_loop.simps) simp
  next
    case (Some p)
    obtain buf' pos' where p: "p = (buf', pos')" by (cases p)
    show ?thesis
    proof (cases "rust_div v 10 = 0")
      case True
      then show ?thesis using r z Some p 1(2)
        by (subst neg_loop.simps, subst usize_loop.simps) (simp add: usize_loop.simps [of 0])
    next
      case False
      have "neg_loop (rust_div v 10) buf' pos' = usize_loop (nat (- v) div 10) buf' pos'"
        using 1(1) [of p buf' pos'] Some p False z(2) r by metis
      then show ?thesis using False r Some p 1(2)
        by (subst neg_loop.simps, subst usize_loop.simps) simp
    qed
  qed
qed

lemma DIGITS100_pairs: "DIGITS100 = concat (map (\<lambda>d. [digit (d div 10), digit (d mod 10)]) [0..<100])"
  by (simp add: DIGITS100_def ascii_def digit_def upt_rec)

lemma length_concat_pairs: "length (concat (map (\<lambda>d. [f d, g d]) xs)) = 2 * length xs"
  by (induction xs) auto

lemma concat_pairs_nth:
  "d < n \<Longrightarrow> concat (map (\<lambda>d. [f d, g d]) [0..<n]) ! (2 * d) = f d"
  "d < n \<Longrightarrow> concat (map (\<lambda>d. [f d, g d]) [0..<n]) ! (2 * d + 1) = g d"
  by (induction n) (auto simp: nth_append length_concat_pairs less_Suc_eq)

lemma DIGITS100_nth:
  "d < 100 \<Longrightarrow> vget DIGITS100 (2 * d) = Some (digit (d div 10))"
  "d < 100 \<Longrightarrow> vget DIGITS100 (2 * d + 1) = Some (digit (d mod 10))"
  using concat_pairs_nth [of d 100 "\<lambda>d. digit (d div 10)" "\<lambda>d. digit (d mod 10)"]
  by (simp_all add: DIGITS100_pairs vget_def length_concat_pairs)

lemma dec_two: "100 \<le> n \<Longrightarrow> dec n = dec (n div 100) @ [digit (n mod 100 div 10), digit (n mod 10)]"
proof -
  assume "100 \<le> n"
  then have "dec n = dec (n div 10) @ [digit (n mod 10)]"
    "dec (n div 10) = dec (n div 10 div 10) @ [digit (n div 10 mod 10)]" by (simp_all add: dec_step)
  moreover have "n div 10 div 10 = n div 100" "n div 10 mod 10 = n mod 100 div 10"
    using div_mult2_eq [of n 10 10] mod_mult2_eq [of n 10 10] by simp_all
  ultimately show ?thesis by simp
qed

lemma pair_loop_dec:
  "length (dec v) \<le> pos \<Longrightarrow> pos \<le> length buf \<Longrightarrow>
   \<exists>v' buf' pos'. pair_loop v buf pos = Some (v', buf', pos') \<and> v' < 100 \<and> length buf' = length buf
     \<and> pos' \<le> pos \<and> length (dec v') \<le> pos' \<and> dec v @ drop pos buf = dec v' @ drop pos' buf'"
proof (induction v buf pos rule: pair_loop.induct)
  case (1 v buf pos)
  show ?case
  proof (cases "v < 100")
    case True
    then show ?thesis using 1(2) by (subst pair_loop.simps) simp
  next
    case False
    then have d: "dec v = dec (v div 100) @ [digit (v mod 100 div 10), digit (v mod 10)]" by (simp add: dec_two)
    then have pos: "length (dec (v div 100)) \<le> pos - 2" "2 \<le> pos" using 1(2) length_dec_pos [of "v div 100"] by auto
    have m: "v mod 100 mod 10 = v mod 10" by (simp add: mod_mod_cancel)
    have g: "vget DIGITS100 (v mod 100 * 2) = Some (digit (v mod 100 div 10))"
      "vget DIGITS100 (v mod 100 * 2 + 1) = Some (digit (v mod 10))"
      using DIGITS100_nth [of "v mod 100"] m by (simp_all add: mult.commute)
    let ?b1 = "buf[pos - 2 := digit (v mod 100 div 10)]"
    let ?b2 = "?b1[pos - 2 + 1 := digit (v mod 10)]"
    have dr: "drop (pos - 2) ?b2 = digit (v mod 100 div 10) # digit (v mod 10) # drop pos buf"
    proof -
      have a: "pos - 2 < length buf" "Suc (pos - 2) < length buf" "Suc (Suc (pos - 2)) = pos"
        using 1(3) pos(2) by simp_all
      then have "drop (pos - 2) ?b2 = ?b2 ! (pos - 2) # ?b2 ! Suc (pos - 2) # drop pos ?b2"
        by (metis Cons_nth_drop_Suc length_list_update)
      then show ?thesis using a by simp
    qed
    have "vset buf (pos - 2) (digit (v mod 100 div 10)) = Some ?b1"
      "vset ?b1 (pos - 2 + 1) (digit (v mod 10)) = Some ?b2"
      using 1(3) pos(2) by (simp_all add: vset_def)
    note v = this
    have "\<exists>v' buf' pos'. pair_loop (v div 100) ?b2 (pos - 2) = Some (v', buf', pos') \<and> v' < 100
       \<and> length buf' = length ?b2 \<and> pos' \<le> pos - 2 \<and> length (dec v') \<le> pos'
       \<and> dec (v div 100) @ drop (pos - 2) ?b2 = dec v' @ drop pos' buf'"
      using False g v pos 1(3) by (intro 1(1) [OF _ refl, of "()"]) auto
    moreover have "pair_loop v buf pos = pair_loop (v div 100) ?b2 (pos - 2)"
      using False g v pos(2) by (subst pair_loop.simps) (simp add: Let_def)
    ultimately show ?thesis using dr d by auto
  qed
qed

section \<open>Writers emit the reference encodings\<close>

lemma ob_reserve_form:
  assumes "ob_ok out"
  obtains rest where "ob_mem (ob_reserve out n) = ob_bytes out @ rest" "n \<le> length rest"
    "ob_len (ob_reserve out n) = ob_len out" "length (ob_bytes out) = ob_len out"
proof
  let ?rest = "drop (ob_len out) (ob_mem (ob_reserve out n))"
  show "ob_mem (ob_reserve out n) = ob_bytes out @ ?rest" "n \<le> length ?rest"
    "ob_len (ob_reserve out n) = ob_len out" "length (ob_bytes out) = ob_len out"
    using assms by (auto simp: ob_reserve_def ob_bytes_def ob_ok_def)
qed

lemma ob_reserve_ok [simp]: "ob_ok out \<Longrightarrow> ob_ok (ob_reserve out n)"
  "ob_ok out \<Longrightarrow> ob_bytes (ob_reserve out n) = ob_bytes out"
  by (auto simp: ob_reserve_def ob_ok_def ob_bytes_def)

lemma ob_poke_app:
  "ob_mem out = p @ rest \<Longrightarrow> at = length p \<Longrightarrow> length bs \<le> length rest \<Longrightarrow>
   ob_poke out at bs = Some (out\<lparr>ob_mem := (p @ bs) @ drop (length bs) rest\<rparr>)"
  by (simp add: ob_poke_def panic_simps)

lemma ob_done:
  "ob_mem out = p @ rest \<Longrightarrow> n = length p \<Longrightarrow>
   ob_ok (out\<lparr>ob_len := n\<rparr>) \<and> ob_bytes (out\<lparr>ob_len := n\<rparr>) = p"
  by (simp add: ob_ok_def ob_bytes_def)

lemma emitsE:
  assumes "emits w bs" "ob_ok out"
  obtains out' where "w out = Some out'" "ob_ok out'" "ob_bytes out' = ob_bytes out @ bs"
  using assms by (auto simp: emits_def)

lemma emits_extend [intro]: "emits (\<lambda>out. ob_extend out bs) bs"
  unfolding emits_def
proof (intro allI impI)
  fix out assume ok: "ob_ok out"
  obtain rest where r: "ob_mem (ob_reserve out (length bs)) = ob_bytes out @ rest" "length bs \<le> length rest"
    "ob_len (ob_reserve out (length bs)) = ob_len out" "length (ob_bytes out) = ob_len out"
    using ob_reserve_form [OF ok] .
  then show "\<exists>out'. ob_extend out bs = Some out' \<and> ob_ok out' \<and> ob_bytes out' = ob_bytes out @ bs"
    by (simp add: ob_extend_def Let_def ob_poke_app [OF r(1)] ob_done)
      (auto simp: ob_ok_def ob_bytes_def)
qed

lemma emits_push [intro]: "emits (\<lambda>out. ob_push out b) [b]"
  using emits_extend by (simp add: ob_push_def)

lemma emits_seq:
  assumes "emits f a" "emits g b"
  shows "emits (\<lambda>out. f out \<bind> g) (a @ b)"
  unfolding emits_def
proof (intro allI impI)
  fix out assume "ob_ok out"
  then obtain o1 where "f out = Some o1" "ob_ok o1" "ob_bytes o1 = ob_bytes out @ a"
    using assms(1) by (rule_tac emitsE)
  moreover from this(2) obtain o2 where "g o1 = Some o2" "ob_ok o2" "ob_bytes o2 = ob_bytes o1 @ b"
    using assms(2) by (rule_tac emitsE)
  ultimately show "\<exists>out'. f out \<bind> g = Some out' \<and> ob_ok out' \<and> ob_bytes out' = ob_bytes out @ a @ b"
    by simp
qed

lemma ob_truncate_self: "ob_truncate out (ob_len out) = out"
  by (simp add: ob_truncate_def)

lemma emits_reserve: "emits f a \<Longrightarrow> emits (\<lambda>out. f (ob_reserve out n)) a"
  unfolding emits_def by (metis ob_reserve_ok)

lemma emits_write_usize:
  assumes "n < 2 ^ 64"
  shows "emits (\<lambda>out. write_usize out n) (dec n)"
proof (cases "n < 10")
  case True
  then show ?thesis using emits_push [of "digit n"] by (simp add: write_usize_def dec_less)
next
  case False
  have "usize_loop n (replicate 20 0) 20 = Some (take (20 - length (dec n)) (replicate 20 0) @ dec n, 20 - length (dec n))"
    using usize_loop_dec [of n 20 "replicate 20 0"] False length_dec_u64 [OF assms] by simp
  then show ?thesis using emits_extend [of "dec n"] False length_dec_u64 [OF assms]
    by (simp add: write_usize_def vslice_def)
qed

lemma emits_write_i64:
  assumes "in_i64 n"
  shows "emits (\<lambda>out. write_i64 out n) (idec n)"
proof (cases "n < 0")
  case False
  then have "nat n < 2 ^ 64" using assms by (auto simp: in_i64_def i64_max_def)
  then show ?thesis using emits_write_usize False by (simp add: write_i64_def idec_def)
next
  case True
  have l: "length (dec (nat (- n))) \<le> 19"
    using assms by (intro length_dec_i64) (auto simp: in_i64_def i64_min_def)
  then have "neg_loop n (replicate 20 0) 20
     = Some (take (20 - length (dec (nat (- n)))) (replicate 20 0) @ dec (nat (- n)), 20 - length (dec (nat (- n))))"
    using usize_loop_dec [of "nat (- n)" 20 "replicate 20 0"] True by (simp add: neg_loop_usize)
  then have "write_i64 out n = ob_push out 45 \<bind> (\<lambda>o'. ob_extend o' (dec (nat (- n))))" for out
    using True l by (simp add: write_i64_def vslice_def)
  then show ?thesis
    using emits_seq [OF emits_push [of 45] emits_extend [of "dec (nat (- n))"]] True
    by (simp add: idec_def)
qed

lemma write_int_to_idec:
  assumes "in_i64 n" "length buf = 20"
  shows "write_int_to buf n = Some (idec n)"
proof (cases "n < 0")
  case True
  have l: "length (dec (nat (- n))) \<le> 19"
    using assms(1) by (intro length_dec_i64) (auto simp: in_i64_def i64_min_def)
  let ?k = "length (dec (nat (- n)))"
  have i: "int_loop (nat (- n)) buf 20 = Some (take (20 - ?k) buf @ dec (nat (- n)), 20 - ?k)"
    using int_loop_dec [of "nat (- n)" 20 buf] l assms(2) by simp
  have "put_digit (take (20 - ?k) buf @ dec (nat (- n))) (20 - ?k) 45
     = Some (take (20 - ?k - 1) buf @ 45 # dec (nat (- n)), 20 - ?k - 1)"
    using l assms(2) by (subst put_digit_in) (auto simp: min_def)
  then show ?thesis using i l assms(2) True by (simp add: write_int_to_def vslice_def idec_def)
next
  case False
  have l: "length (dec (nat n)) \<le> 19"
    using assms(1) by (intro length_dec_i64) (auto simp: in_i64_def i64_max_def)
  then show ?thesis using int_loop_dec [of "nat n" 20 buf] assms(2) False
    by (simp add: write_int_to_def vslice_def idec_def)
qed

lemma emits_fill:
  assumes "\<And>out rest. ob_ok out \<Longrightarrow> ob_mem (ob_reserve out n) = ob_bytes out @ rest \<Longrightarrow> n \<le> length rest \<Longrightarrow>
      length (ob_bytes out) = ob_len out \<Longrightarrow>
      w out = Some ((ob_reserve out n)\<lparr>ob_mem := (ob_bytes out @ bs) @ drop (length bs) rest,
                ob_len := ob_len out + length bs\<rparr>)"
  shows "emits w bs"
  unfolding emits_def
proof (intro allI impI)
  fix out assume ok: "ob_ok out"
  obtain rest where r: "ob_mem (ob_reserve out n) = ob_bytes out @ rest" "n \<le> length rest"
    "length (ob_bytes out) = ob_len out" using ob_reserve_form [OF ok] by metis
  show "\<exists>out'. w out = Some out' \<and> ob_ok out' \<and> ob_bytes out' = ob_bytes out @ bs"
    using assms [OF ok r] r(3) by (simp add: ob_ok_def ob_bytes_def)
qed

lemma emits_write_bulk_bytes:
  assumes "length s < 2 ^ 64"
  shows "emits (\<lambda>out. write_bulk_bytes out s) (resp_bulk s)"
proof -
  consider "length s < 10" | "10 \<le> length s" "length s < 100" | "100 \<le> length s" by linarith
  then show ?thesis
  proof cases
    case 1
    then have d: "dec (length s) = [48 + of_nat (length s)]" by (simp add: dec_less digit_def)
    let ?h = "[36, 48 + of_nat (length s), 13, 10]"
    show ?thesis
      using 1 d
      by (intro emits_fill [where n = "4 + length s + 2"])
        (simp add: write_bulk_bytes_def Let_def resp_bulk_def crlf_def ob_poke_app [where p = "ob_bytes _"]
          ob_poke_app [where p = "ob_bytes _ @ ?h"] ob_poke_app [where p = "ob_bytes _ @ ?h @ s"])
  next
    case 2
    let ?a = "48 + of_nat (length s div 10)" and ?b = "48 + of_nat (length s mod 10)"
    have d: "dec (length s) = [?a, ?b]"
      using 2 dec_step [of "length s"] dec_less [of "length s div 10"] by (simp add: digit_def)
    let ?h = "[36, ?a, ?b, 13, 10]"
    show ?thesis
      using 2 d
      by (intro emits_fill [where n = "5 + length s + 2"])
        (simp add: write_bulk_bytes_def Let_def resp_bulk_def crlf_def ob_poke_app [where p = "ob_bytes _"]
            ob_poke_app [where p = "ob_bytes _ @ [36]"]
            ob_poke_app [where p = "ob_bytes _ @ [36, ?a]"] ob_poke_app [where p = "ob_bytes _ @ [36, ?a, ?b]"]
            ob_poke_app [where p = "ob_bytes _ @ [36, ?a, ?b, 13]"] ob_poke_app [where p = "ob_bytes _ @ ?h"]
            ob_poke_app [where p = "ob_bytes _ @ ?h @ s"] ob_poke_app [where p = "ob_bytes _ @ ?h @ s @ [13]"])
  next
    case 3
    have "emits (\<lambda>out. ob_push out 36 \<bind> (\<lambda>out1. write_usize out1 (length s) \<bind> (\<lambda>out2. ob_extend out2 [13, 10]
        \<bind> (\<lambda>out3. ob_extend out3 s \<bind> (\<lambda>out4. ob_extend out4 [13, 10]))))) ([36] @ dec (length s) @ [13, 10] @ s @ [13, 10])"
      by (intro emits_seq emits_push emits_extend emits_write_usize [OF assms])
    from emits_reserve [OF this, of "1 + 10 + 2 + length s + 2"] show ?thesis
      using 3 by (simp add: write_bulk_bytes_def Let_def resp_bulk_def crlf_def)
  qed
qed

text \<open>The tail of the digit buffer that \<^verbatim>\<open>write_integer\<close> copies out.\<close>

lemma pair_tail:
  assumes "v < 100" "length (dec v) \<le> pos" "pos \<le> length buf"
  shows "\<exists>buf' pos'. pair_last v buf pos = Some (buf', pos')
     \<and> length buf' = length buf \<and> pos' \<le> length buf \<and> drop pos' buf' = dec v @ drop pos buf"
proof (cases "v < 10")
  case True
  then have "0 < pos" using assms(2) by (simp add: dec_less)
  moreover have "min (length buf) (pos - Suc 0) = pos - Suc 0" using assms(3) by simp
  ultimately show ?thesis using True assms(3) by (auto simp: pair_last_def put_digit_in dec_less)
next
  case False
  then have d: "dec v = [digit (v div 10), digit (v mod 10)]"
    using dec_step [of v] dec_less [of "v div 10"] assms(1) by simp
  then have pos: "2 \<le> pos" using assms(2) by simp
  let ?b1 = "buf[pos - 2 := digit (v div 10)]"
  let ?b2 = "?b1[pos - 2 + 1 := digit (v mod 10)]"
  have a: "pos - 2 < length buf" "Suc (pos - 2) < length buf" "Suc (Suc (pos - 2)) = pos"
    using assms(3) pos by simp_all
  then have "drop (pos - 2) ?b2 = ?b2 ! (pos - 2) # ?b2 ! Suc (pos - 2) # drop pos ?b2"
    by (metis Cons_nth_drop_Suc length_list_update)
  then have "drop (pos - 2) ?b2 = dec v @ drop pos buf" using a d by simp
  moreover have "vget DIGITS100 (v * 2) = Some (digit (v div 10))" "vget DIGITS100 (v * 2 + 1) = Some (digit (v mod 10))"
    using DIGITS100_nth [of v] assms(1) by (simp_all add: mult.commute)
  ultimately show ?thesis using False pos a
    by (intro exI [of _ ?b2] exI [of _ "pos - 2"]) (simp add: pair_last_def vset_def)
qed

lemma emits_write_integer:
  assumes "in_i64 n"
  shows "emits (\<lambda>out. write_integer out n) (resp_integer n)"
proof (cases "0 \<le> n \<and> n < 10")
  case True
  then have "nat n \<in> set [0..<10]" by auto
  moreover have "\<forall>d\<in>set [0..<10]. vget INT_CACHE d = Some (58 # digit d # crlf)"
    by (simp add: INT_CACHE_def vget_def ascii_def digit_def crlf_def upt_rec)
  ultimately have "vget INT_CACHE (nat n) = Some (resp_integer n)"
    using True by (simp add: resp_integer_def idec_def dec_less)
  with True show ?thesis using emits_extend [of "resp_integer n"] by (simp add: write_integer_def)
next
  case False
  define val where "val = (if n < 0 then nat (- n) else nat n)"
  define sg where "sg = (if n < 0 then [45] else [] :: bytes)"
  have vn: "n < 0 \<Longrightarrow> nat (- n) = val" "\<not> n < 0 \<Longrightarrow> nat n = val" by (simp_all add: val_def)
  have id: "idec n = sg @ dec val" by (simp add: sg_def val_def idec_def)
  have l: "length (dec val) \<le> 19" using assms
    by (intro length_dec_i64) (auto simp: val_def in_i64_def i64_min_def i64_max_def)
  obtain v1 b1 p1 where p1: "pair_loop val (replicate 20 0) 20 = Some (v1, b1, p1)" "v1 < 100" "length b1 = 20"
    "p1 \<le> 20" "length (dec v1) \<le> p1" "dec val = dec v1 @ drop p1 b1"
    using pair_loop_dec [of val 20 "replicate 20 0"] l by auto
  obtain b2 p2 where p2: "pair_last v1 b1 p1 = Some (b2, p2)" "length b2 = 20" "p2 \<le> 20" "drop p2 b2 = dec val"
    using pair_tail [OF p1(2,5), of b1] p1(3,4,6) by auto
  have len: "20 - p2 = length (dec val)" using p2(2-4) by (metis length_drop)
  have sl: "vslice b2 p2 (p2 + (20 - p2)) = Some (dec val)" using p2(2-4) len by (simp add: vslice_def)
  show ?thesis
  proof (rule emits_fill [where n = 32])
    fix out rest
    assume o': "ob_ok out" "ob_mem (ob_reserve out 32) = ob_bytes out @ rest" "32 \<le> length rest"
      "length (ob_bytes out) = ob_len out"
    let ?p = "ob_bytes out"
    have "write_integer out n = (do {
         out1 \<leftarrow> ob_poke (ob_reserve out 32) (ob_len out) [58];
         out2 \<leftarrow> (if n < 0 then ob_poke out1 (ob_len out + 1) [45] else Some out1);
         out3 \<leftarrow> ob_poke out2 (ob_len out + (1 + length sg)) (dec val);
         out4 \<leftarrow> ob_poke out3 (ob_len out + (1 + length sg + length (dec val))) [13];
         out5 \<leftarrow> ob_poke out4 (ob_len out + (1 + length sg + length (dec val) + 1)) [10];
         Some (out5\<lparr>ob_len := ob_len out + (1 + length sg + length (dec val)) + 2\<rparr>) })"
    proof (cases "n < 0")
      case True
      then show ?thesis using False p1(1) p2(1) sl
        by (simp add: write_integer_def Let_def vn sg_def len bind_assoc)
    next
      case pos: False
      then show ?thesis using False p1(1) p2(1) sl
        by (simp add: write_integer_def Let_def vn sg_def len)
    qed
    then show "write_integer out n = Some ((ob_reserve out 32)\<lparr>ob_mem := (?p @ resp_integer n)
       @ drop (length (resp_integer n)) rest, ob_len := ob_len out + length (resp_integer n)\<rparr>)"
      using o' l
      by (auto simp: resp_integer_def id sg_def crlf_def ob_poke_app [where p = ?p] ob_poke_app [where p = "?p @ [58]"]
          ob_poke_app [where p = "?p @ [58, 45]"] ob_poke_app [where p = "?p @ [58] @ dec val"]
          ob_poke_app [where p = "?p @ [58, 45] @ dec val"] ob_poke_app [where p = "?p @ [58] @ dec val @ [13]"]
          ob_poke_app [where p = "?p @ [58, 45] @ dec val @ [13]"])
  qed
qed

lemma emits_write_nil: "emits write_nil resp_nil"
  using emits_extend [of NIL] by (simp add: write_nil_def [abs_def] NIL_def resp_nil_def ascii_def crlf_def)

lemma emits_write_bulk: "length s < 2 ^ 64 \<Longrightarrow> emits (\<lambda>out. write_bulk out s) (resp_bulk s)"
  by (simp add: write_bulk_def emits_write_bulk_bytes)

lemma emits_write_array_header: "n < 2 ^ 64 \<Longrightarrow> emits (\<lambda>out. write_array_header out n) (resp_array_header n)"
  unfolding write_array_header_def resp_array_header_def crlf_def
  by (intro emits_seq emits_push emits_extend emits_write_usize)

lemma emits_write_opt_bulk:
  "(\<And>s. v = Some s \<Longrightarrow> length s < 2 ^ 64) \<Longrightarrow> emits (\<lambda>out. write_opt_bulk out v) (resp_opt v)"
  by (cases v) (auto simp: write_opt_bulk_def [abs_def] resp_opt_def emits_write_bulk emits_write_nil)

lemma emits_return [simp]: "emits Some []"
  by (simp add: emits_def)

lemma emits_write_each:
  "\<forall>x\<in>set xs. emits (\<lambda>out. w out x) (e x) \<Longrightarrow> emits (\<lambda>out. write_each w out xs) (concat (map e xs))"
  by (induction xs) (auto intro!: emits_seq)

lemma emits_write_array:
  assumes "length items < 2 ^ 64" "\<forall>s\<in>set items. length s < 2 ^ 64"
  shows "emits (\<lambda>out. write_array out items) (resp_array_header (length items) @ concat (map resp_bulk items))"
  unfolding write_array_def
  using assms by (intro emits_seq emits_write_array_header emits_write_each) (auto intro: emits_write_bulk)

lemma bulk_eq: "bulk s = resp_bulk s"
  by (simp add: bulk_def resp_bulk_def crlf_def ascii_def)

section \<open>The decimal rendering is injective\<close>

lemma unat_digit: "d < 10 \<Longrightarrow> unat (digit d) = 48 + d"
proof -
  assume "d < 10"
  then have "(48 + d) mod 2 ^ LENGTH(8) = 48 + d" by simp
  then show ?thesis by (simp only: digit_def unat_of_nat)
qed

lemma val_digits_dec [simp]: "val_digits (dec n) = n"
proof (induction n rule: dec.induct)
  case (1 n)
  show ?case
  proof (cases "n < 10")
    case True
    then show ?thesis by (simp add: dec_less val_digits_def unat_digit)
  next
    case False
    then show ?thesis using 1 by (simp add: dec_step val_digits_def unat_digit)
  qed
qed

lemma dec_digits: "b \<in> set (dec n) \<Longrightarrow> 48 \<le> b \<and> b \<le> 57"
proof (induction n rule: dec.induct)
  case (1 n)
  have "48 \<le> digit d \<and> digit d \<le> 57" if "d < 10" for d
    using that by (simp add: word_le_nat_alt unat_digit)
  then show ?case using 1 by (cases "n < 10") (auto simp: dec_less dec_step)
qed

lemma dec_inject [simp]: "dec m = dec n \<longleftrightarrow> m = n"
  by (metis val_digits_dec)

lemma idec_inject [simp]: "idec m = idec n \<longleftrightarrow> m = n"
proof -
  have "45 \<notin> set (dec k)" for k using dec_digits [of 45 k] by auto
  then have "dec k \<noteq> 45 # xs" for k xs by (metis list.set_intros(1))
  then show ?thesis by (auto simp: idec_def dest: sym)
qed

end
