(* ===== verification/IntParse.thy ===== *)
theory IntParse
  imports Resp
begin

text \<open>
  Reading integers: the standard library's \<^verbatim>\<open>str::parse::<i64>\<close> (an optional sign, then decimal digits,
  every step checked for overflow) and \<^verbatim>\<open>canonical_i64\<close> of \<^verbatim>\<open>src/storage/value/collections.rs\<close>, which
  decides whether a member can be stored as an integer.  A string is canonical exactly when it is the
  decimal rendering that \<^verbatim>\<open>write_int_to\<close> produces for the integer it denotes.
\<close>

definition is_ascii_digit :: "byte \<Rightarrow> bool" where
  "is_ascii_digit b \<longleftrightarrow> 48 \<le> b \<and> b \<le> 57"

definition digit_val :: "byte \<Rightarrow> int" where
  "digit_val b = uint b - 48"

definition checked_mul_i64 :: "int \<Rightarrow> int \<Rightarrow> int option" where
  "checked_mul_i64 a b = (if in_i64 (a * b) then Some (a * b) else None)"

fun parse_loop :: "bool \<Rightarrow> bytes \<Rightarrow> int \<Rightarrow> int option" where
  "parse_loop neg [] acc = Some acc"
| "parse_loop neg (b # bs) acc =
     (if \<not> is_ascii_digit b then None
      else do {
        m \<leftarrow> checked_mul_i64 acc 10;
        acc' \<leftarrow> checked_add_i64 m (if neg then - digit_val b else digit_val b);
        parse_loop neg bs acc' })"

definition parse_i64 :: "bytes \<Rightarrow> int option" where
  "parse_i64 s =
     (case s of
        [] \<Rightarrow> None
      | b # bs \<Rightarrow>
          if b = 45 then (if bs = [] then None else parse_loop True bs 0)
          else if b = 43 then (if bs = [] then None else parse_loop False bs 0)
          else parse_loop False s 0)"

definition canonical_i64 :: "bytes \<Rightarrow> int option" where
  "canonical_i64 s =
     (if s = [] then None
      else if s ! 0 = 48 \<and> length s > 1 then None
      else if length s \<ge> 2 \<and> s ! 0 = 45 \<and> s ! 1 = 48 then None
      else if s ! 0 = 43 then None
      else parse_i64 s)"

section \<open>Parsing\<close>

definition digits_val :: "bytes \<Rightarrow> int \<Rightarrow> int" where
  "digits_val bs acc = foldl (\<lambda>v b. 10 * v + digit_val b) acc bs"

lemma digit_val_range: "is_ascii_digit b \<Longrightarrow> 0 \<le> digit_val b \<and> digit_val b \<le> 9"
  by (auto simp: is_ascii_digit_def digit_val_def word_le_def)

lemma uint_digit: "d < 10 \<Longrightarrow> uint (digit d) = 48 + int d"
  using unat_digit [of d] by (metis of_nat_add of_nat_numeral uint_nat)

lemma digit_val_digit [simp]: "d < 10 \<Longrightarrow> digit_val (digit d) = int d" "d < 10 \<Longrightarrow> is_ascii_digit (digit d)"
  by (simp_all add: digit_val_def is_ascii_digit_def uint_digit word_le_def)

lemma digit_of_val: "is_ascii_digit b \<Longrightarrow> digit (nat (digit_val b)) = b"
proof -
  assume "is_ascii_digit b"
  then have "0 \<le> digit_val b" "digit_val b \<le> 9" using digit_val_range by auto
  then have "uint (digit (nat (digit_val b))) = uint b" by (simp add: uint_digit digit_val_def)
  then show ?thesis by (metis word_of_int_uint)
qed

lemma digits_val_mono: "list_all is_ascii_digit bs \<Longrightarrow> 0 \<le> acc \<Longrightarrow> acc \<le> digits_val bs acc"
proof (induction bs arbitrary: acc)
  case (Cons b bs)
  then have "acc \<le> 10 * acc + digit_val b" "0 \<le> 10 * acc + digit_val b" using digit_val_range [of b] by auto
  with Cons show ?case by (fastforce simp: digits_val_def)
qed (simp add: digits_val_def)

lemma parse_loop_spec:
  "0 \<le> acc \<Longrightarrow> in_i64 (if neg then - acc else acc) \<Longrightarrow>
   parse_loop neg bs (if neg then - acc else acc)
     = (if list_all is_ascii_digit bs \<and> in_i64 (if neg then - digits_val bs acc else digits_val bs acc)
        then Some (if neg then - digits_val bs acc else digits_val bs acc) else None)"
proof (induction bs arbitrary: acc)
  case Nil
  then show ?case by (auto simp: digits_val_def split: if_splits)
next
  case (Cons b bs)
  show ?case
  proof (cases "is_ascii_digit b")
    case True
    let ?a = "10 * acc + digit_val b"
    have a: "0 \<le> ?a" "10 * acc \<le> ?a" using Cons.prems(1) digit_val_range [OF True] by auto
    have v: "digits_val (b # bs) acc = digits_val bs ?a" by (simp add: digits_val_def)
    show ?thesis
    proof (cases "in_i64 (if neg then - ?a else ?a)")
      case in': True
      then have "in_i64 (if neg then - (10 * acc) else 10 * acc)"
        using a Cons.prems(1) by (auto simp: in_i64_def i64_min_def i64_max_def split: if_splits)
      then show ?thesis using Cons.IH [OF a(1) in'] True in' v
        by (auto simp: checked_mul_i64_def checked_add_i64_def mult.commute)
    next
      case out: False
      have "\<not> in_i64 (if neg then - digits_val bs ?a else digits_val bs ?a)" if "list_all is_ascii_digit bs"
        using out digits_val_mono [OF that a(1)] a(1) by (auto simp: in_i64_def i64_min_def i64_max_def split: if_splits)
      moreover have "\<not> in_i64 (if neg then - acc * 10 - digit_val b else acc * 10 + digit_val b)"
      proof -
        have "(if neg then - acc * 10 - digit_val b else acc * 10 + digit_val b) = (if neg then - ?a else ?a)" by simp
        with out show ?thesis by (simp only: not_False_eq_True)
      qed
      ultimately show ?thesis using True v
        by (auto simp: checked_mul_i64_def checked_add_i64_def)
    qed
  qed simp
qed

lemma parse_loop_0:
  "parse_loop neg bs 0
     = (if list_all is_ascii_digit bs \<and> in_i64 (if neg then - digits_val bs 0 else digits_val bs 0)
        then Some (if neg then - digits_val bs 0 else digits_val bs 0) else None)"
  using parse_loop_spec [of 0 neg bs] by (cases neg) (simp_all add: in_i64_def i64_min_def i64_max_def)

lemma dec_is_digits: "list_all is_ascii_digit (dec n)"
  using dec_digits by (auto simp: list_all_iff is_ascii_digit_def)

lemma digits_val_dec [simp]: "digits_val (dec n) 0 = int n"
proof (induction n rule: dec.induct)
  case (1 n)
  have "10 * int (n div 10) + int (n mod 10) = int n"
    by (metis mult_div_mod_eq of_nat_add of_nat_mult of_nat_numeral)
  with 1 show ?case
    by (cases "n < 10") (simp_all add: dec_less dec_step digits_val_def)
qed

text \<open>The digits of a number without leading zeros are its decimal rendering.\<close>

lemma dec_of_digits:
  "list_all is_ascii_digit bs \<Longrightarrow> bs \<noteq> [] \<Longrightarrow> (hd bs \<noteq> 48 \<or> length bs = 1) \<Longrightarrow>
   dec (nat (digits_val bs 0)) = bs"
proof (induction bs rule: rev_induct)
  case (snoc b bs)
  have b: "is_ascii_digit b" using snoc.prems(1) by simp
  then have r: "0 \<le> digit_val b" "digit_val b \<le> 9" using digit_val_range by auto
  show ?case
  proof (cases "bs = []")
    case True
    then show ?thesis using b r by (simp add: digits_val_def dec_less digit_of_val)
  next
    case False
    then have h: "hd bs \<noteq> 48" "list_all is_ascii_digit bs" using snoc.prems by auto
    with snoc.IH False have IH: "dec (nat (digits_val bs 0)) = bs" by simp
    have nn: "0 \<le> digits_val bs 0" using digits_val_mono [OF h(2), of 0] by simp
    have pos: "digits_val bs 0 \<noteq> 0"
    proof
      assume "digits_val bs 0 = 0"
      with IH have "bs = [digit 0]" by (simp add: dec_less)
      with h(1) show False by (simp add: digit_def)
    qed
    have v: "digits_val (bs @ [b]) 0 = 10 * digits_val bs 0 + digit_val b" by (simp add: digits_val_def)
    have "nat (digits_val (bs @ [b]) 0) = 10 * nat (digits_val bs 0) + nat (digit_val b)"
      using nn r v by (simp add: nat_add_distrib nat_mult_distrib)
    moreover have "nat (digit_val b) < 10" "0 < nat (digits_val bs 0)" using r nn pos by auto
    ultimately have "dec (nat (digits_val (bs @ [b]) 0)) = dec (nat (digits_val bs 0)) @ [digit (nat (digit_val b))]"
      by (simp add: dec_step)
    then show ?thesis using IH b by (simp add: digit_of_val)
  qed
qed simp

lemma dec_hd: "hd (dec n) = 48 \<longleftrightarrow> n = 0"
proof (induction n rule: dec.induct)
  case (1 n)
  show ?case
  proof (cases "n < 10")
    case True
    have "digit n = digit 0 \<longleftrightarrow> n = 0"
      using True unat_digit [of n] unat_digit [of 0] by (metis add_left_cancel zero_less_numeral)
    moreover have "digit 0 = 48" by (simp add: digit_def)
    ultimately show ?thesis using True by (simp add: dec_less)
  next
    case False
    then show ?thesis using 1 length_dec_pos [of "n div 10"] by (auto simp: dec_step hd_append)
  qed
qed

lemma dec_not_Nil [simp]: "dec n \<noteq> []"
  using length_dec_pos [of n] by auto

lemma dec_hd_digit: "is_ascii_digit (hd (dec n))"
  using dec_is_digits [of n] dec_not_Nil [of n] by (metis hd_in_set list_all_iff)

lemma parse_i64_idec:
  assumes "in_i64 n"
  shows "parse_i64 (idec n) = Some n"
proof (cases "n < 0")
  case True
  then show ?thesis using assms dec_is_digits by (simp add: parse_i64_def idec_def parse_loop_0)
next
  case False
  obtain b bs where d: "dec (nat n) = b # bs" using dec_not_Nil list.exhaust by metis
  then have "b \<noteq> 45" "b \<noteq> 43" using dec_hd_digit [of "nat n"] by (auto simp: is_ascii_digit_def)
  then have "parse_i64 (dec (nat n)) = parse_loop False (dec (nat n)) 0" using d by (simp add: parse_i64_def)
  then show ?thesis using False assms dec_is_digits by (simp add: idec_def parse_loop_0)
qed

lemma parse_i64_range: "parse_i64 s = Some n \<Longrightarrow> in_i64 n"
  by (auto simp: parse_i64_def parse_loop_0 split: list.splits if_splits)

lemma canonical_i64_idec:
  assumes "in_i64 n"
  shows "canonical_i64 (idec n) = Some n"
proof (cases "n < 0")
  case True
  then have "dec (nat (- n)) ! 0 \<noteq> 48" using dec_hd [of "nat (- n)"] by (simp add: hd_conv_nth)
  then show ?thesis using True parse_i64_idec [OF assms] by (simp add: canonical_i64_def idec_def)
next
  case False
  have "dec (nat n) ! 0 \<noteq> 48 \<or> length (dec (nat n)) = 1"
    using dec_hd [of "nat n"] by (auto simp: hd_conv_nth dec_less)
  moreover have "dec (nat n) ! 0 \<noteq> 45" "dec (nat n) ! 0 \<noteq> 43"
    using dec_hd_digit [of "nat n"] by (auto simp: hd_conv_nth is_ascii_digit_def)
  ultimately show ?thesis
    using False parse_i64_idec [OF assms] by (auto simp: canonical_i64_def idec_def)
qed

lemma canonical_i64_sound:
  assumes "canonical_i64 s = Some n"
  shows "in_i64 n \<and> s = idec n"
proof -
  have p: "parse_i64 s = Some n" and c: "s \<noteq> []" "\<not> (s ! 0 = 48 \<and> length s > 1)"
    "\<not> (length s \<ge> 2 \<and> s ! 0 = 45 \<and> s ! 1 = 48)" "s ! 0 \<noteq> 43"
    using assms by (auto simp: canonical_i64_def split: if_splits)
  have "s = idec n"
  proof (cases "s ! 0 = 45")
    case True
    then obtain bs where s: "s = 45 # bs" using c(1) by (cases s) auto
    then have l: "list_all is_ascii_digit bs" "bs \<noteq> []" "n = - digits_val bs 0"
      using p by (auto simp: parse_i64_def parse_loop_0 split: if_splits)
    have h: "hd bs \<noteq> 48" using c(3) s l(2) by (cases bs) auto
    then have d: "dec (nat (digits_val bs 0)) = bs" using dec_of_digits [OF l(1,2)] by simp
    have "digits_val bs 0 \<noteq> 0" using d h by (auto simp: dec_less digit_def)
    then have "n < 0" using l(3) digits_val_mono [OF l(1), of 0] by simp
    then show ?thesis using d l(3) s by (simp add: idec_def)
  next
    case False
    then obtain b bs where s: "s = b # bs" "b \<noteq> 45" "b \<noteq> 43" using c(1,4) by (cases s) auto
    then have l: "list_all is_ascii_digit s" "n = digits_val s 0"
      using p by (auto simp: parse_i64_def parse_loop_0 split: if_splits)
    have h: "hd s \<noteq> 48 \<or> length s = 1" using c(1,2) s by (cases bs) auto
    have "0 \<le> n" using l(2) digits_val_mono [OF l(1), of 0] by simp
    then show ?thesis using dec_of_digits [OF l(1) c(1) h] l(2) by (simp add: idec_def)
  qed
  then show ?thesis using p parse_i64_range by blast
qed

text \<open>
  C24. A set member is stored as an integer exactly when it is the rendering of a 64-bit integer, so
  reading it back with \<^verbatim>\<open>write_int_to\<close> gives the same bytes.
\<close>

theorem canonical_i64_iff:
  "canonical_i64 s = Some n \<longleftrightarrow> in_i64 n \<and> write_int_to (replicate 20 0) n = Some s"
  using canonical_i64_sound canonical_i64_idec write_int_to_idec [OF _ length_replicate]
  by (metis option.inject)

text \<open>
  C25. Parsing accepts what the integer writer emits: the bytes that \<^verbatim>\<open>write_i64\<close> appends for a 64-bit
  integer parse back to that integer.
\<close>

theorem write_i64_parse:
  assumes "in_i64 n" "ob_ok out"
  shows "\<exists>out' s. write_i64 out n = Some out' \<and> ob_bytes out' = ob_bytes out @ s \<and> parse_i64 s = Some n"
  using emits_write_i64 [OF assms(1)] assms parse_i64_idec [OF assms(1)] by (auto simp: emits_def)

theorem write_i64_parse_witness:
  "\<exists>out' s. write_i64 \<lparr>ob_mem = [7], ob_len = 1\<rparr> (- 9223372036854775808) = Some out'
     \<and> ob_bytes out' = 7 # s \<and> parse_i64 s = Some (- 9223372036854775808)"
  using write_i64_parse [of "- 9223372036854775808" "\<lparr>ob_mem = [7], ob_len = 1\<rparr>"]
  by (simp add: in_i64_def i64_min_def i64_max_def ob_ok_def ob_bytes_def)

end
