(* ===== verification/CollADT.thy ===== *)
theory CollADT
  imports Prelude
begin

text \<open>
  The interfaces between the hash and set commands (\<^verbatim>\<open>src/storage/hash.rs\<close>, \<^verbatim>\<open>src/storage/set.rs\<close>) and the
  containers of \<^verbatim>\<open>src/storage/value/collections.rs\<close>: a finite map from fields to values, and a finite
  set of members.  Operations are partial (\<^verbatim>\<open>None\<close> is a panic), and the lemmas of the locales are about
  the counting loops that the commands run.
\<close>

section \<open>Counting loops\<close>

fun insert_count ::
  "('h \<Rightarrow> 'k \<Rightarrow> 'v \<Rightarrow> (bool \<times> 'h) option) \<Rightarrow> ('k \<times> 'v) list \<Rightarrow> 'h \<Rightarrow> (nat \<times> 'h) option" where
  "insert_count ins [] h = Some (0, h)"
| "insert_count ins ((k, v) # kvs) h = do {
     (b, h1) \<leftarrow> ins h k v;
     (n, h2) \<leftarrow> insert_count ins kvs h1;
     Some (if b then n + 1 else n, h2) }"

fun remove_count :: "('h \<Rightarrow> 'k \<Rightarrow> ('v option \<times> 'h) option) \<Rightarrow> 'k list \<Rightarrow> 'h \<Rightarrow> (nat \<times> 'h) option" where
  "remove_count rm [] h = Some (0, h)"
| "remove_count rm (k # ks) h = do {
     (r, h1) \<leftarrow> rm h k;
     (n, h2) \<leftarrow> remove_count rm ks h1;
     Some (if r \<noteq> None then n + 1 else n, h2) }"

fun member_count :: "('s \<Rightarrow> 'k \<Rightarrow> (bool \<times> 's) option) \<Rightarrow> 'k list \<Rightarrow> 's \<Rightarrow> (nat \<times> 's) option" where
  "member_count f [] s = Some (0, s)"
| "member_count f (k # ks) s = do {
     (b, s1) \<leftarrow> f s k;
     (n, s2) \<leftarrow> member_count f ks s1;
     Some (if b then n + 1 else n, s2) }"

section \<open>Maps\<close>

locale map_adt =
  fixes abs :: "'h \<Rightarrow> bytes \<rightharpoonup> bytes"
    and inv :: "'h \<Rightarrow> bool"
    and new :: 'h
    and get :: "'h \<Rightarrow> bytes \<Rightarrow> bytes option option"
    and insert_at :: "'h \<Rightarrow> bytes \<Rightarrow> bytes \<Rightarrow> (bool \<times> 'h) option"
    and remove :: "'h \<Rightarrow> bytes \<Rightarrow> (bytes option \<times> 'h) option"
    and len :: "'h \<Rightarrow> nat"
    and iter :: "'h \<Rightarrow> (bytes \<times> bytes) list option"
  assumes new_law: "inv new \<and> abs new = Map.empty"
    and fin_law: "inv h \<Longrightarrow> finite (dom (abs h))"
    and get_law: "inv h \<Longrightarrow> get h f = Some (abs h f)"
    and insert_law: "inv h \<Longrightarrow>
      \<exists>h'. insert_at h f v = Some (abs h f = None, h') \<and> inv h' \<and> abs h' = (abs h)(f \<mapsto> v)"
    and remove_law: "inv h \<Longrightarrow>
      \<exists>h'. remove h f = Some (abs h f, h') \<and> inv h' \<and> abs h' = (abs h)(f := None)"
    and len_law: "inv h \<Longrightarrow> len h = card (dom (abs h))"
    and iter_law: "inv h \<Longrightarrow> \<exists>ps. iter h = Some ps \<and> distinct (map fst ps) \<and> map_of ps = abs h"
begin

lemma insert_all:
  "inv h \<Longrightarrow> \<exists>h'. insert_count insert_at kvs h = Some (card (fst ` set kvs - dom (abs h)), h') \<and> inv h'
     \<and> abs h' = abs h ++ map_of (rev kvs)"
proof (induction kvs arbitrary: h)
  case Nil
  then show ?case by simp
next
  case (Cons kv kvs)
  obtain k v where kv: "kv = (k, v)" by (cases kv)
  obtain h1 where h1: "insert_at h k v = Some (abs h k = None, h1)" "inv h1" "abs h1 = (abs h)(k \<mapsto> v)"
    using insert_law [OF Cons.prems] by blast
  obtain h2 where h2: "insert_count insert_at kvs h1 = Some (card (fst ` set kvs - dom (abs h1)), h2)"
    "inv h2" "abs h2 = abs h1 ++ map_of (rev kvs)" using Cons.IH [OF h1(2)] by blast
  let ?K = "fst ` set kvs - dom (abs h1)"
  have "fst ` set (kv # kvs) - dom (abs h) = (if abs h k = None then insert k ?K else ?K)"
    using kv h1(3) by auto
  moreover have "k \<notin> ?K" "finite ?K" using h1(3) by auto
  ultimately have n: "(if abs h k = None then card ?K + 1 else card ?K) = card (fst ` set (kv # kvs) - dom (abs h))"
    by simp
  have "insert_count insert_at (kv # kvs) h = Some (card (fst ` set (kv # kvs) - dom (abs h)), h2)"
    using h1(1) h2(1) n by (simp only: kv insert_count.simps Option.bind.simps prod.case)
  moreover have "abs h2 = abs h ++ map_of (rev (kv # kvs))" using h2(3) h1(3) kv by simp
  ultimately show ?case using h2(2) by blast
qed

lemma remove_all:
  "inv h \<Longrightarrow> \<exists>h'. remove_count remove ks h = Some (card (set ks \<inter> dom (abs h)), h') \<and> inv h'
     \<and> abs h' = abs h |` (- set ks)"
proof (induction ks arbitrary: h)
  case Nil
  then show ?case by simp
next
  case (Cons k ks)
  obtain h1 where h1: "remove h k = Some (abs h k, h1)" "inv h1" "abs h1 = (abs h)(k := None)"
    using remove_law [OF Cons.prems] by blast
  obtain h2 where h2: "remove_count remove ks h1 = Some (card (set ks \<inter> dom (abs h1)), h2)"
    "inv h2" "abs h2 = abs h1 |` (- set ks)" using Cons.IH [OF h1(2)] by blast
  let ?K = "set ks \<inter> dom (abs h1)"
  have "set (k # ks) \<inter> dom (abs h) = (if abs h k = None then ?K else insert k ?K)"
    using h1(3) by auto
  moreover have "k \<notin> ?K" "finite ?K" using h1(3) by auto
  ultimately have n: "(if abs h k \<noteq> None then card ?K + 1 else card ?K) = card (set (k # ks) \<inter> dom (abs h))"
    by simp
  have "remove_count remove (k # ks) h = Some (card (set (k # ks) \<inter> dom (abs h)), h2)"
    using h1(1) h2(1) n by (simp only: remove_count.simps Option.bind.simps prod.case)
  moreover have "abs h2 = abs h |` (- set (k # ks))" using h2(3) h1(3) by (auto simp: restrict_map_def fun_eq_iff)
  ultimately show ?case using h2(2) by blast
qed

lemma iter_length:
  assumes "inv h" "iter h = Some ps"
  shows "length ps = len h"
proof -
  have "distinct (map fst ps)" "map_of ps = abs h" using iter_law [OF assms(1)] assms(2) by auto
  then have "card (dom (abs h)) = length ps" by (metis distinct_card dom_map_of_conv_image_fst length_map set_map)
  then show ?thesis using len_law [OF assms(1)] by simp
qed

end

section \<open>Sets\<close>

locale set_adt =
  fixes abs :: "'s \<Rightarrow> bytes set"
    and inv :: "'s \<Rightarrow> bool"
    and new :: 's
    and insert_at :: "'s \<Rightarrow> bytes \<Rightarrow> (bool \<times> 's) option"
    and remove :: "'s \<Rightarrow> bytes \<Rightarrow> (bool \<times> 's) option"
    and contains :: "'s \<Rightarrow> bytes \<Rightarrow> bool option"
    and len :: "'s \<Rightarrow> nat"
    and members :: "'s \<Rightarrow> bytes list"
  assumes new_law: "inv new \<and> abs new = {}"
    and fin_law: "inv s \<Longrightarrow> finite (abs s)"
    and insert_law: "inv s \<Longrightarrow>
      \<exists>s'. insert_at s x = Some (x \<notin> abs s, s') \<and> inv s' \<and> abs s' = insert x (abs s)"
    and remove_law: "inv s \<Longrightarrow>
      \<exists>s'. remove s x = Some (x \<in> abs s, s') \<and> inv s' \<and> abs s' = abs s - {x}"
    and contains_law: "inv s \<Longrightarrow> contains s x = Some (x \<in> abs s)"
    and len_law: "inv s \<Longrightarrow> len s = card (abs s)"
    and members_law: "inv s \<Longrightarrow> distinct (members s) \<and> set (members s) = abs s"
begin

lemma add_all:
  "inv s \<Longrightarrow> \<exists>s'. member_count insert_at xs s = Some (card (set xs - abs s), s') \<and> inv s'
     \<and> abs s' = abs s \<union> set xs"
proof (induction xs arbitrary: s)
  case Nil
  then show ?case by simp
next
  case (Cons x xs)
  obtain s1 where s1: "insert_at s x = Some (x \<notin> abs s, s1)" "inv s1" "abs s1 = insert x (abs s)"
    using insert_law [OF Cons.prems] by blast
  obtain s2 where s2: "member_count insert_at xs s1 = Some (card (set xs - abs s1), s2)"
    "inv s2" "abs s2 = abs s1 \<union> set xs" using Cons.IH [OF s1(2)] by blast
  let ?K = "set xs - abs s1"
  have "set (x # xs) - abs s = (if x \<notin> abs s then insert x ?K else ?K)" using s1(3) by auto
  moreover have "x \<notin> ?K" "finite ?K" using s1(3) by auto
  ultimately have n: "(if x \<notin> abs s then card ?K + 1 else card ?K) = card (set (x # xs) - abs s)" by simp
  have "member_count insert_at (x # xs) s = Some (card (set (x # xs) - abs s), s2)"
    using s1(1) s2(1) n by (simp only: member_count.simps Option.bind.simps prod.case)
  moreover have "abs s2 = abs s \<union> set (x # xs)" using s2(3) s1(3) by auto
  ultimately show ?case using s2(2) by blast
qed

lemma remove_all:
  "inv s \<Longrightarrow> \<exists>s'. member_count remove xs s = Some (card (set xs \<inter> abs s), s') \<and> inv s'
     \<and> abs s' = abs s - set xs"
proof (induction xs arbitrary: s)
  case Nil
  then show ?case by simp
next
  case (Cons x xs)
  obtain s1 where s1: "remove s x = Some (x \<in> abs s, s1)" "inv s1" "abs s1 = abs s - {x}"
    using remove_law [OF Cons.prems] by blast
  obtain s2 where s2: "member_count remove xs s1 = Some (card (set xs \<inter> abs s1), s2)"
    "inv s2" "abs s2 = abs s1 - set xs" using Cons.IH [OF s1(2)] by blast
  let ?K = "set xs \<inter> abs s1"
  have "set (x # xs) \<inter> abs s = (if x \<in> abs s then insert x ?K else ?K)" using s1(3) by auto
  moreover have "x \<notin> ?K" "finite ?K" using s1(3) by auto
  ultimately have n: "(if x \<in> abs s then card ?K + 1 else card ?K) = card (set (x # xs) \<inter> abs s)" by simp
  have "member_count remove (x # xs) s = Some (card (set (x # xs) \<inter> abs s), s2)"
    using s1(1) s2(1) n by (simp only: member_count.simps Option.bind.simps prod.case)
  moreover have "abs s2 = abs s - set (x # xs)" using s2(3) s1(3) by auto
  ultimately show ?case using s2(2) by blast
qed

lemma length_members: "inv s \<Longrightarrow> length (members s) = len s"
  using members_law [of s] len_law [of s] distinct_card [of "members s"] by simp

end

end
