(* ===== verification/Collections.thy ===== *)
theory Collections
  imports IntParse CollADT "HOL-Library.AList" "HOL-Library.List_Lexorder"
begin

text \<open>
  The hash and set values of \<^verbatim>\<open>src/storage/value/collections.rs\<close>.  A hash is a flat vector of fields and
  values sorted by field up to 128 pairs and a hash map beyond that; a set is a sorted vector of
  integers while every member is a canonical integer, then a sorted vector of strings, then a hash set.
  Strings compare as their bytes, which is Rust's order on \<^verbatim>\<open>str\<close>.  A \<^verbatim>\<open>HashMap\<close> is an association list
  with distinct keys and a \<^verbatim>\<open>HashSet\<close> a list without repetition; their order stands for the iteration
  order, which the standard library leaves open and no lemma depends on.  An index out of range is
  \<^verbatim>\<open>None\<close>.
\<close>

section \<open>Searching a sorted vector\<close>

text \<open>The bisection loop of \<^verbatim>\<open>compact_find\<close>, over an accessor that can panic; \<^verbatim>\<open>slice::binary_search\<close> has
  the same contract.\<close>

function bisect :: "(nat \<Rightarrow> 'a::linorder option) \<Rightarrow> 'a \<Rightarrow> nat \<Rightarrow> nat \<Rightarrow> (nat + nat) option" where
  "bisect get x lo hi =
     (if lo < hi then
        (let mid = lo + (hi - lo) div 2 in do {
         y \<leftarrow> get mid;
         (if y < x then bisect get x (mid + 1) hi
          else if y = x then Some (Ok mid)
          else bisect get x lo mid) })
      else Some (Err lo))"
  by pat_completeness auto

termination
  by (relation "measure (\<lambda>(get, x, lo, hi). hi - lo)") auto

declare bisect.simps [simp del]

fun scan_find :: "bytes list \<Rightarrow> bytes \<Rightarrow> nat \<Rightarrow> nat \<Rightarrow> (nat + nat) option" where
  "scan_find v field i 0 = Some (Err i)"
| "scan_find v field i (Suc k) = do {
     f \<leftarrow> vget v (i * 2);
     (if f = field then Some (Ok i)
      else if f > field then Some (Err i)
      else scan_find v field (i + 1) k) }"

definition compact_find :: "bytes list \<Rightarrow> bytes \<Rightarrow> (nat + nat) option" where
  "compact_find v field =
     (let n = length v div 2 in
      if n \<le> 4 then scan_find v field 0 n
      else bisect (\<lambda>mid. vget v (mid * 2)) field 0 n)"

definition binary_search :: "'a::linorder list \<Rightarrow> 'a \<Rightarrow> (nat + nat) option" where
  "binary_search v x = bisect (vget v) x 0 (length v)"

section \<open>Hashes\<close>

definition COMPACT_THRESHOLD :: nat where "COMPACT_THRESHOLD = 128"

datatype hash_inner = HCompact "bytes list" | HFull "(bytes \<times> bytes) list"

definition hash_new :: hash_inner where
  "hash_new = HCompact []"

definition hash_with_capacity :: "nat \<Rightarrow> hash_inner" where
  "hash_with_capacity field_count = (if field_count \<le> COMPACT_THRESHOLD then HCompact [] else HFull [])"

definition hash_get :: "hash_inner \<Rightarrow> bytes \<Rightarrow> bytes option option" where
  "hash_get h field =
     (case h of
        HCompact v \<Rightarrow> do {
          r \<leftarrow> compact_find v field;
          (case r of Ok i \<Rightarrow> map_option Some (vget v (i * 2 + 1)) | Err _ \<Rightarrow> Some None) }
      | HFull m \<Rightarrow> Some (map_of m field))"

fun promote_loop :: "bytes list \<Rightarrow> (bytes \<times> bytes) list \<Rightarrow> (bytes \<times> bytes) list option" where
  "promote_loop [] m = Some m"
| "promote_loop [k] m = None"
| "promote_loop (k # val # v) m = promote_loop v (AList.update k val m)"

definition promote_hash :: "hash_inner \<Rightarrow> hash_inner option" where
  "promote_hash h =
     (case h of HCompact v \<Rightarrow> map_option HFull (promote_loop v []) | HFull m \<Rightarrow> Some h)"

fun flatten :: "('a \<times> 'a) list \<Rightarrow> 'a list" where
  "flatten [] = []"
| "flatten ((k, v) # ps) = k # v # flatten ps"

definition demote_hash :: "hash_inner \<Rightarrow> hash_inner" where
  "demote_hash h =
     (case h of
        HCompact v \<Rightarrow> h
      | HFull m \<Rightarrow> if length m > COMPACT_THRESHOLD div 2 then h
                   else HCompact (flatten (sort_key fst m)))"

definition hash_insert_field :: "hash_inner \<Rightarrow> bytes \<Rightarrow> bytes \<Rightarrow> (bool \<times> hash_inner) option" where
  "hash_insert_field h field value =
     (case h of
        HCompact v \<Rightarrow> do {
          r \<leftarrow> compact_find v field;
          (case r of
             Ok pair_idx \<Rightarrow> do { v' \<leftarrow> vset v (pair_idx * 2 + 1) value; Some (False, HCompact v') }
           | Err pos \<Rightarrow> do {
               let idx = pos * 2;
               v' \<leftarrow> (if idx = length v then Some (v @ [field] @ [value])
                      else do { v1 \<leftarrow> vinsert v idx field; vinsert v1 (idx + 1) value });
               h' \<leftarrow> (if length v' div 2 > COMPACT_THRESHOLD then promote_hash (HCompact v')
                      else Some (HCompact v'));
               Some (True, h') }) }
      | HFull m \<Rightarrow> Some (case map_of m field of
          Some _ \<Rightarrow> (False, HFull (AList.update field value m))
        | None \<Rightarrow> (True, HFull (AList.update field value m))))"

definition hash_insert_small :: "hash_inner \<Rightarrow> bytes \<Rightarrow> bytes \<Rightarrow> (bool \<times> hash_inner) option" where
  "hash_insert_small h field value =
     (case h of
        HCompact v \<Rightarrow> do {
          r \<leftarrow> compact_find v field;
          (case r of
             Ok pair_idx \<Rightarrow> do { v' \<leftarrow> vset v (pair_idx * 2 + 1) value; Some (False, HCompact v') }
           | Err pos \<Rightarrow> do {
               let idx = pos * 2;
               v1 \<leftarrow> vinsert v idx field;
               v' \<leftarrow> vinsert v1 (idx + 1) value;
               h' \<leftarrow> (if length v' div 2 > COMPACT_THRESHOLD then promote_hash (HCompact v')
                      else Some (HCompact v'));
               Some (True, h') }) }
      | HFull m \<Rightarrow> Some (map_of m field = None, HFull (AList.update field value m)))"

definition hash_insert :: "hash_inner \<Rightarrow> bytes \<Rightarrow> bytes \<Rightarrow> (bool \<times> hash_inner) option" where
  "hash_insert h field value = hash_insert_small h field value"

definition hash_insert_ref :: "hash_inner \<Rightarrow> bytes \<Rightarrow> bytes \<Rightarrow> (bool \<times> hash_inner) option" where
  "hash_insert_ref h field value = hash_insert_field h field value"

definition hash_insert_bytes :: "hash_inner \<Rightarrow> bytes \<Rightarrow> bytes \<Rightarrow> (bool \<times> hash_inner) option" where
  "hash_insert_bytes h field value = hash_insert_field h field value"

definition hash_remove :: "hash_inner \<Rightarrow> bytes \<Rightarrow> (bytes option \<times> hash_inner) option" where
  "hash_remove h field =
     (case h of
        HCompact v \<Rightarrow> do {
          r \<leftarrow> compact_find v field;
          (case r of
             Ok pair_idx \<Rightarrow> do {
               (_, v1) \<leftarrow> vremove v (pair_idx * 2);
               (val, v2) \<leftarrow> vremove v1 (pair_idx * 2);
               Some (Some val, HCompact v2) }
           | Err _ \<Rightarrow> Some (None, h)) }
      | HFull m \<Rightarrow>
          (let m' = AList.delete field m in
           Some (map_of m field,
                 if length m' \<le> COMPACT_THRESHOLD div 2 then demote_hash (HFull m') else HFull m')))"

definition hash_len :: "hash_inner \<Rightarrow> nat" where
  "hash_len h = (case h of HCompact v \<Rightarrow> length v div 2 | HFull m \<Rightarrow> length m)"

definition hash_is_empty :: "hash_inner \<Rightarrow> bool" where
  "hash_is_empty h \<longleftrightarrow> hash_len h = 0"

definition hash_contains_key :: "hash_inner \<Rightarrow> bytes \<Rightarrow> bool option" where
  "hash_contains_key h field = map_option (\<lambda>r. r \<noteq> None) (hash_get h field)"

fun step_by2 :: "'a list \<Rightarrow> 'a list" where
  "step_by2 [] = []"
| "step_by2 [x] = [x]"
| "step_by2 (x # _ # xs) = x # step_by2 xs"

definition hash_keys :: "hash_inner \<Rightarrow> bytes list" where
  "hash_keys h = (case h of HCompact v \<Rightarrow> step_by2 v | HFull m \<Rightarrow> map fst m)"

definition hash_values :: "hash_inner \<Rightarrow> bytes list" where
  "hash_values h = (case h of HCompact v \<Rightarrow> step_by2 (drop 1 v) | HFull m \<Rightarrow> map snd m)"

text \<open>The pairs that \<^verbatim>\<open>HashIter\<close> yields from index \<^verbatim>\<open>i\<close> on.\<close>

function hash_iter_from :: "bytes list \<Rightarrow> nat \<Rightarrow> (bytes \<times> bytes) list option" where
  "hash_iter_from v i =
     (if i \<ge> length v then Some []
      else do {
        k \<leftarrow> vget v i;
        val \<leftarrow> vget v (i + 1);
        ps \<leftarrow> hash_iter_from v (i + 2);
        Some ((k, val) # ps) })"
  by pat_completeness auto

termination
  by (relation "measure (\<lambda>(v, i). length v - i)") auto

declare hash_iter_from.simps [simp del]

definition hash_iter :: "hash_inner \<Rightarrow> (bytes \<times> bytes) list option" where
  "hash_iter h = (case h of HCompact v \<Rightarrow> hash_iter_from v 0 | HFull m \<Rightarrow> Some m)"

section \<open>Sets\<close>

datatype set_inner = SIntegers "int list" | SCompact "bytes list" | SFull "bytes list"

definition set_new :: set_inner where
  "set_new = SIntegers []"

definition promote_set :: "set_inner \<Rightarrow> set_inner" where
  "promote_set s =
     (case s of SCompact v \<Rightarrow> SFull (foldl (\<lambda>acc item. List.insert item acc) [] v) | _ \<Rightarrow> s)"

definition demote_set :: "set_inner \<Rightarrow> set_inner" where
  "demote_set s =
     (case s of
        SFull m \<Rightarrow> if length m > COMPACT_THRESHOLD div 2 then s else SCompact (sort m)
      | _ \<Rightarrow> s)"

definition set_insert_small :: "set_inner \<Rightarrow> bytes \<Rightarrow> (bool \<times> set_inner) option" where
  "set_insert_small s member =
     (case s of
        SIntegers v \<Rightarrow>
          (case canonical_i64 member of
             Some n \<Rightarrow> do {
               r \<leftarrow> binary_search v n;
               (case r of
                  Ok _ \<Rightarrow> Some (False, s)
                | Err pos \<Rightarrow> do { v' \<leftarrow> vinsert v pos n; Some (True, SIntegers v') }) }
           | None \<Rightarrow> do {
               strings \<leftarrow> those (map (write_int_to (replicate 20 0)) v);
               Some (True, SCompact (sort (strings @ [member]))) })
      | SCompact v \<Rightarrow> do {
          r \<leftarrow> binary_search v member;
          (case r of
             Ok _ \<Rightarrow> Some (False, s)
           | Err pos \<Rightarrow> do {
               v' \<leftarrow> vinsert v pos member;
               Some (True, if length v' > COMPACT_THRESHOLD then promote_set (SCompact v')
                           else SCompact v') }) }
      | SFull m \<Rightarrow> Some (member \<notin> set m, SFull (List.insert member m)))"

definition set_insert :: "set_inner \<Rightarrow> bytes \<Rightarrow> (bool \<times> set_inner) option" where
  "set_insert s member = set_insert_small s member"

definition set_insert_str :: "set_inner \<Rightarrow> bytes \<Rightarrow> (bool \<times> set_inner) option" where
  "set_insert_str s member = set_insert_small s member"

fun set_insert_all :: "bytes list \<Rightarrow> set_inner \<Rightarrow> set_inner option" where
  "set_insert_all [] s = Some s"
| "set_insert_all (x # xs) s = do { (_, s') \<leftarrow> set_insert s x; set_insert_all xs s' }"

definition set_from_strings :: "bytes list \<Rightarrow> set_inner option" where
  "set_from_strings values = set_insert_all values set_new"

definition set_remove :: "set_inner \<Rightarrow> bytes \<Rightarrow> (bool \<times> set_inner) option" where
  "set_remove s member =
     (case s of
        SIntegers v \<Rightarrow>
          (case canonical_i64 member of
             None \<Rightarrow> Some (False, s)
           | Some n \<Rightarrow> do {
               r \<leftarrow> binary_search v n;
               (case r of
                  Ok pos \<Rightarrow> do { (_, v') \<leftarrow> vremove v pos; Some (True, SIntegers v') }
                | Err _ \<Rightarrow> Some (False, s)) })
      | SCompact v \<Rightarrow> do {
          r \<leftarrow> binary_search v member;
          (case r of
             Ok pos \<Rightarrow> do { (_, v') \<leftarrow> vremove v pos; Some (True, SCompact v') }
           | Err _ \<Rightarrow> Some (False, s)) }
      | SFull m \<Rightarrow>
          (let m' = removeAll member m in
           Some (member \<in> set m,
                 if length m' \<le> COMPACT_THRESHOLD div 2 then demote_set (SFull m') else SFull m')))"

definition set_contains :: "set_inner \<Rightarrow> bytes \<Rightarrow> bool option" where
  "set_contains s member =
     (case s of
        SIntegers v \<Rightarrow>
          (case canonical_i64 member of
             None \<Rightarrow> Some False
           | Some n \<Rightarrow> do { r \<leftarrow> binary_search v n; Some (case r of Ok _ \<Rightarrow> True | Err _ \<Rightarrow> False) })
      | SCompact v \<Rightarrow> do { r \<leftarrow> binary_search v member; Some (case r of Ok _ \<Rightarrow> True | Err _ \<Rightarrow> False) }
      | SFull m \<Rightarrow> Some (member \<in> set m))"

definition set_len :: "set_inner \<Rightarrow> nat" where
  "set_len s = (case s of SIntegers v \<Rightarrow> length v | SCompact v \<Rightarrow> length v | SFull m \<Rightarrow> length m)"

definition set_is_empty :: "set_inner \<Rightarrow> bool" where
  "set_is_empty s \<longleftrightarrow> set_len s = 0"

datatype set_member_ref = MInteger int | MString bytes

definition set_iter :: "set_inner \<Rightarrow> set_member_ref list" where
  "set_iter s =
     (case s of SIntegers v \<Rightarrow> map MInteger v | SCompact v \<Rightarrow> map MString v | SFull m \<Rightarrow> map MString m)"

definition member_to_string :: "set_member_ref \<Rightarrow> bytes" where
  "member_to_string m = (case m of MInteger n \<Rightarrow> idec n | MString s \<Rightarrow> s)"

definition member_len :: "set_member_ref \<Rightarrow> nat option" where
  "member_len m =
     (case m of
        MString s \<Rightarrow> Some (length s)
      | MInteger n \<Rightarrow> map_option length (write_int_to (replicate 20 0) n))"

definition member_matches :: "set_member_ref \<Rightarrow> bytes \<Rightarrow> bool" where
  "member_matches m value =
     (case m of MInteger n \<Rightarrow> canonical_i64 value = Some n | MString s \<Rightarrow> s = value)"

section \<open>Abstraction and invariants\<close>

text \<open>A search result is right for a sorted vector of keys: the index of the key, or where it belongs.\<close>

definition found :: "'a::linorder list \<Rightarrow> 'a \<Rightarrow> nat + nat \<Rightarrow> bool" where
  "found ks x r =
     (case r of
        Ok i \<Rightarrow> i < length ks \<and> ks ! i = x
      | Err i \<Rightarrow> i \<le> length ks \<and> (\<forall>y\<in>set (take i ks). y < x) \<and> (\<forall>y\<in>set (drop i ks). x < y))"

fun pairs :: "'a list \<Rightarrow> ('a \<times> 'a) list" where
  "pairs (k # v # xs) = (k, v) # pairs xs"
| "pairs _ = []"

definition hash_pairs :: "hash_inner \<Rightarrow> (bytes \<times> bytes) list" where
  "hash_pairs h = (case h of HCompact v \<Rightarrow> pairs v | HFull m \<Rightarrow> m)"

definition hash_abs :: "hash_inner \<Rightarrow> bytes \<rightharpoonup> bytes" where
  "hash_abs h = map_of (hash_pairs h)"

definition hash_inv :: "hash_inner \<Rightarrow> bool" where
  "hash_inv h =
     (case h of
        HCompact v \<Rightarrow> even (length v) \<and> sorted_wrt (<) (map fst (pairs v)) \<and> length v div 2 \<le> COMPACT_THRESHOLD
      | HFull m \<Rightarrow> distinct (map fst m))"

definition set_abs :: "set_inner \<Rightarrow> bytes set" where
  "set_abs s = (case s of SIntegers v \<Rightarrow> idec ` set v | SCompact v \<Rightarrow> set v | SFull m \<Rightarrow> set m)"

definition set_inv :: "set_inner \<Rightarrow> bool" where
  "set_inv s =
     (case s of
        SIntegers v \<Rightarrow> sorted_wrt (<) v \<and> (\<forall>n\<in>set v. in_i64 n)
      | SCompact v \<Rightarrow> sorted_wrt (<) v
      | SFull m \<Rightarrow> distinct m)"

definition set_members :: "set_inner \<Rightarrow> bytes list" where
  "set_members s = map member_to_string (set_iter s)"

text \<open>
  Sequences of operations, on the containers and on the finite map and the finite set they stand for.
\<close>

datatype hash_op = HSet bytes bytes | HDel bytes | HGet bytes | HLen

datatype hash_out = OWasNew bool | OValue "bytes option" | OCount nat

fun hash_step :: "hash_op \<Rightarrow> hash_inner \<Rightarrow> (hash_out \<times> hash_inner) option" where
  "hash_step (HSet f v) h = map_option (\<lambda>(b, h'). (OWasNew b, h')) (hash_insert_field h f v)"
| "hash_step (HDel f) h = map_option (\<lambda>(r, h'). (OValue r, h')) (hash_remove h f)"
| "hash_step (HGet f) h = map_option (\<lambda>r. (OValue r, h)) (hash_get h f)"
| "hash_step HLen h = Some (OCount (hash_len h), h)"

fun map_step :: "hash_op \<Rightarrow> (bytes \<rightharpoonup> bytes) \<Rightarrow> hash_out \<times> (bytes \<rightharpoonup> bytes)" where
  "map_step (HSet f v) m = (OWasNew (m f = None), m(f \<mapsto> v))"
| "map_step (HDel f) m = (OValue (m f), m(f := None))"
| "map_step (HGet f) m = (OValue (m f), m)"
| "map_step HLen m = (OCount (card (dom m)), m)"

datatype set_op = SAdd bytes | SRem bytes | SHas bytes | SCard

datatype set_out = OChanged bool | OIsMember bool | OSize nat

fun set_step :: "set_op \<Rightarrow> set_inner \<Rightarrow> (set_out \<times> set_inner) option" where
  "set_step (SAdd x) s = map_option (\<lambda>(b, s'). (OChanged b, s')) (set_insert_small s x)"
| "set_step (SRem x) s = map_option (\<lambda>(b, s'). (OChanged b, s')) (set_remove s x)"
| "set_step (SHas x) s = map_option (\<lambda>b. (OIsMember b, s)) (set_contains s x)"
| "set_step SCard s = Some (OSize (set_len s), s)"

fun fset_step :: "set_op \<Rightarrow> bytes set \<Rightarrow> set_out \<times> bytes set" where
  "fset_step (SAdd x) A = (OChanged (x \<notin> A), insert x A)"
| "fset_step (SRem x) A = (OChanged (x \<in> A), A - {x})"
| "fset_step (SHas x) A = (OIsMember (x \<in> A), A)"
| "fset_step SCard A = (OSize (card A), A)"

fun run_steps :: "('x \<Rightarrow> 's \<Rightarrow> ('o \<times> 's) option) \<Rightarrow> 'x list \<Rightarrow> 's \<Rightarrow> ('o list \<times> 's) option" where
  "run_steps step [] s = Some ([], s)"
| "run_steps step (x # xs) s = do { (r, s1) \<leftarrow> step x s; (rs, s2) \<leftarrow> run_steps step xs s1; Some (r # rs, s2) }"

fun run_spec :: "('x \<Rightarrow> 'a \<Rightarrow> 'o \<times> 'a) \<Rightarrow> 'x list \<Rightarrow> 'a \<Rightarrow> 'o list \<times> 'a" where
  "run_spec step [] a = ([], a)"
| "run_spec step (x # xs) a = (let (r, a1) = step x a; (rs, a2) = run_spec step xs a1 in (r # rs, a2))"

section \<open>Searching\<close>

lemma found_Err: "found ks x (Err i) \<Longrightarrow> x \<notin> set ks"
proof -
  assume "found ks x (Err i)"
  then have "x \<notin> set (take i ks @ drop i ks)" unfolding set_append by (auto simp: found_def)
  then show ?thesis by simp
qed

lemma sorted_wrt_take_drop:
  "sorted_wrt R ks \<Longrightarrow> sorted_wrt R (take i ks) \<and> sorted_wrt R (drop i ks)
     \<and> (\<forall>a\<in>set (take i ks). \<forall>b\<in>set (drop i ks). R a b)"
  using sorted_wrt_append [of R "take i ks" "drop i ks"] by simp

lemma set_drop_nth: "i < length ks \<Longrightarrow> set (drop i ks) = insert (ks ! i) (set (drop (Suc i) ks))"
  by (simp add: Cons_nth_drop_Suc [symmetric])

lemma set_take_nth: "i < length ks \<Longrightarrow> set (take (Suc i) ks) = insert (ks ! i) (set (take i ks))"
  by (simp add: take_Suc_conv_app_nth)

lemma sorted_wrt_at:
  assumes "sorted_wrt R ks" "i < length ks"
  shows "\<forall>a\<in>set (take i ks). R a (ks ! i)" "\<forall>b\<in>set (drop (Suc i) ks). R (ks ! i) b"
  using sorted_wrt_take_drop [OF assms(1), of i] sorted_wrt_take_drop [OF assms(1), of "Suc i"] assms(2)
  by (auto simp: set_drop_nth set_take_nth)

lemma found_insert: "sorted_wrt (<) ks \<Longrightarrow> found ks x (Err i) \<Longrightarrow> sorted_wrt (<) (take i ks @ x # drop i ks)"
  using sorted_wrt_take_drop [of "(<)" ks i] by (auto simp: found_def sorted_wrt_append)

lemma bisect_found:
  "sorted_wrt (<) ks \<Longrightarrow> (\<And>i. i < length ks \<Longrightarrow> get i = Some (ks ! i)) \<Longrightarrow> lo \<le> hi \<Longrightarrow> hi \<le> length ks \<Longrightarrow>
   (\<forall>y\<in>set (take lo ks). y < x) \<Longrightarrow> (\<forall>y\<in>set (drop hi ks). x < y) \<Longrightarrow>
   \<exists>r. bisect get x lo hi = Some r \<and> found ks x r"
proof (induction get x lo hi rule: bisect.induct)
  case (1 get x lo hi)
  show ?case
  proof (cases "lo < hi")
    case False
    then show ?thesis using 1(5-8) by (subst bisect.simps) (simp add: found_def)
  next
    case True
    let ?mid = "lo + (hi - lo) div 2"
    have m: "lo \<le> ?mid" "?mid < hi" "?mid < length ks" using True 1(6) by auto
    have g: "get ?mid = Some (ks ! ?mid)" using 1(4) m(3) by simp
    note st = sorted_wrt_at [OF 1(3) m(3)]
    consider "ks ! ?mid < x" | "ks ! ?mid = x" | "x < ks ! ?mid" by (rule linorder_cases)
    then show ?thesis
    proof cases
      case 1
      have "\<forall>y\<in>set (take (Suc ?mid) ks). y < x"
        using st 1 m(3) by (auto simp: set_take_nth dest: less_trans)
      then have "\<exists>r. bisect get x (?mid + 1) hi = Some r \<and> found ks x r"
        using "1.IH"(1) [OF True refl g] 1 "1.prems" m by simp
      then show ?thesis using True g 1 by (subst bisect.simps) (simp add: Let_def)
    next
      case 2
      then show ?thesis using True g m(3) by (subst bisect.simps) (simp add: Let_def found_def)
    next
      case 3
      have "\<forall>y\<in>set (drop ?mid ks). x < y"
        using st 3 m(3) by (auto simp: set_drop_nth dest: less_trans)
      then have "\<exists>r. bisect get x lo ?mid = Some r \<and> found ks x r"
        using "1.IH"(2) [OF True refl g] 3 "1.prems" m by simp
      moreover have "\<not> ks ! ?mid < x" "ks ! ?mid \<noteq> x" using 3 by auto
      ultimately show ?thesis using True g by (subst bisect.simps) (simp add: Let_def)
    qed
  qed
qed

lemma binary_search_found: "sorted_wrt (<) v \<Longrightarrow> \<exists>r. binary_search v x = Some r \<and> found v x r"
  unfolding binary_search_def by (intro bisect_found) (auto simp: vget_def)

lemma length_pairs: "length (pairs v) = length v div 2"
  by (induction v rule: pairs.induct) auto

lemma pairs_nth:
  "i < length v div 2 \<Longrightarrow> vget v (i * 2) = Some (fst (pairs v ! i)) \<and> vget v (i * 2 + 1) = Some (snd (pairs v ! i))"
proof (induction v arbitrary: i rule: pairs.induct)
  case (1 k val xs)
  show ?case
  proof (cases i)
    case (Suc j)
    then show ?thesis using 1(1) [of j] 1(2) by (simp add: vget_def split: if_splits)
  qed (use 1 in \<open>simp add: vget_def\<close>)
qed auto

lemma flatten_pairs: "even (length v) \<Longrightarrow> flatten (pairs v) = v"
  by (induction v rule: pairs.induct) auto

lemma pairs_flatten [simp]: "pairs (flatten ps) = ps"
  by (induction ps rule: flatten.induct) auto

lemma length_flatten [simp]: "length (flatten ps) = 2 * length ps"
  by (induction ps rule: flatten.induct) auto

lemma flatten_append [simp]: "flatten (ps @ qs) = flatten ps @ flatten qs"
  by (induction ps rule: flatten.induct) auto

lemma scan_found:
  "sorted_wrt (<) (map fst (pairs v)) \<Longrightarrow> i + k = length v div 2 \<Longrightarrow>
   (\<forall>y\<in>set (take i (map fst (pairs v))). y < x) \<Longrightarrow>
   \<exists>r. scan_find v x i k = Some r \<and> found (map fst (pairs v)) x r"
proof (induction v x i k rule: scan_find.induct)
  case (1 v field i)
  then show ?case by (simp add: found_def length_pairs)
next
  case (2 v x i k)
  let ?ks = "map fst (pairs v)"
  have i: "i < length ?ks" "i < length v div 2" using 2(3) by (auto simp: length_pairs)
  have g: "vget v (i * 2) = Some (?ks ! i)" using pairs_nth [OF i(2)] i(1) by simp
  note st = sorted_wrt_at [OF 2(2) i(1)]
  consider "?ks ! i < x" | "?ks ! i = x" | "x < ?ks ! i" by (rule linorder_cases)
  then show ?case
  proof cases
    case 1
    have "\<forall>y\<in>set (take (Suc i) ?ks). y < x" using 1 i(1) "2.prems"(3)
      by (simp add: set_take_nth)
    then have "\<exists>r. scan_find v x (i + 1) k = Some r \<and> found ?ks x r"
      using 1 "2.prems" by (intro "2.IH" [OF g]) auto
    moreover have "?ks ! i \<noteq> x" "\<not> x < ?ks ! i" using 1 by auto
    ultimately show ?thesis using g by (simp del: nth_map)
  next
    case 2
    then show ?thesis using g i(1) by (simp add: found_def)
  next
    case 3
    have "\<forall>y\<in>set (drop i ?ks). x < y"
      using st 3 i(1) by (auto simp: set_drop_nth dest: less_trans simp del: nth_map)
    moreover have "?ks ! i \<noteq> x" using 3 by auto
    ultimately show ?thesis using g 3 i(1) "2.prems"(3) by (simp add: found_def del: nth_map)
  qed
qed

lemma compact_find_found:
  assumes "sorted_wrt (<) (map fst (pairs v))"
  shows "\<exists>r. compact_find v x = Some r \<and> found (map fst (pairs v)) x r"
proof (cases "length v div 2 \<le> 4")
  case True
  then show ?thesis using scan_found [OF assms, of 0 "length v div 2" x] by (simp add: compact_find_def)
next
  case False
  have "\<exists>r. bisect (\<lambda>mid. vget v (mid * 2)) x 0 (length v div 2) = Some r \<and> found (map fst (pairs v)) x r"
    using assms pairs_nth by (intro bisect_found) (auto simp: length_pairs)
  with False show ?thesis by (simp add: compact_find_def)
qed

section \<open>Hashes\<close>

lemma map_of_nth_key: "distinct (map fst ps) \<Longrightarrow> i < length ps \<Longrightarrow> fst (ps ! i) = x \<Longrightarrow> map_of ps x = Some (snd (ps ! i))"
  by (metis map_of_eq_Some_iff nth_mem prod.collapse)

lemma strict_distinct: "sorted_wrt (<) (ks :: 'a::linorder list) \<Longrightarrow> distinct ks"
  using strict_sorted_iff by blast

lemma hash_abs_simps [simp]: "hash_abs (HCompact v) = map_of (pairs v)" "hash_abs (HFull m) = map_of m"
  by (simp_all add: hash_abs_def hash_pairs_def)

lemma hash_inv_simps [simp]:
  "hash_inv (HCompact v) \<longleftrightarrow> even (length v) \<and> sorted_wrt (<) (map fst (pairs v)) \<and> length v div 2 \<le> COMPACT_THRESHOLD"
  "hash_inv (HFull m) \<longleftrightarrow> distinct (map fst m)"
  by (simp_all add: hash_inv_def)

lemma hash_new_law: "hash_inv hash_new \<and> hash_abs hash_new = Map.empty"
  by (simp add: hash_new_def)

lemma hash_with_capacity_law: "hash_inv (hash_with_capacity n) \<and> hash_abs (hash_with_capacity n) = Map.empty"
  by (simp add: hash_with_capacity_def)

lemma hash_get_law:
  assumes "hash_inv h"
  shows "hash_get h f = Some (hash_abs h f)"
proof (cases h)
  case (HCompact v)
  let ?ks = "map fst (pairs v)"
  have s: "sorted_wrt (<) ?ks" using assms HCompact by simp
  obtain r where r: "compact_find v f = Some r" "found ?ks f r" using compact_find_found [OF s] by blast
  show ?thesis
  proof (cases r)
    case (Inl i)
    then have "f \<notin> set ?ks" using r(2) found_Err by blast
    then have "map_of (pairs v) f = None" by (simp add: map_of_eq_None_iff)
    then show ?thesis using HCompact Inl r(1) by (simp add: hash_get_def)
  next
    case (Inr i)
    then have i: "i < length (pairs v)" "fst (pairs v ! i) = f" using r(2) by (auto simp: found_def)
    then have "map_of (pairs v) f = Some (snd (pairs v ! i))"
      by (rule map_of_nth_key [OF strict_distinct [OF s]])
    moreover have "vget v (i * 2 + 1) = Some (snd (pairs v ! i))" using pairs_nth [of i v] i(1) by (simp add: length_pairs)
    ultimately show ?thesis using HCompact Inr r(1) by (simp add: hash_get_def)
  qed
qed (simp add: hash_get_def)

lemma promote_loop_flatten:
  "promote_loop (flatten ps) m = Some (foldl (\<lambda>m (k, v). AList.update k v m) m ps)"
  by (induction ps arbitrary: m rule: flatten.induct) auto

lemma promote_fold:
  "distinct (map fst (m @ ps)) \<Longrightarrow> foldl (\<lambda>m (k, v). AList.update k v m) m ps = m @ ps"
proof (induction ps arbitrary: m)
  case (Cons p ps)
  obtain k v where p: "p = (k, v)" by (cases p)
  have "k \<notin> fst ` set m" using Cons.prems p by auto
  then have "AList.update k v m = m @ [(k, v)]" by (induction m) auto
  then show ?case using Cons.IH [of "m @ [(k, v)]"] Cons.prems p by simp
qed simp

lemma promote_hash_law:
  assumes "even (length v)" "sorted_wrt (<) (map fst (pairs v))"
  shows "promote_hash (HCompact v) = Some (HFull (pairs v))"
  using promote_loop_flatten [of "pairs v" "[]"] promote_fold [of "[]" "pairs v"]
    flatten_pairs [OF assms(1)] strict_distinct [OF assms(2)] by (simp add: promote_hash_def)

lemma demote_hash_law:
  assumes "distinct (map fst m)"
  shows "hash_inv (demote_hash (HFull m)) \<and> hash_abs (demote_hash (HFull m)) = map_of m"
proof (cases "length m > COMPACT_THRESHOLD div 2")
  case True
  then show ?thesis using assms by (simp add: demote_hash_def)
next
  case False
  have s: "sorted (map fst (sort_key fst m))" "distinct (map fst (sort_key fst m))"
    using assms by (auto simp: distinct_map)
  then have "sorted_wrt (<) (map fst (sort_key fst m))" by (simp add: strict_sorted_iff)
  moreover have "map_of (sort_key fst m) = map_of m"
    using s(2) assms by (intro map_of_inject_set [THEN iffD2]) auto
  ultimately show ?thesis using False by (simp add: demote_hash_def COMPACT_THRESHOLD_def)
qed

lemma map_of_insert_at:
  "x \<notin> fst ` set ps \<Longrightarrow> map_of (take i ps @ (x, y) # drop i ps) = (map_of ps)(x \<mapsto> y)"
proof -
  assume x: "x \<notin> fst ` set ps"
  have "map_of ps = map_of (take i ps @ drop i ps)" by simp
  also have "\<dots> = map_of (drop i ps) ++ map_of (take i ps)" by (rule map_of_append)
  finally have "map_of ps = map_of (drop i ps) ++ map_of (take i ps)" .
  moreover have "x \<notin> dom (map_of (take i ps))" using x by (auto simp: dom_map_of_conv_image_fst dest: in_set_takeD)
  ultimately show ?thesis by (simp add: map_add_upd_left map_of_append)
qed

lemma flatten_take: "take (2 * i) (flatten ps) = flatten (take i ps)"
  by (induction ps arbitrary: i rule: flatten.induct) (auto simp: take_Cons split: nat.splits)

lemma flatten_drop: "drop (2 * i) (flatten ps) = flatten (drop i ps)"
  by (induction ps arbitrary: i rule: flatten.induct) (auto simp: drop_Cons split: nat.splits)

lemma flatten_update: "i < length ps \<Longrightarrow> (flatten ps)[2 * i + 1 := v] = flatten (ps[i := (fst (ps ! i), v)])"
  by (induction ps arbitrary: i rule: flatten.induct) (auto split: nat.splits)

lemma pair_insert:
  assumes "even (length v)" "i \<le> length v div 2"
  shows "vinsert v (i * 2) f = Some (take (2 * i) v @ f # drop (2 * i) v)"
    "vinsert (take (2 * i) v @ f # drop (2 * i) v) (i * 2 + 1) x = Some (flatten (take i (pairs v) @ (f, x) # drop i (pairs v)))"
proof -
  have l: "2 * i \<le> length v" using assms by (auto elim!: evenE)
  then show "vinsert v (i * 2) f = Some (take (2 * i) v @ f # drop (2 * i) v)" by (simp add: vinsert_def mult.commute)
  have m: "min (length (pairs v)) i = i" using assms(2) by (simp add: length_pairs)
  show "vinsert (take (2 * i) v @ f # drop (2 * i) v) (i * 2 + 1) x = Some (flatten (take i (pairs v) @ (f, x) # drop i (pairs v)))"
    using flatten_take [of i "pairs v"] flatten_drop [of i "pairs v"] flatten_pairs [OF assms(1)] l m
    by (simp add: vinsert_def mult.commute)
qed

lemma hash_grow:
  fixes x :: bytes
  assumes v: "even (length v)" "sorted_wrt (<) (map fst (pairs v))" and f: "found (map fst (pairs v)) f (Err i)"
  defines "ps \<equiv> take i (pairs v) @ (f, x) # drop i (pairs v)"
  shows "\<exists>h'. (if length (flatten ps) div 2 > COMPACT_THRESHOLD then promote_hash (HCompact (flatten ps))
      else Some (HCompact (flatten ps))) = Some h' \<and> hash_inv h' \<and> hash_abs h' = (map_of (pairs v))(f \<mapsto> x)
      \<and> map_of (pairs v) f = None"
proof -
  have fn: "f \<notin> fst ` set (pairs v)" using found_Err [OF f] by simp
  have "map fst ps = take i (map fst (pairs v)) @ f # drop i (map fst (pairs v))"
    by (simp add: ps_def take_map drop_map)
  then have s: "sorted_wrt (<) (map fst ps)" using found_insert [OF v(2) f] by simp
  have a: "map_of ps = (map_of (pairs v))(f \<mapsto> x)" unfolding ps_def by (rule map_of_insert_at [OF fn])
  show ?thesis
    using promote_hash_law [of "flatten ps"] s a fn strict_distinct [OF s] by (auto simp: map_of_eq_None_iff)
qed

lemma map_of_split:
  assumes "distinct (map fst ps)" "i < length ps" "fst (ps ! i) = f"
  shows "map_of ps = (map_of (drop (Suc i) ps))(f \<mapsto> snd (ps ! i)) ++ map_of (take i ps)"
    "f \<notin> dom (map_of (take i ps))" "f \<notin> dom (map_of (drop (Suc i) ps))"
proof -
  have e: "ps = take i ps @ (f, snd (ps ! i)) # drop (Suc i) ps"
    using assms(2,3) by (metis id_take_nth_drop prod.collapse)
  show "map_of ps = (map_of (drop (Suc i) ps))(f \<mapsto> snd (ps ! i)) ++ map_of (take i ps)"
    by (subst e) (simp add: map_of_append)
  have "distinct (map fst (take i ps @ (f, snd (ps ! i)) # drop (Suc i) ps))" using assms(1) e by simp
  then show "f \<notin> dom (map_of (take i ps))" "f \<notin> dom (map_of (drop (Suc i) ps))"
    by (auto simp: dom_map_of_conv_image_fst)
qed

lemma map_of_update_at:
  assumes "distinct (map fst ps)" "i < length ps" "fst (ps ! i) = f"
  shows "map_of (ps[i := (f, x)]) = (map_of ps)(f \<mapsto> x)"
  using map_of_split [OF assms] assms(2)
  by (simp add: upd_conv_take_nth_drop map_of_append map_add_upd_left)

lemma map_of_remove_at:
  assumes "distinct (map fst ps)" "i < length ps" "fst (ps ! i) = f"
  shows "map_of (take i ps @ drop (Suc i) ps) = (map_of ps)(f := None)"
  using map_of_split [OF assms]
  by (auto simp: map_of_append map_add_upd_left fun_eq_iff map_add_def dom_def split: option.splits)

lemma hash_replace:
  assumes v: "even (length v)" "sorted_wrt (<) (map fst (pairs v))" and f: "found (map fst (pairs v)) f (Ok i)"
  shows "\<exists>v'. vset v (i * 2 + 1) x = Some v' \<and> length v' = length v \<and> sorted_wrt (<) (map fst (pairs v'))
      \<and> map_of (pairs v') = (map_of (pairs v))(f \<mapsto> x) \<and> map_of (pairs v) f \<noteq> None"
proof -
  have i: "i < length (pairs v)" "fst (pairs v ! i) = f" using f by (auto simp: found_def)
  let ?ps = "(pairs v)[i := (f, x)]"
  have vs: "vset v (i * 2 + 1) x = Some (flatten ?ps)"
  proof -
    have "i * 2 + 1 < length v" using i(1) v(1) by (auto simp: length_pairs elim!: evenE)
    moreover have "v[2 * i + 1 := x] = flatten ?ps"
      using flatten_update [OF i(1), of x] flatten_pairs [OF v(1)] i(2) by simp
    ultimately show ?thesis by (simp add: vset_def mult.commute)
  qed
  have k: "map fst ?ps = map fst (pairs v)" using i by (simp add: map_update list_update_same_conv)
  have d: "distinct (map fst (pairs v))" using strict_distinct [OF v(2)] .
  have "map_of ?ps = (map_of (pairs v))(f \<mapsto> x)" using map_of_update_at [OF d i] .
  moreover have "map_of (pairs v) f \<noteq> None" using map_of_nth_key [OF d i] by simp
  ultimately show ?thesis using vs k v length_pairs [of v] by (auto elim!: evenE)
qed

lemma hash_insert_small_law:
  assumes "hash_inv h"
  shows "\<exists>h'. hash_insert_small h f x = Some (hash_abs h f = None, h') \<and> hash_inv h' \<and> hash_abs h' = (hash_abs h)(f \<mapsto> x)"
proof (cases h)
  case (HCompact v)
  have v: "even (length v)" "sorted_wrt (<) (map fst (pairs v))" "length v div 2 \<le> COMPACT_THRESHOLD"
    using assms HCompact by auto
  obtain r where r: "compact_find v f = Some r" "found (map fst (pairs v)) f r" using compact_find_found [OF v(2)] by blast
  show ?thesis
  proof (cases r)
    case (Inl i)
    have i: "i \<le> length v div 2" using r(2) Inl by (simp add: found_def length_pairs)
    show ?thesis using hash_grow [OF v(1,2), of f i x] pair_insert [OF v(1) i] r Inl HCompact
      by (auto simp: hash_insert_small_def Let_def)
  next
    case (Inr i)
    then show ?thesis using hash_replace [OF v(1,2), of f i x] r v HCompact by (auto simp: hash_insert_small_def)
  qed
next
  case (HFull m)
  then show ?thesis using assms by (simp add: hash_insert_small_def distinct_update update_conv')
qed

lemma hash_insert_field_eq: "hash_inv h \<Longrightarrow> hash_insert_field h f x = hash_insert_small h f x"
proof (cases h)
  case (HCompact v)
  assume "hash_inv h"
  then have v: "even (length v)" using HCompact by simp
  have "vinsert v (length v) f = Some (v @ [f])" "vinsert (v @ [f]) (length v + 1) x = Some (v @ [f] @ [x])"
    by (simp_all add: vinsert_def)
  then show ?thesis using HCompact
    by (auto simp: hash_insert_field_def hash_insert_small_def Let_def split: sum.splits Option.bind_splits)
next
  case (HFull m)
  then show ?thesis by (simp add: hash_insert_field_def hash_insert_small_def split: option.splits)
qed

lemma hash_insert_field_law:
  "hash_inv h \<Longrightarrow>
   \<exists>h'. hash_insert_field h f x = Some (hash_abs h f = None, h') \<and> hash_inv h' \<and> hash_abs h' = (hash_abs h)(f \<mapsto> x)"
  using hash_insert_small_law hash_insert_field_eq by simp

lemma hash_remove_law:
  assumes "hash_inv h"
  shows "\<exists>h'. hash_remove h f = Some (hash_abs h f, h') \<and> hash_inv h' \<and> hash_abs h' = (hash_abs h)(f := None)"
proof (cases h)
  case (HCompact v)
  let ?ks = "map fst (pairs v)"
  have v: "even (length v)" "sorted_wrt (<) ?ks" "length v div 2 \<le> COMPACT_THRESHOLD"
    using assms HCompact by auto
  obtain r where r: "compact_find v f = Some r" "found ?ks f r" using compact_find_found [OF v(2)] by blast
  show ?thesis
  proof (cases r)
    case (Inl i)
    then have "map_of (pairs v) f = None" using found_Err [of ?ks f i] r(2) by (simp add: map_of_eq_None_iff)
    then show ?thesis using r(1) Inl HCompact assms by (auto simp: hash_remove_def)
  next
    case (Inr i)
    then have i: "i < length (pairs v)" "fst (pairs v ! i) = f" using r(2) by (auto simp: found_def)
    have d: "distinct ?ks" using strict_distinct [OF v(2)] .
    let ?ps = "take i (pairs v) @ drop (Suc i) (pairs v)"
    have l: "2 * i + 1 < length v" using i(1) v(1) by (auto simp: length_pairs elim!: evenE)
    have f: "v = flatten (take i (pairs v)) @ f # snd (pairs v ! i) # flatten (drop (Suc i) (pairs v))"
    proof -
      have "pairs v = take i (pairs v) @ (f, snd (pairs v ! i)) # drop (Suc i) (pairs v)"
        using i by (metis id_take_nth_drop prod.collapse)
      then show ?thesis using flatten_pairs [OF v(1)] by (metis flatten.simps(2) flatten_append)
    qed
    let ?a = "flatten (take i (pairs v))" and ?b = "flatten (drop (Suc i) (pairs v))"
    have la: "length ?a = i * 2" using i(1) by simp
    have r1: "vremove v (i * 2) = Some (f, ?a @ snd (pairs v ! i) # ?b)"
      using la by (subst f) (simp add: vremove_def nth_append)
    have r2: "vremove (?a @ snd (pairs v ! i) # ?b) (i * 2) = Some (snd (pairs v ! i), flatten ?ps)"
      using la by (simp add: vremove_def nth_append)
    have "sorted_wrt (<) (map fst ?ps)"
      using sorted_wrt_take_drop [OF v(2), of i] sorted_wrt_take_drop [OF v(2), of "Suc i"] sorted_wrt_at [OF v(2), of i] i(1)
      by (auto simp: sorted_wrt_append take_map [symmetric] drop_map [symmetric] set_drop_nth set_take_nth)
    moreover have "length ?ps \<le> COMPACT_THRESHOLD" using v(3) by (simp add: length_pairs)
    ultimately show ?thesis
      using r(1) Inr r1 r2 HCompact map_of_remove_at [OF d i] map_of_nth_key [OF d i]
      by (simp add: hash_remove_def del: flatten_append)
  qed
next
  case (HFull m)
  then have d: "distinct (map fst (AList.delete f m))" using assms distinct_delete by auto
  show ?thesis using HFull demote_hash_law [OF d] d by (auto simp: hash_remove_def Let_def delete_conv')
qed

lemma hash_pairs_distinct: "hash_inv h \<Longrightarrow> distinct (map fst (hash_pairs h))"
  by (cases h) (auto simp: hash_pairs_def dest: strict_distinct)

lemma hash_len_law: "hash_inv h \<Longrightarrow> hash_len h = card (dom (hash_abs h))"
proof -
  assume h: "hash_inv h"
  have "hash_len h = length (hash_pairs h)" by (cases h) (simp_all add: hash_len_def hash_pairs_def length_pairs)
  also have "\<dots> = card (dom (hash_abs h))"
    using distinct_card [OF hash_pairs_distinct [OF h]] by (simp add: hash_abs_def dom_map_of_conv_image_fst)
  finally show ?thesis .
qed

lemma hash_iter_from_flatten: "hash_iter_from (flatten (ps @ qs)) (2 * length ps) = Some qs"
proof (induction qs arbitrary: ps)
  case Nil
  then show ?case by (subst hash_iter_from.simps) simp
next
  case (Cons q qs)
  obtain k v where q: "q = (k, v)" by (cases q)
  have "hash_iter_from (flatten ((ps @ [q]) @ qs)) (2 * length (ps @ [q])) = Some qs" by (rule Cons.IH)
  then have "hash_iter_from (flatten (ps @ q # qs)) (2 * length ps + 2) = Some qs" by simp
  moreover have "vget (flatten (ps @ q # qs)) (2 * length ps) = Some k"
    "vget (flatten (ps @ q # qs)) (2 * length ps + 1) = Some v"
    using q by (simp_all add: vget_def nth_append)
  ultimately show ?case using q by (subst hash_iter_from.simps) simp
qed

lemma hash_iter_pairs: "hash_inv h \<Longrightarrow> hash_iter h = Some (hash_pairs h)"
  using hash_iter_from_flatten [of "[]"]
  by (cases h) (auto simp: hash_iter_def hash_pairs_def, metis flatten_pairs)

lemma step_by2_flatten: "step_by2 (flatten ps) = map fst ps"
  by (induction ps rule: flatten.induct) auto

lemma step_by2_tl_flatten: "step_by2 (drop 1 (flatten ps)) = map snd ps"
proof (induction ps rule: flatten.induct)
  case (2 k v ps)
  then show ?case by (cases ps rule: flatten.cases) auto
qed simp

lemma hash_keys_pairs: "hash_inv h \<Longrightarrow> hash_keys h = map fst (hash_pairs h)"
  by (cases h) (auto simp: hash_keys_def hash_pairs_def, metis flatten_pairs step_by2_flatten)

lemma hash_values_pairs: "hash_inv h \<Longrightarrow> hash_values h = map snd (hash_pairs h)"
  by (cases h) (auto simp: hash_values_def hash_pairs_def, metis flatten_pairs step_by2_tl_flatten One_nat_def)

lemma hash_contains_key_law: "hash_inv h \<Longrightarrow> hash_contains_key h f = Some (f \<in> dom (hash_abs h))"
  by (simp add: hash_contains_key_def hash_get_law dom_def)

interpretation hash: map_adt hash_abs hash_inv hash_new hash_get hash_insert_field hash_remove hash_len hash_iter
proof unfold_locales
  fix h
  assume h: "hash_inv h"
  show "finite (dom (hash_abs h))" by (simp add: hash_abs_def finite_dom_map_of)
  show "\<exists>ps. hash_iter h = Some ps \<and> distinct (map fst ps) \<and> map_of ps = hash_abs h"
    using hash_iter_pairs [OF h] hash_pairs_distinct [OF h] by (simp add: hash_abs_def)
qed (simp_all add: hash_new_law hash_get_law hash_insert_field_law hash_remove_law hash_len_law)

section \<open>Sets\<close>

lemma set_abs_simps [simp]:
  "set_abs (SIntegers v) = idec ` set v" "set_abs (SCompact w) = set w" "set_abs (SFull m) = set m"
  by (simp_all add: set_abs_def)

lemma set_inv_simps [simp]:
  "set_inv (SIntegers v) \<longleftrightarrow> sorted_wrt (<) v \<and> (\<forall>n\<in>set v. in_i64 n)"
  "set_inv (SCompact w) \<longleftrightarrow> sorted_wrt (<) w"
  "set_inv (SFull m) \<longleftrightarrow> distinct m"
  by (simp_all add: set_inv_def)

lemma canonical_mem: "canonical_i64 x = Some n \<Longrightarrow> x \<in> idec ` A \<longleftrightarrow> n \<in> A"
  using canonical_i64_sound [of x n] by auto

lemma canonical_notin: "canonical_i64 x = None \<Longrightarrow> (\<forall>n\<in>A. in_i64 n) \<Longrightarrow> x \<notin> idec ` A"
  using canonical_i64_idec by force

lemma found_mem: "found v x r \<Longrightarrow> (case r of Ok _ \<Rightarrow> True | Err _ \<Rightarrow> False) \<longleftrightarrow> x \<in> set v"
  using found_Err [of v x] by (cases r) (auto simp: found_def)

lemma sort_strict: "distinct v \<Longrightarrow> sorted_wrt (<) (sort v)"
  by (simp add: strict_sorted_iff)

lemma those_write_ints: "\<forall>n\<in>set v. in_i64 n \<Longrightarrow> those (map (write_int_to (replicate 20 0)) v) = Some (map idec v)"
proof (induction v)
  case (Cons n v)
  then show ?case using write_int_to_idec [of n, OF _ length_replicate] by simp
qed simp

lemma promote_set_law: "distinct v \<Longrightarrow> set_inv (promote_set (SCompact v)) \<and> set_abs (promote_set (SCompact v)) = set v"
proof -
  have "distinct acc \<Longrightarrow> distinct (foldl (\<lambda>acc item. List.insert item acc) acc v)
     \<and> set (foldl (\<lambda>acc item. List.insert item acc) acc v) = set acc \<union> set v" for acc v :: "bytes list"
    by (induction v arbitrary: acc) auto
  from this [of "[]" v] show ?thesis by (simp add: promote_set_def)
qed

lemma demote_set_law: "distinct m \<Longrightarrow> set_inv (demote_set (SFull m)) \<and> set_abs (demote_set (SFull m)) = set m"
  by (simp add: demote_set_def sort_strict)

lemma found_vinsert:
  assumes "sorted_wrt (<) v" "found v x (Err i)"
  shows "vinsert v i x = Some (take i v @ x # drop i v)" "sorted_wrt (<) (take i v @ x # drop i v)"
    "set (take i v @ x # drop i v) = insert x (set v)" "x \<notin> set v"
proof -
  show "vinsert v i x = Some (take i v @ x # drop i v)" using assms(2) by (simp add: found_def vinsert_def)
  show "sorted_wrt (<) (take i v @ x # drop i v)" by (rule found_insert [OF assms])
  have "set v = set (take i v) \<union> set (drop i v)" by (metis append_take_drop_id set_append)
  then show "set (take i v @ x # drop i v) = insert x (set v)" by auto
  show "x \<notin> set v" by (rule found_Err [OF assms(2)])
qed

lemma found_vremove:
  assumes "sorted_wrt (<) v" "found v x (Ok i)"
  shows "vremove v i = Some (x, take i v @ drop (Suc i) v)" "sorted_wrt (<) (take i v @ drop (Suc i) v)"
    "set (take i v @ drop (Suc i) v) = set v - {x}" "x \<in> set v"
proof -
  have i: "i < length v" "v ! i = x" using assms(2) by (auto simp: found_def)
  show "vremove v i = Some (x, take i v @ drop (Suc i) v)" using i by (simp add: vremove_def)
  show "sorted_wrt (<) (take i v @ drop (Suc i) v)"
    using sorted_wrt_take_drop [OF assms(1), of i] sorted_wrt_take_drop [OF assms(1), of "Suc i"] i(1)
    by (auto simp: sorted_wrt_append set_drop_nth)
  have "set v = set (take i v) \<union> set (drop i v)" by (metis append_take_drop_id set_append)
  then have "set v = insert x (set (take i v @ drop (Suc i) v))" using i by (auto simp: set_drop_nth)
  moreover have "x \<notin> set (take i v @ drop (Suc i) v)" using sorted_wrt_at [OF assms(1) i(1)] i(2) by auto
  ultimately show "set (take i v @ drop (Suc i) v) = set v - {x}" "x \<in> set v" by auto
qed

lemma set_insert_law:
  assumes "set_inv s"
  shows "\<exists>s'. set_insert_small s x = Some (x \<notin> set_abs s, s') \<and> set_inv s' \<and> set_abs s' = insert x (set_abs s)"
proof (cases s)
  case (SIntegers v)
  then have v: "sorted_wrt (<) v" "\<forall>n\<in>set v. in_i64 n" using assms by auto
  show ?thesis
  proof (cases "canonical_i64 x")
    case None
    have "distinct (map idec v @ [x])"
      using strict_distinct [OF v(1)] canonical_notin [OF None v(2)] by (auto simp: distinct_map inj_on_def)
    then show ?thesis
      using None SIntegers those_write_ints [OF v(2)] canonical_notin [OF None v(2)]
      by (simp add: set_insert_small_def sort_strict)
  next
    case (Some n)
    have n: "in_i64 n" "x = idec n" using canonical_i64_sound [OF Some] by auto
    obtain r where r: "binary_search v n = Some r" "found v n r" using binary_search_found [OF v(1)] by blast
    show ?thesis
    proof (cases r)
      case (Inl i)
      note f = found_vinsert [OF v(1), of n i]
      show ?thesis using Some SIntegers r Inl f n v(2) by (auto simp: set_insert_small_def)
    next
      case (Inr i)
      then have "n \<in> set v" using r(2) by (auto simp: found_def)
      then show ?thesis using Some SIntegers r Inr n v by (auto simp: set_insert_small_def)
    qed
  qed
next
  case (SCompact v)
  then have v: "sorted_wrt (<) v" using assms by simp
  obtain r where r: "binary_search v x = Some r" "found v x r" using binary_search_found [OF v] by blast
  show ?thesis
  proof (cases r)
    case (Inl i)
    note f = found_vinsert [OF v, of x i]
    have "found v x (Err i)" using r(2) Inl by simp
    note f = found_vinsert [OF v this]
    show ?thesis using SCompact r(1) Inl f promote_set_law [OF strict_distinct [OF f(2)]]
      by (simp add: set_insert_small_def)
  next
    case (Inr i)
    then show ?thesis using SCompact r v by (auto simp: set_insert_small_def found_def)
  qed
next
  case (SFull m)
  then show ?thesis using assms by (simp add: set_insert_small_def)
qed

lemma set_remove_law:
  assumes "set_inv s"
  shows "\<exists>s'. set_remove s x = Some (x \<in> set_abs s, s') \<and> set_inv s' \<and> set_abs s' = set_abs s - {x}"
proof (cases s)
  case (SIntegers v)
  then have v: "sorted_wrt (<) v" "\<forall>n\<in>set v. in_i64 n" using assms by auto
  show ?thesis
  proof (cases "canonical_i64 x")
    case None
    then show ?thesis using SIntegers canonical_notin [OF None v(2)] assms by (simp add: set_remove_def)
  next
    case (Some n)
    have n: "in_i64 n" "x = idec n" using canonical_i64_sound [OF Some] by auto
    obtain r where r: "binary_search v n = Some r" "found v n r" using binary_search_found [OF v(1)] by blast
    show ?thesis
    proof (cases r)
      case (Inl i)
      then have "n \<notin> set v" using r(2) found_Err by blast
      then have "x \<notin> idec ` set v" using n by auto
      then show ?thesis using Some SIntegers r Inl assms by (simp add: set_remove_def)
    next
      case (Inr i)
      have "found v n (Ok i)" using r(2) Inr by simp
      note f = found_vremove [OF v(1) this]
      have "set_inv (SIntegers (take i v @ drop (Suc i) v))" using f(2,3) v(2) by auto
      moreover have "set_abs (SIntegers (take i v @ drop (Suc i) v)) = set_abs s - {x}"
      proof -
        have "idec ` (set v - {n}) = idec ` set v - {idec n}" by auto
        then show ?thesis using f(3) SIntegers n(2) by (simp only: set_abs_simps)
      qed
      moreover have "x \<in> set_abs s" using f(4) SIntegers n by simp
      ultimately show ?thesis using Some SIntegers r(1) Inr f(1) by (simp add: set_remove_def)
    qed
  qed
next
  case (SCompact v)
  then have v: "sorted_wrt (<) v" using assms by simp
  obtain r where r: "binary_search v x = Some r" "found v x r" using binary_search_found [OF v] by blast
  show ?thesis
  proof (cases r)
    case (Inl i)
    then have "x \<notin> set v" using r(2) found_Err by blast
    then show ?thesis using SCompact r Inl assms by (simp add: set_remove_def)
  next
    case (Inr i)
    have "found v x (Ok i)" using r(2) Inr by simp
    note f = found_vremove [OF v this]
    show ?thesis using SCompact r(1) Inr f by (simp add: set_remove_def)
  qed
next
  case (SFull m)
  have d: "distinct (removeAll x m)" using assms SFull by (simp add: distinct_removeAll)
  show ?thesis using SFull d demote_set_law [OF d] by (simp add: set_remove_def Let_def)
qed

lemma set_contains_law: "set_inv s \<Longrightarrow> set_contains s x = Some (x \<in> set_abs s)"
proof (cases s)
  case (SIntegers v)
  assume "set_inv s"
  then have v: "sorted_wrt (<) v" "\<forall>n\<in>set v. in_i64 n" using SIntegers by auto
  show ?thesis
  proof (cases "canonical_i64 x")
    case None
    then show ?thesis using SIntegers canonical_notin [OF None v(2)] by (simp add: set_contains_def)
  next
    case (Some n)
    obtain r where r: "binary_search v n = Some r" "found v n r" using binary_search_found [OF v(1)] by blast
    then show ?thesis using SIntegers Some canonical_mem [OF Some, of "set v"] found_mem [OF r(2)]
      by (simp add: set_contains_def)
  qed
next
  case (SCompact v)
  assume "set_inv s"
  then obtain r where r: "binary_search v x = Some r" "found v x r"
    using binary_search_found [of v x] SCompact by auto
  then show ?thesis using SCompact found_mem [OF r(2)] by (simp add: set_contains_def)
qed (simp add: set_contains_def)

lemma set_members_law: "set_inv s \<Longrightarrow> distinct (set_members s) \<and> set (set_members s) = set_abs s"
  by (cases s) (auto simp: set_members_def set_iter_def member_to_string_def comp_def distinct_map inj_on_def
      image_image dest: strict_distinct)

lemma set_len_law: "set_inv s \<Longrightarrow> set_len s = card (set_abs s)"
proof -
  assume s: "set_inv s"
  have "set_len s = length (set_members s)" by (cases s) (simp_all add: set_len_def set_members_def set_iter_def)
  also have "\<dots> = card (set_abs s)" using distinct_card [of "set_members s"] set_members_law [OF s] by simp
  finally show ?thesis .
qed

interpretation sets: set_adt set_abs set_inv set_new set_insert_small set_remove set_contains set_len set_members
proof unfold_locales
  fix s
  assume "set_inv s"
  then show "finite (set_abs s)" by (cases s) auto
qed (simp_all add: set_new_def set_insert_law set_remove_law set_contains_law set_len_law set_members_law)

lemma member_matches_law:
  "set_inv s \<Longrightarrow> m \<in> set (set_iter s) \<Longrightarrow> member_matches m x \<longleftrightarrow> member_to_string m = x"
proof (cases s)
  case (SIntegers v)
  assume "set_inv s" "m \<in> set (set_iter s)"
  then obtain n where "m = MInteger n" "in_i64 n" using SIntegers by (auto simp: set_iter_def)
  then show ?thesis using canonical_i64_idec [of n] canonical_i64_sound [of x n]
    by (auto simp: member_matches_def member_to_string_def)
qed (auto simp: set_iter_def member_matches_def member_to_string_def)

lemma set_insert_all_abs: "set_inv s \<Longrightarrow> \<exists>s'. set_insert_all xs s = Some s' \<and> set_inv s' \<and> set_abs s' = set_abs s \<union> set xs"
proof (induction xs arbitrary: s)
  case (Cons x xs)
  obtain s1 where s1: "set_insert_small s x = Some (x \<notin> set_abs s, s1)" "set_inv s1" "set_abs s1 = insert x (set_abs s)"
    using set_insert_law [OF Cons.prems] by blast
  from Cons.IH [OF s1(2)] s1 show ?case by (auto simp: set_insert_def)
qed simp

lemma set_from_strings_abs: "\<exists>s. set_from_strings xs = Some s \<and> set_inv s \<and> set_abs s = set xs"
  using set_insert_all_abs [of set_new xs] by (simp add: set_from_strings_def set_new_def)

lemma run_refines:
  assumes "\<And>x s. I s \<Longrightarrow> \<exists>s'. step x s = Some (fst (spec x (ab s)), s') \<and> I s' \<and> ab s' = snd (spec x (ab s))"
  shows "I s \<Longrightarrow> \<exists>s'. run_steps step xs s = Some (fst (run_spec spec xs (ab s)), s') \<and> I s'
     \<and> ab s' = snd (run_spec spec xs (ab s))"
proof (induction xs arbitrary: s)
  case (Cons x xs)
  obtain s1 where s1: "step x s = Some (fst (spec x (ab s)), s1)" "I s1" "ab s1 = snd (spec x (ab s))"
    using assms [OF Cons.prems] by blast
  from Cons.IH [OF s1(2)] s1 show ?case by (auto simp: Let_def split: prod.splits)
qed simp

lemma hash_step_refines:
  "hash_inv h \<Longrightarrow> \<exists>h'. hash_step x h = Some (fst (map_step x (hash_abs h)), h') \<and> hash_inv h'
     \<and> hash_abs h' = snd (map_step x (hash_abs h))"
  using hash.insert_law [of h] hash.remove_law [of h]
  by (cases x) (fastforce simp: hash.get_law hash.len_law)+

lemma set_step_refines:
  "set_inv s \<Longrightarrow> \<exists>s'. set_step x s = Some (fst (fset_step x (set_abs s)), s') \<and> set_inv s'
     \<and> set_abs s' = snd (fset_step x (set_abs s))"
  using sets.insert_law [of s] sets.remove_law [of s]
  by (cases x) (fastforce simp: sets.contains_law sets.len_law)+

lemma sorted_position_unique:
  assumes "i \<le> length ks" "sorted_wrt (<) (take i ks @ f # drop i ks)" "j \<le> length ks"
    "\<forall>y\<in>set (take j ks). y < f" "\<forall>y\<in>set (drop j ks). f < (y :: 'a::linorder)"
  shows "i = j"
proof (rule ccontr)
  assume "i \<noteq> j"
  then consider "i < j" | "j < i" by linarith
  then show False
  proof cases
    case 1
    then have "ks ! i \<in> set (take j ks)" "ks ! i \<in> set (drop i ks)" using assms(3)
      by (auto simp: in_set_conv_nth set_drop_nth intro!: exI [of _ i])
    then show False using assms(2,4) by (auto simp: sorted_wrt_append dest: less_asym)
  next
    case 2
    then have "ks ! j \<in> set (take i ks)" "ks ! j \<in> set (drop j ks)" using assms(1)
      by (auto simp: in_set_conv_nth set_drop_nth intro!: exI [of _ j])
    then show False using assms(2,5) by (auto simp: sorted_wrt_append dest: less_asym)
  qed
qed

text \<open>
  C5. A hash value implements a finite map: any sequence of insertions, removals, lookups and length
  queries on an empty hash runs without a panic, reports what a map would, and ends in a value that
  holds that map, through the promotion to a hash map beyond 128 fields and the demotion at 64.
\<close>

theorem hash_run_refines:
  "\<exists>h. run_steps hash_step ops hash_new = Some (fst (run_spec map_step ops Map.empty), h) \<and> hash_inv h
     \<and> hash_abs h = snd (run_spec map_step ops Map.empty)"
  using run_refines [of hash_inv hash_step map_step hash_abs hash_new ops] hash_step_refines hash_new_law by auto

text \<open>
  C6. A set value implements a finite set of byte strings, whichever of the integer, sorted and hashed
  representations it is in: any sequence of additions, removals, membership tests and size queries runs
  without a panic and reports what a set would.
\<close>

theorem set_run_refines:
  "\<exists>s. run_steps set_step ops set_new = Some (fst (run_spec fset_step ops {}), s) \<and> set_inv s
     \<and> set_abs s = snd (run_spec fset_step ops {})"
  using run_refines [of set_inv set_step fset_step set_abs set_new ops] set_step_refines sets.new_law by auto

text \<open>
  C23. The field search of a small hash, linear up to four pairs and by bisection above, returns the index
  of the field, or the position that keeps the fields in order.
\<close>

theorem compact_find_correct:
  assumes "even (length v)" "sorted_wrt (<) (map fst (pairs v))"
  shows "compact_find v f \<noteq> None
    \<and> (compact_find v f = Some (Ok i) \<longleftrightarrow> i < length (pairs v) \<and> fst (pairs v ! i) = f)
    \<and> (compact_find v f = Some (Err i) \<longleftrightarrow> f \<notin> fst ` set (pairs v) \<and> i \<le> length (pairs v)
      \<and> sorted_wrt (<) (take i (map fst (pairs v)) @ f # drop i (map fst (pairs v))))"
proof (intro conjI)
  let ?ks = "map fst (pairs v)"
  obtain r where r: "compact_find v f = Some r" "found ?ks f r" using compact_find_found [OF assms(2)] by blast
  show "compact_find v f \<noteq> None" using r by simp
  have d: "distinct ?ks" using strict_distinct [OF assms(2)] .
  show "compact_find v f = Some (Ok i) \<longleftrightarrow> i < length (pairs v) \<and> fst (pairs v ! i) = f"
  proof (cases r)
    case (Inl j)
    then have "f \<notin> set ?ks" using r(2) found_Err by blast
    then have "\<not> (i < length (pairs v) \<and> fst (pairs v ! i) = f)" using nth_mem [of i "pairs v"] by auto
    then show ?thesis using r(1) Inl by simp
  next
    case (Inr j)
    then have "j < length ?ks" "?ks ! j = f" using r(2) by (auto simp: found_def)
    then show ?thesis using r(1) Inr nth_eq_iff_index_eq [OF d, of i j] by auto
  qed
  show "compact_find v f = Some (Err i) \<longleftrightarrow> f \<notin> fst ` set (pairs v) \<and> i \<le> length (pairs v)
      \<and> sorted_wrt (<) (take i ?ks @ f # drop i ?ks)"
  proof (cases r)
    case (Inl j)
    have j: "j \<le> length ?ks" "f \<notin> set ?ks" "\<forall>y\<in>set (take j ?ks). y < f" "\<forall>y\<in>set (drop j ?ks). f < y"
      using r(2) found_Err [of ?ks f j] Inl by (auto simp: found_def)
    have "i = j" if "i \<le> length ?ks" "sorted_wrt (<) (take i ?ks @ f # drop i ?ks)"
      using sorted_position_unique [of i ?ks f j] that j by blast
    then show ?thesis using r(1) Inl j found_insert [OF assms(2), of f j] r(2) by auto
  next
    case (Inr j)
    then have "f \<in> set ?ks" using r(2) by (auto simp: found_def)
    then show ?thesis using r(1) Inr by auto
  qed
qed

theorem compact_find_correct_witness:
  "compact_find [[1], [7], [2], [8], [4], [9], [5], [9], [6], [9]] [3] = Some (Err 2)"
proof -
  let ?v = "[[1], [7], [2], [8], [4], [9], [5], [9], [6], [9 :: byte]]"
  have "even (length ?v)" "sorted_wrt (<) (map fst (pairs ?v))" by simp_all
  from compact_find_correct [OF this, of "[3]" 2] show ?thesis by simp
qed

end
