(* ===== verification/Blocking.thy ===== *)
theory Blocking
  imports Prelude "HOL-Library.AList"
begin

text \<open>
  The registry of connections parked on blocking commands, \<^verbatim>\<open>src/storage/blocking.rs\<close>.  A waiter
  carries the worker that owns the connection (the \<^verbatim>\<open>Wake\<close> object, named here by a number), the
  connection's token and its uid.  The hash map from keys to waiters is an association list with
  distinct keys; the counter \<^verbatim>\<open>waiting\<close> lets \<^verbatim>\<open>signal\<close> skip the lock.  \<^verbatim>\<open>signal\<close> returns the
  waiters it wakes, in order.
\<close>

section \<open>The registry\<close>

record waiter =
  w_wake :: nat
  w_token :: nat
  w_uid :: nat

record block_registry =
  br_waiting :: nat
  br_keys :: "(key \<times> waiter list) list"

definition br_empty :: block_registry where
  "br_empty = \<lparr>br_waiting = 0, br_keys = []\<rparr>"

definition br_list :: "block_registry \<Rightarrow> key \<Rightarrow> waiter list" where
  "br_list r k = (case map_of (br_keys r) k of None \<Rightarrow> [] | Some ws \<Rightarrow> ws)"

fun br_register :: "key list \<Rightarrow> waiter \<Rightarrow> block_registry \<Rightarrow> block_registry" where
  "br_register [] w r = r"
| "br_register (k # ks) w r =
     (let ws = br_list r k in
      br_register ks w
        (if list_ex (\<lambda>v. w_uid v = w_uid w) ws
         then r\<lparr>br_keys := AList.update k ws (br_keys r)\<rparr>
         else r\<lparr>br_waiting := br_waiting r + 1,
                br_keys := AList.update k (ws @ [w]) (br_keys r)\<rparr>))"

fun br_unregister :: "key list \<Rightarrow> nat \<Rightarrow> block_registry \<Rightarrow> block_registry" where
  "br_unregister [] uid r = r"
| "br_unregister (k # ks) uid r =
     br_unregister ks uid
       (case map_of (br_keys r) k of
          None \<Rightarrow> r
        | Some ws \<Rightarrow>
            (let ws' = filter (\<lambda>w. w_uid w \<noteq> uid) ws in
             r\<lparr>br_waiting := br_waiting r - (length ws - length ws'),
               br_keys := (if ws' = [] then AList.delete k (br_keys r)
                           else AList.update k ws' (br_keys r))\<rparr>))"

definition br_signal_slow :: "block_registry \<Rightarrow> key \<Rightarrow> waiter list" where
  "br_signal_slow r k = (case map_of (br_keys r) k of None \<Rightarrow> [] | Some ws \<Rightarrow> ws)"

definition br_signal :: "block_registry \<Rightarrow> key \<Rightarrow> waiter list" where
  "br_signal r k = (if br_waiting r = 0 then [] else br_signal_slow r k)"

text \<open>\<^verbatim>\<open>sort_unstable\<close>, \<^verbatim>\<open>dedup\<close> (which drops equal neighbours) and the length.\<close>

definition br_blocked_clients :: "block_registry \<Rightarrow> nat" where
  "br_blocked_clients r = length (remdups_adj (sort (map w_uid (concat (map snd (br_keys r))))))"

definition br_inv :: "block_registry \<Rightarrow> bool" where
  "br_inv r \<longleftrightarrow> distinct (map fst (br_keys r))
     \<and> (\<forall>(k, ws) \<in> set (br_keys r). ws \<noteq> [] \<and> distinct (map w_uid ws))
     \<and> br_waiting r = sum_list (map (\<lambda>(k, ws). length ws) (br_keys r))"

section \<open>The counter and the lists agree\<close>

lemma br_empty_inv: "br_inv br_empty"
  by (simp add: br_inv_def br_empty_def)

lemma map_of_split_distinct:
  assumes "distinct (map fst xs)" "map_of xs k = Some v"
  obtains as bs where "xs = as @ (k, v) # bs" "k \<notin> fst ` set as" "k \<notin> fst ` set bs"
proof -
  from assms(2) have "(k, v) \<in> set xs" by (rule map_of_SomeD)
  then obtain as bs where xs: "xs = as @ (k, v) # bs" by (auto simp: in_set_conv_decomp)
  with assms(1) show ?thesis by (auto intro!: that)
qed

lemma update_middle:
  "k \<notin> fst ` set as \<Longrightarrow> AList.update k w (as @ (k, v) # bs) = as @ (k, w) # bs"
  by (induction as) auto

lemma update_new: "k \<notin> fst ` set as \<Longrightarrow> AList.update k w as = as @ [(k, w)]"
  by (induction as) auto

lemma delete_middle:
  "k \<notin> fst ` set as \<Longrightarrow> k \<notin> fst ` set bs \<Longrightarrow> AList.delete k (as @ (k, v) # bs) = as @ bs"
  by (induction as) (auto simp: delete_idem)

lemma br_list_None: "map_of (br_keys r) k = None \<Longrightarrow> k \<notin> fst ` set (br_keys r)"
  by (simp add: map_of_eq_None_iff)

text \<open>Replacing the list of one key by another adjusts the invariant's three parts.\<close>

lemma br_inv_put:
  assumes "br_inv r" "ws \<noteq> []" "distinct (map w_uid ws)"
    and n: "n + length (br_list r k) = br_waiting r + length ws"
  shows "br_inv (r\<lparr>br_waiting := n, br_keys := AList.update k ws (br_keys r)\<rparr>)"
proof (cases "map_of (br_keys r) k")
  case None
  then have new: "k \<notin> fst ` set (br_keys r)" by (rule br_list_None)
  with assms None show ?thesis by (auto simp: br_inv_def update_new br_list_def)
next
  case (Some vs)
  with assms(1) obtain as bs where "br_keys r = as @ (k, vs) # bs" "k \<notin> fst ` set as" "k \<notin> fst ` set bs"
    unfolding br_inv_def by (meson map_of_split_distinct)
  with assms Some show ?thesis by (auto simp: br_inv_def update_middle br_list_def)
qed

lemma br_inv_del:
  assumes "br_inv r" "map_of (br_keys r) k = Some vs"
  shows "br_inv (r\<lparr>br_waiting := br_waiting r - length vs, br_keys := AList.delete k (br_keys r)\<rparr>)"
proof -
  from assms obtain as bs where "br_keys r = as @ (k, vs) # bs" "k \<notin> fst ` set as" "k \<notin> fst ` set bs"
    unfolding br_inv_def by (meson map_of_split_distinct)
  with assms show ?thesis by (auto simp: br_inv_def delete_middle)
qed

lemma br_list_ok:
  "br_inv r \<Longrightarrow> map_of (br_keys r) k = Some ws \<Longrightarrow> ws \<noteq> [] \<and> distinct (map w_uid ws)"
  by (auto simp: br_inv_def dest!: map_of_SomeD)

lemma br_list_distinct: "br_inv r \<Longrightarrow> distinct (map w_uid (br_list r k))"
  by (auto simp: br_list_def split: option.split dest: br_list_ok)

lemma br_register_inv: "br_inv r \<Longrightarrow> br_inv (br_register ks w r)"
proof (induction ks arbitrary: r)
  case (Cons k ks)
  let ?ws = "br_list r k"
  show ?case
  proof (cases "list_ex (\<lambda>v. w_uid v = w_uid w) ?ws")
    case True
    then have "?ws \<noteq> []" by auto
    then have "br_inv (r\<lparr>br_waiting := br_waiting r, br_keys := AList.update k ?ws (br_keys r)\<rparr>)"
      using Cons.prems by (intro br_inv_put) (auto simp: br_list_distinct)
    with True show ?thesis by (simp add: Let_def Cons.IH)
  next
    case False
    then have "distinct (map w_uid (?ws @ [w]))"
      using br_list_distinct [OF Cons.prems, of k] by (auto simp: list_ex_iff)
    then have "br_inv (r\<lparr>br_waiting := br_waiting r + 1, br_keys := AList.update k (?ws @ [w]) (br_keys r)\<rparr>)"
      using Cons.prems by (intro br_inv_put) auto
    with False show ?thesis by (simp add: Let_def Cons.IH)
  qed
qed simp

lemma br_waiting_ge:
  assumes "br_inv r" shows "length (br_list r k) \<le> br_waiting r"
proof (cases "map_of (br_keys r) k")
  case (Some vs)
  with assms obtain as bs where "br_keys r = as @ (k, vs) # bs" unfolding br_inv_def
    by (meson map_of_split_distinct)
  with assms Some show ?thesis by (auto simp: br_inv_def br_list_def)
qed (simp add: br_list_def)

lemma br_unregister_inv: "br_inv r \<Longrightarrow> br_inv (br_unregister ks uid r)"
proof (induction ks arbitrary: r)
  case (Cons k ks)
  show ?case
  proof (cases "map_of (br_keys r) k")
    case (Some ws)
    let ?ws = "filter (\<lambda>w. w_uid w \<noteq> uid) ws"
    have d: "distinct (map w_uid ?ws)"
      using br_list_ok [OF Cons.prems Some] by (simp add: distinct_map_filter)
    have le: "length ?ws \<le> length ws" "length ws \<le> br_waiting r"
      using br_waiting_ge [OF Cons.prems, of k] Some by (simp_all add: br_list_def)
    show ?thesis
    proof (cases "?ws = []")
      case True
      with br_inv_del [OF Cons.prems Some] Some show ?thesis by (simp add: Let_def Cons.IH)
    next
      case False
      have "br_inv (r\<lparr>br_waiting := br_waiting r - (length ws - length ?ws),
                      br_keys := AList.update k ?ws (br_keys r)\<rparr>)"
        using Cons.prems False d le by (intro br_inv_put) (auto simp: br_list_def Some)
      with False Some show ?thesis by (simp add: Let_def Cons.IH)
    qed
  qed (simp add: Cons)
qed simp

section \<open>Who is woken\<close>

lemma br_signal_list: "br_inv r \<Longrightarrow> br_signal r k = br_list r k"
  using br_waiting_ge [of r k] by (auto simp: br_signal_def br_signal_slow_def br_list_def)

lemma list_ex_uid: "list_ex (\<lambda>v. w_uid v = u) ws \<longleftrightarrow> u \<in> w_uid ` set ws"
  by (auto simp: list_ex_iff)

lemma br_list_register:
  "br_list (br_register ks w r) k =
     (if k \<in> set ks \<and> \<not> list_ex (\<lambda>v. w_uid v = w_uid w) (br_list r k)
      then br_list r k @ [w] else br_list r k)"
proof (induction ks arbitrary: r)
  case (Cons a ks)
  have upd: "br_list (r\<lparr>br_waiting := n, br_keys := AList.update a ws (br_keys r)\<rparr>) k
      = (if k = a then ws else br_list r k)" for n ws
    by (simp add: br_list_def update_conv')
  have upd': "br_list (r\<lparr>br_keys := AList.update a ws (br_keys r)\<rparr>) k
      = (if k = a then ws else br_list r k)" for ws
    by (simp add: br_list_def update_conv')
  show ?case using Cons by (auto simp: Let_def upd upd')
qed simp

lemma br_list_unregister:
  "br_inv r \<Longrightarrow> br_list (br_unregister ks uid r) k =
     (if k \<in> set ks then filter (\<lambda>w. w_uid w \<noteq> uid) (br_list r k) else br_list r k)"
proof (induction ks arbitrary: r)
  case (Cons a ks)
  let ?r = "br_unregister [a] uid r"
  have inv: "br_inv ?r" by (rule br_unregister_inv [OF Cons.prems])
  have one: "br_list ?r k = (if k = a then filter (\<lambda>w. w_uid w \<noteq> uid) (br_list r k) else br_list r k)"
    by (auto simp: br_list_def Let_def update_conv' delete_conv' split: option.split)
  have "br_unregister (a # ks) uid r = br_unregister ks uid ?r" by simp
  with Cons.IH [OF inv] one show ?case by auto
qed simp

text \<open>C27. A signal wakes exactly the connections registered on the key and not unregistered since, oldest
  first; the count that lets a signal skip the lock never hides a waiter.\<close>

theorem br_signal_wakes:
  assumes "br_inv r"
  shows "br_signal (br_unregister ks uid (br_register ks' w r)) k =
     (let ws = br_list r k;
          ws' = (if k \<in> set ks' \<and> w_uid w \<notin> w_uid ` set ws then ws @ [w] else ws)
      in if k \<in> set ks then filter (\<lambda>w. w_uid w \<noteq> uid) ws' else ws')"
  using br_register_inv [OF assms] assms
  by (auto simp: br_signal_list br_unregister_inv br_list_unregister br_list_register list_ex_uid Let_def)

theorem br_signal_wakes_witness:
  "br_signal (br_unregister [[1]] 7 (br_register [[1], [2]] \<lparr>w_wake = 0, w_token = 3, w_uid = 7\<rparr> br_empty)) [2]
     = [\<lparr>w_wake = 0, w_token = 3, w_uid = 7\<rparr>]"
  using br_signal_wakes [OF br_empty_inv, of "[[1]]" 7 "[[1], [2]]" "\<lparr>w_wake = 0, w_token = 3, w_uid = 7\<rparr>" "[2]"]
  by (simp add: br_empty_def br_list_def Let_def)

lemma distinct_sorted_remdups_adj: "sorted xs \<Longrightarrow> distinct (remdups_adj xs)"
proof (induction xs rule: remdups_adj.induct)
  case (3 x y xs)
  then show ?case by (cases "x = y") auto
qed auto

lemma br_blocked_clients_card:
  "br_blocked_clients r = card (\<Union>(k, ws)\<in>set (br_keys r). w_uid ` set ws)"
proof -
  let ?l = "map w_uid (concat (map snd (br_keys r)))"
  have "length (remdups_adj (sort ?l)) = card (set (remdups_adj (sort ?l)))"
    by (intro distinct_card [symmetric] distinct_sorted_remdups_adj) simp
  also have "set (remdups_adj (sort ?l)) = (\<Union>(k, ws)\<in>set (br_keys r). w_uid ` set ws)"
    by (force simp: image_iff)
  finally show ?thesis by (simp add: br_blocked_clients_def)
qed

end
