(* ===== verification/Store.thy ===== *)
theory Store
  imports ListValue Collections Blocking
begin

text \<open>
  The key space the commands work on: the value type and its expiry
  (\<^verbatim>\<open>src/storage/value/mod.rs\<close>), the TTL counters (\<^verbatim>\<open>src/storage/store/ttl.rs\<close>) and the store
  itself (\<^verbatim>\<open>src/storage/store/mod.rs\<close>).

  The concurrent map of the crate \<^verbatim>\<open>customhash\<close> appears here through its contract (\<^verbatim>\<open>cmap\<close>): a
  partial map from keys to values together with the keys its write observer was told about.  A
  closure that the map runs on a value is a function that returns its result and the changed value,
  and \<^verbatim>\<open>None\<close> when it panics.  Sorted sets and streams are type parameters of the value type: no
  command modelled here looks inside them.  The clocks and the number of the running CPU are inputs
  of a command (\<^verbatim>\<open>env\<close>) and stay the same while it runs.
\<close>

section \<open>The contract of the concurrent map\<close>

record 'v cmap =
  cm_entries :: "key \<rightharpoonup> 'v"
  cm_observing :: bool
  cm_notified :: "key list"

definition cm_touched :: "key \<Rightarrow> 'v cmap \<Rightarrow> 'v cmap" where
  "cm_touched k m = (if cm_observing m then m\<lparr>cm_notified := cm_notified m @ [k]\<rparr> else m)"

definition cm_put :: "key \<Rightarrow> 'v \<Rightarrow> 'v cmap \<Rightarrow> 'v cmap" where
  "cm_put k v m = m\<lparr>cm_entries := (cm_entries m)(k \<mapsto> v)\<rparr>"

definition cm_drop :: "key \<Rightarrow> 'v cmap \<Rightarrow> 'v cmap" where
  "cm_drop k m = m\<lparr>cm_entries := (cm_entries m)(k := None)\<rparr>"

definition cm_get_ref :: "key \<Rightarrow> 'v cmap \<Rightarrow> 'v option" where
  "cm_get_ref k m = cm_entries m k"

definition cm_insert :: "key \<Rightarrow> 'v \<Rightarrow> 'v cmap \<Rightarrow> bool \<times> 'v cmap" where
  "cm_insert k v m = (cm_entries m k = None, cm_touched k (cm_put k v m))"

definition cm_insert_if_absent :: "key \<Rightarrow> 'v \<Rightarrow> 'v cmap \<Rightarrow> bool \<times> 'v cmap" where
  "cm_insert_if_absent k v m =
     (case cm_entries m k of
        None \<Rightarrow> (True, cm_touched k (cm_put k v m))
      | Some _ \<Rightarrow> (False, cm_touched k m))"

definition cm_remove :: "key \<Rightarrow> 'v cmap \<Rightarrow> 'v option \<times> 'v cmap" where
  "cm_remove k m =
     (case cm_entries m k of
        None \<Rightarrow> (None, m)
      | Some v \<Rightarrow> (Some v, cm_touched k (cm_drop k m)))"

definition cm_update_with ::
    "key \<Rightarrow> ('v \<Rightarrow> ('r \<times> 'v) option) \<Rightarrow> 'v cmap \<Rightarrow> ('r option \<times> 'v cmap) option" where
  "cm_update_with k f m =
     (case cm_entries m k of
        None \<Rightarrow> Some (None, m)
      | Some v \<Rightarrow> do { (r, v') \<leftarrow> f v; Some (Some r, cm_touched k (cm_put k v' m)) })"

section \<open>Values, expiry and the clock\<close>

record env =
  approx_now_ms :: nat
  now_ms :: nat
  sched_getcpu :: int

datatype ('z, 't) fyrodb =
    FString bytes
  | FHash hash_inner
  | FList list_value
  | FSet set_inner
  | FZSet 'z
  | FJson bytes
  | FStream 't

record ('z, 't) store_value =
  sv_value :: "('z, 't) fyrodb"
  sv_expires_ms :: nat

fun type_name :: "('z, 't) fyrodb \<Rightarrow> string" where
  "type_name (FString _) = ''string''"
| "type_name (FHash _) = ''hash''"
| "type_name (FList _) = ''list''"
| "type_name (FSet _) = ''set''"
| "type_name (FZSet _) = ''zset''"
| "type_name (FJson _) = ''ReJSON-RL''"
| "type_name (FStream _) = ''stream''"

fun as_string :: "('z, 't) fyrodb \<Rightarrow> bytes option" where
  "as_string (FString s) = Some s"
| "as_string _ = None"

fun as_hash :: "('z, 't) fyrodb \<Rightarrow> hash_inner option" where
  "as_hash (FHash h) = Some h"
| "as_hash _ = None"

fun as_list :: "('z, 't) fyrodb \<Rightarrow> list_value option" where
  "as_list (FList l) = Some l"
| "as_list _ = None"

fun as_set :: "('z, 't) fyrodb \<Rightarrow> set_inner option" where
  "as_set (FSet s) = Some s"
| "as_set _ = None"

fun is_drained_collection :: "('z, 't) fyrodb \<Rightarrow> bool" where
  "is_drained_collection (FList l) = lv_is_empty l"
| "is_drained_collection _ = False"

text \<open>A constructor of \<^verbatim>\<open>StoreValue\<close> leaves the value without an expiry.\<close>

definition sv_of :: "('z, 't) fyrodb \<Rightarrow> ('z, 't) store_value" where
  "sv_of v = \<lparr>sv_value = v, sv_expires_ms = 0\<rparr>"

definition sv_string :: "bytes \<Rightarrow> ('z, 't) store_value" where
  "sv_string s = sv_of (FString s)"

definition is_expired_at :: "nat \<Rightarrow> ('z, 't) store_value \<Rightarrow> bool" where
  "is_expired_at now v \<longleftrightarrow> sv_expires_ms v \<noteq> 0 \<and> now \<ge> sv_expires_ms v"

definition is_expired :: "env \<Rightarrow> ('z, 't) store_value \<Rightarrow> bool" where
  "is_expired E v \<longleftrightarrow> sv_expires_ms v \<noteq> 0 \<and> approx_now_ms E \<ge> sv_expires_ms v"

definition is_expired_precise :: "env \<Rightarrow> ('z, 't) store_value \<Rightarrow> bool" where
  "is_expired_precise E v \<longleftrightarrow> sv_expires_ms v \<noteq> 0 \<and> now_ms E \<ge> sv_expires_ms v"

definition ttl_ms :: "env \<Rightarrow> ('z, 't) store_value \<Rightarrow> nat option" where
  "ttl_ms E v =
     (if sv_expires_ms v = 0 then None
      else if now_ms E \<ge> sv_expires_ms v then None
      else Some (sv_expires_ms v - now_ms E))"

text \<open>\<^verbatim>\<open>u64::checked_add\<close> and \<^verbatim>\<open>u64::checked_mul\<close>.\<close>

definition checked_u64 :: "nat \<Rightarrow> nat option" where
  "checked_u64 n = (if n < 2 ^ 64 then Some n else None)"

definition expiry_from_secs :: "env \<Rightarrow> nat \<Rightarrow> nat option" where
  "expiry_from_secs E secs = do { ms \<leftarrow> checked_u64 (secs * 1000); checked_u64 (approx_now_ms E + ms) }"

definition expiry_from_ms :: "env \<Rightarrow> nat \<Rightarrow> nat option" where
  "expiry_from_ms E ms = checked_u64 (approx_now_ms E + ms)"

definition expiry_from_unix_secs :: "nat \<Rightarrow> nat option" where
  "expiry_from_unix_secs unix_secs = checked_u64 (unix_secs * 1000)"

section \<open>The TTL counters\<close>

record ttl_counters =
  tc_adds :: "64 word list"
  tc_removes :: "64 word list"

definition tc_new :: "nat \<Rightarrow> ttl_counters" where
  "tc_new stripes = \<lparr>tc_adds = replicate stripes 0, tc_removes = replicate stripes 0\<rparr>"

definition tc_stripe :: "int \<Rightarrow> ttl_counters \<Rightarrow> nat" where
  "tc_stripe cpu t = (if cpu < 0 then 0 else nat cpu mod length (tc_adds t))"

text \<open>The stripe is read with \<^verbatim>\<open>get_unchecked\<close>: outside the array the access is undefined.\<close>

definition tc_bump :: "64 word list \<Rightarrow> nat \<Rightarrow> 64 word \<Rightarrow> 64 word list option" where
  "tc_bump xs i n = (if i < length xs then Some (xs[i := xs ! i + n]) else None)"

definition tc_add :: "int \<Rightarrow> ttl_counters \<Rightarrow> ttl_counters option" where
  "tc_add cpu t = map_option (\<lambda>a. t\<lparr>tc_adds := a\<rparr>) (tc_bump (tc_adds t) (tc_stripe cpu t) 1)"

definition tc_remove :: "int \<Rightarrow> ttl_counters \<Rightarrow> ttl_counters option" where
  "tc_remove cpu t = map_option (\<lambda>a. t\<lparr>tc_removes := a\<rparr>) (tc_bump (tc_removes t) (tc_stripe cpu t) 1)"

definition total_adds :: "ttl_counters \<Rightarrow> 64 word" where
  "total_adds t = fold (+) (tc_adds t) 0"

definition total_removes :: "ttl_counters \<Rightarrow> 64 word" where
  "total_removes t = fold (+) (tc_removes t) 0"

definition tc_live :: "ttl_counters \<Rightarrow> nat" where
  "tc_live t = unat (total_adds t) - unat (total_removes t)"

definition tc_set_live :: "nat \<Rightarrow> ttl_counters \<Rightarrow> ttl_counters option" where
  "tc_set_live live_ttls t =
     (let adds = total_adds t;
          target = (of_nat (unat adds - live_ttls) :: 64 word);
          current = total_removes t
      in if current < target
         then map_option (\<lambda>a. t\<lparr>tc_removes := a\<rparr>) (tc_bump (tc_removes t) 0 (target - current))
         else if target < current
         then map_option (\<lambda>a. t\<lparr>tc_removes := a\<rparr>) (tc_bump (tc_removes t) 0 (- (current - target)))
         else Some t)"

definition finish_ttl_scan :: "64 word \<Rightarrow> nat \<Rightarrow> ttl_counters \<Rightarrow> ttl_counters option" where
  "finish_ttl_scan generation live_ttls t =
     (if total_adds t \<noteq> generation then Some t else tc_set_live live_ttls t)"

section \<open>The store\<close>

datatype mutation_kind = MSet | MDelete | MExpire | MReplace

record mutation =
  m_kind :: mutation_kind
  m_key :: key
  m_value :: bytes
  m_expire_at_ms :: "nat option"

record ('z, 't) store =
  st_data :: "('z, 't) store_value cmap"
  st_ttl :: ttl_counters
  st_blocking :: block_registry
  st_woken :: "waiter list"
  st_aof :: "key list"
  st_replication :: "mutation list option"

type_synonym err = string

text \<open>What a command returns: \<^verbatim>\<open>None\<close> when the code panics, else the reply and the new store.\<close>

type_synonym ('z, 't, 'a) outcome = "((err + 'a) \<times> ('z, 't) store) option"

abbreviation entries :: "('z, 't) store \<Rightarrow> key \<rightharpoonup> ('z, 't) store_value" where
  "entries st \<equiv> cm_entries (st_data st)"

definition st_update_with ::
    "key \<Rightarrow> (('z, 't) store_value \<Rightarrow> ('r \<times> ('z, 't) store_value) option) \<Rightarrow> ('z, 't) store
       \<Rightarrow> ('r option \<times> ('z, 't) store) option" where
  "st_update_with k f st = do { (r, m) \<leftarrow> cm_update_with k f (st_data st); Some (r, st\<lparr>st_data := m\<rparr>) }"

definition st_insert_if_absent ::
    "key \<Rightarrow> ('z, 't) store_value \<Rightarrow> ('z, 't) store \<Rightarrow> bool \<times> ('z, 't) store" where
  "st_insert_if_absent k v st =
     (let (r, m) = cm_insert_if_absent k v (st_data st) in (r, st\<lparr>st_data := m\<rparr>))"

definition st_insert :: "key \<Rightarrow> ('z, 't) store_value \<Rightarrow> ('z, 't) store \<Rightarrow> ('z, 't) store" where
  "st_insert k v st = st\<lparr>st_data := snd (cm_insert k v (st_data st))\<rparr>"

definition st_remove :: "key \<Rightarrow> ('z, 't) store \<Rightarrow> ('z, 't) store_value option \<times> ('z, 't) store" where
  "st_remove k st = (let (r, m) = cm_remove k (st_data st) in (r, st\<lparr>st_data := m\<rparr>))"

definition st_get_ref :: "key \<Rightarrow> ('z, 't) store \<Rightarrow> ('z, 't) store_value option" where
  "st_get_ref k st = cm_get_ref k (st_data st)"

definition signal :: "key \<Rightarrow> ('z, 't) store \<Rightarrow> ('z, 't) store" where
  "signal k st = st\<lparr>st_woken := st_woken st @ br_signal (st_blocking st) k\<rparr>"

definition add_ttl :: "env \<Rightarrow> ('z, 't) store \<Rightarrow> ('z, 't) store option" where
  "add_ttl E st = map_option (\<lambda>t. st\<lparr>st_ttl := t\<rparr>) (tc_add (sched_getcpu E) (st_ttl st))"

definition sub_ttl :: "env \<Rightarrow> ('z, 't) store \<Rightarrow> ('z, 't) store option" where
  "sub_ttl E st = map_option (\<lambda>t. st\<lparr>st_ttl := t\<rparr>) (tc_remove (sched_getcpu E) (st_ttl st))"

definition has_ttl_keys :: "('z, 't) store \<Rightarrow> bool" where
  "has_ttl_keys st \<longleftrightarrow> tc_live (st_ttl st) > 0"

text \<open>Whether the value of a key can be seen: it is there and has not expired.\<close>

definition live_at :: "env \<Rightarrow> key \<Rightarrow> ('z, 't) store \<Rightarrow> ('z, 't) store_value option" where
  "live_at E k st =
     (case entries st k of None \<Rightarrow> None | Some v \<Rightarrow> if is_expired E v then None else Some v)"

definition ttl_ok :: "('z, 't) store \<Rightarrow> bool" where
  "ttl_ok st \<longleftrightarrow> tc_adds (st_ttl st) \<noteq> [] \<and> length (tc_removes (st_ttl st)) = length (tc_adds (st_ttl st))"

text \<open>The typed invariant of the key space: every collection satisfies its own invariant.\<close>

fun value_ok :: "('z, 't) fyrodb \<Rightarrow> bool" where
  "value_ok (FHash h) = hash_inv h"
| "value_ok (FList l) = lv_inv l"
| "value_ok (FSet s) = set_inv s"
| "value_ok _ = True"

definition store_ok :: "('z, 't) store \<Rightarrow> bool" where
  "store_ok st \<longleftrightarrow> (\<forall>k v. entries st k = Some v \<longrightarrow> value_ok (sv_value v))
     \<and> br_inv (st_blocking st) \<and> ttl_ok st"

text \<open>The store a server starts with.\<close>

definition store_new :: "nat \<Rightarrow> ('z, 't) store" where
  "store_new stripes =
     \<lparr>st_data = \<lparr>cm_entries = Map.empty, cm_observing = False, cm_notified = []\<rparr>, st_ttl = tc_new stripes,
      st_blocking = br_empty, st_woken = [], st_aof = [], st_replication = None\<rparr>"

definition env0 :: env where
  "env0 = \<lparr>approx_now_ms = 5, now_ms = 5, sched_getcpu = 0\<rparr>"

section \<open>Facts on the map\<close>

lemma store_ok_new [simp]: "store_ok (store_new (Suc n))"
  by (auto simp: store_ok_def store_new_def br_empty_inv ttl_ok_def tc_new_def)

lemma entries_new [simp]: "entries (store_new stripes) k = None"
  by (simp add: store_new_def)

lemma cm_touched_entries [simp]: "cm_entries (cm_touched k m) = cm_entries m"
  by (simp add: cm_touched_def)

lemma cm_put_entries [simp]: "cm_entries (cm_put k v m) = (cm_entries m)(k \<mapsto> v)"
  by (simp add: cm_put_def)

lemma cm_drop_entries [simp]: "cm_entries (cm_drop k m) = (cm_entries m)(k := None)"
  by (simp add: cm_drop_def)

lemma signal_frame [simp]:
  "st_data (signal k st) = st_data st" "st_blocking (signal k st) = st_blocking st"
  "st_ttl (signal k st) = st_ttl st"
  by (simp_all add: signal_def)

lemma store_ok_signal [simp]: "store_ok (signal k st) = store_ok st"
  by (simp add: store_ok_def ttl_ok_def)

lemma store_okD: "store_ok st \<Longrightarrow> entries st k = Some v \<Longrightarrow> value_ok (sv_value v)"
  by (simp add: store_ok_def)

lemma is_expired_0 [simp]: "\<not> is_expired E (v\<lparr>sv_expires_ms := 0\<rparr>)" "\<not> is_expired E (sv_of x)"
  by (simp_all add: is_expired_def sv_of_def)

text \<open>
  What a command leaves of the store, in one predicate: the entry of one key is replaced, the others,
  the registry and the counters are kept.
\<close>

definition changes :: "('z, 't) store \<Rightarrow> key \<Rightarrow> ('z, 't) store_value option \<Rightarrow> ('z, 't) store \<Rightarrow> bool" where
  "changes st k v st' \<longleftrightarrow> entries st' = (entries st)(k := v)
     \<and> st_blocking st' = st_blocking st \<and> st_ttl st' = st_ttl st \<and> st_woken st' = st_woken st
     \<and> st_aof st' = st_aof st \<and> st_replication st' = st_replication st"

lemma changes_ok:
  "changes st k v st' \<Longrightarrow> store_ok st \<Longrightarrow> (\<And>x. v = Some x \<Longrightarrow> value_ok (sv_value x)) \<Longrightarrow> store_ok st'"
  by (auto simp: changes_def store_ok_def ttl_ok_def)

lemma changes_refl: "entries st k = v \<Longrightarrow> changes st k v st"
  by (auto simp: changes_def)

lemma changes_data:
  "cm_entries m = (entries st)(k := v) \<Longrightarrow> changes st k v (st\<lparr>st_data := m\<rparr>)"
  by (simp add: changes_def)

lemma st_update_with_None: "entries st k = None \<Longrightarrow> st_update_with k f st = Some (None, st)"
  by (simp add: st_update_with_def cm_update_with_def)

lemma st_update_with_Some:
  assumes "entries st k = Some v" "f v = Some (r, v')"
  shows "\<exists>st'. st_update_with k f st = Some (Some r, st') \<and> changes st k (Some v') st'"
  using assms by (auto simp: st_update_with_def cm_update_with_def intro!: changes_data)

lemma st_update_with_panic:
  "entries st k = Some v \<Longrightarrow> f v = None \<Longrightarrow> st_update_with k f st = None"
  by (simp add: st_update_with_def cm_update_with_def)

lemma st_insert_if_absent_new:
  assumes "entries st k = None"
  shows "\<exists>st'. st_insert_if_absent k v st = (True, st') \<and> changes st k (Some v) st'"
  using assms by (auto simp: st_insert_if_absent_def cm_insert_if_absent_def intro!: changes_data)

lemma st_insert_changes: "changes st k (Some v) (st_insert k v st)"
  by (auto simp: st_insert_def cm_insert_def intro!: changes_data)

lemma st_remove_None: "entries st k = None \<Longrightarrow> st_remove k st = (None, st)"
  by (simp add: st_remove_def cm_remove_def)

lemma st_remove_Some:
  assumes "entries st k = Some v"
  shows "\<exists>st'. st_remove k st = (Some v, st') \<and> changes st k None st'"
  using assms by (auto simp: st_remove_def cm_remove_def intro!: changes_data)

lemma st_get_ref_simp [simp]: "st_get_ref k st = entries st k"
  by (simp add: st_get_ref_def cm_get_ref_def)

lemma live_at_Some:
  "live_at E k st = Some v \<longleftrightarrow> entries st k = Some v \<and> \<not> is_expired E v"
  by (auto simp: live_at_def split: option.split)

lemma live_at_None:
  "live_at E k st = None \<longleftrightarrow> (\<forall>v. entries st k = Some v \<longrightarrow> is_expired E v)"
  by (auto simp: live_at_def split: option.split)

lemma live_at_changes:
  "changes st k v st' \<Longrightarrow> live_at E j st' =
     (if j = k then (case v of None \<Rightarrow> None | Some x \<Rightarrow> if is_expired E x then None else v) else live_at E j st)"
  by (auto simp: live_at_def changes_def split: option.split)

section \<open>The TTL counters count\<close>

lemma sum_word_fold: "fold (+) xs (a :: 64 word) = a + sum_list xs"
  by (induction xs arbitrary: a) (auto simp: algebra_simps)

lemma sum_list_bump: "i < length xs \<Longrightarrow> sum_list (xs[i := xs ! i + n]) = sum_list xs + (n :: 64 word)"
  by (induction xs arbitrary: i) (auto split: nat.split simp: algebra_simps)

lemma tc_stripe_less: "tc_adds t \<noteq> [] \<Longrightarrow> tc_stripe cpu t < length (tc_adds t)"
  by (simp add: tc_stripe_def)

lemma tc_bump_total:
  "i < length xs \<Longrightarrow> \<exists>ys. tc_bump xs i n = Some ys \<and> fold (+) ys 0 = fold (+) xs 0 + n \<and> length ys = length xs"
  by (simp add: tc_bump_def sum_word_fold sum_list_bump)

lemma tc_add_total:
  assumes "tc_adds t \<noteq> []"
  shows "\<exists>t'. tc_add cpu t = Some t' \<and> total_adds t' = total_adds t + 1 \<and> tc_removes t' = tc_removes t
    \<and> length (tc_adds t') = length (tc_adds t)"
  using tc_bump_total [OF tc_stripe_less [OF assms], of cpu 1]
  by (auto simp: tc_add_def total_adds_def)

lemma tc_remove_total:
  assumes "tc_adds t \<noteq> []" "length (tc_removes t) = length (tc_adds t)"
  shows "\<exists>t'. tc_remove cpu t = Some t' \<and> total_removes t' = total_removes t + 1 \<and> tc_adds t' = tc_adds t
    \<and> length (tc_removes t') = length (tc_removes t)"
  using tc_bump_total [of "tc_stripe cpu t" "tc_removes t" 1] tc_stripe_less [OF assms(1), of cpu] assms(2)
  by (auto simp: tc_remove_def total_removes_def)

text \<open>
  A scan that saw no expiry added meanwhile moves the count of live keys to what the scan counted, though never above the additions; a scan
  that raced with an addition leaves the counters alone.
\<close>

lemma finish_ttl_scan_law:
  assumes "tc_removes t \<noteq> []"
  shows "\<exists>t'. finish_ttl_scan g n t = Some t' \<and> total_adds t' = total_adds t
     \<and> tc_live t' = (if total_adds t = g then min n (unat (total_adds t)) else tc_live t)"
proof -
  have len: "0 < length (tc_removes t)" using assms(1) by simp
  define target :: "64 word" where "target = of_nat (unat (total_adds t) - n)"
  have u: "unat target = unat (total_adds t) - n"
    using unsigned_less [of "total_adds t", where ?'a = nat] by (simp add: target_def unat_of_nat)
  have up: "\<exists>t'. map_option (\<lambda>a. t\<lparr>tc_removes := a\<rparr>) (tc_bump (tc_removes t) 0 d) = Some t'
      \<and> total_adds t' = total_adds t \<and> total_removes t' = total_removes t + d" for d
    using tc_bump_total [OF len, of d] by (auto simp: total_adds_def total_removes_def)
  have "\<exists>t'. tc_set_live n t = Some t' \<and> total_adds t' = total_adds t \<and> total_removes t' = target"
    using up [of "target - total_removes t"] up [of "- (total_removes t - target)"]
    by (auto simp: tc_set_live_def Let_def target_def [symmetric] not_less intro: exI [of _ t])
  then obtain t' where "tc_set_live n t = Some t'" "total_adds t' = total_adds t" "total_removes t' = target"
    by blast
  then show ?thesis using u by (auto simp: finish_ttl_scan_def tc_live_def)
qed

end
