(* ===== verification/ListCmds.thy ===== *)
theory ListCmds
  imports Store Resp
begin

text \<open>
  The list commands, \<^verbatim>\<open>src/storage/list.rs\<close>.  Every command is a function of the clocks, its
  arguments and the store, and returns the reply with the new store; \<^verbatim>\<open>None\<close> is a panic or a loop
  that does not end.  The closures the commands pass to the map are the local functions of the
  definitions.  Lengths of vectors are below \<^verbatim>\<open>2 ^ 63\<close>, so \<^verbatim>\<open>len as i64\<close> keeps the value.
\<close>

section \<open>Index arithmetic\<close>

definition range_bounds :: "int \<Rightarrow> int \<Rightarrow> nat \<Rightarrow> (nat \<times> nat) option" where
  "range_bounds start stop len =
     (if len = 0 then None
      else
        (let n = int len;
             s = (if start < 0 then max (n + start) 0 else min start n);
             e = (if stop < 0 then max (n + stop) (-1) else min stop (n - 1))
         in if s > e \<or> s \<ge> n then None else Some (nat s, nat (e - s + 1))))"

definition normalize_index :: "int \<Rightarrow> nat \<Rightarrow> nat option" where
  "normalize_index index len =
     (if index < 0 then
        (let adjusted = int len + index in
         if adjusted < 0 then None else if nat adjusted < len then Some (nat adjusted) else None)
      else if nat index < len then Some (nat index) else None)"

section \<open>Pushing\<close>

definition push_values :: "bytes list \<Rightarrow> bool \<Rightarrow> list_value \<Rightarrow> (nat \<times> list_value) option" where
  "push_values values front l = do {
     l' \<leftarrow> push_all (\<lambda>q v. if front then lv_push_front q v else lv_push_back q v) values l;
     Some (lv_len l', l') }"

definition list_push_update ::
    "env \<Rightarrow> bytes list \<Rightarrow> bool \<Rightarrow> ('z, 't) store_value \<Rightarrow> ((err + nat) \<times> ('z, 't) store_value) option" where
  "list_push_update E values front val =
     (if is_expired E val then do {
        (n, l) \<leftarrow> push_values values front lv_new;
        Some (Ok n, \<lparr>sv_value = FList l, sv_expires_ms = 0\<rparr>) }
      else
        (case as_list (sv_value val) of
           Some l \<Rightarrow> do { (n, l') \<leftarrow> push_values values front l; Some (Ok n, val\<lparr>sv_value := FList l'\<rparr>) }
         | None \<Rightarrow> Some (Err ''WRONGTYPE'', val)))"

partial_function (option) list_push ::
    "env \<Rightarrow> key \<Rightarrow> bytes list \<Rightarrow> bool \<Rightarrow> ('z, 't) store \<Rightarrow> ('z, 't, nat) outcome" where
  "list_push E k values front st = do {
     (result, st1) \<leftarrow> st_update_with k (list_push_update E values front) st;
     (case result of
        Some r \<Rightarrow> Some (r, st1)
      | None \<Rightarrow> do {
          (n, l) \<leftarrow> push_values values front lv_new;
          (let (is_new, st2) = st_insert_if_absent k (sv_of (FList l)) st1 in
           if is_new then Some (Ok n, st2) else list_push E k values front st2) }) }"

definition lpush :: "env \<Rightarrow> key \<Rightarrow> bytes list \<Rightarrow> ('z, 't) store \<Rightarrow> ('z, 't, nat) outcome" where
  "lpush E k values st = do {
     (r, st1) \<leftarrow> list_push E k values True st;
     Some (r, if \<not> isl r then signal k st1 else st1) }"

definition rpush :: "env \<Rightarrow> key \<Rightarrow> bytes list \<Rightarrow> ('z, 't) store \<Rightarrow> ('z, 't, nat) outcome" where
  "rpush E k values st = do {
     (r, st1) \<leftarrow> list_push E k values False st;
     Some (r, if \<not> isl r then signal k st1 else st1) }"

section \<open>Reading and writing an existing list\<close>

text \<open>The first argument is \<^verbatim>\<open>R::default()\<close>.\<close>

definition list_write ::
    "'r \<Rightarrow> env \<Rightarrow> key \<Rightarrow> (list_value \<Rightarrow> ('r \<times> list_value) option) \<Rightarrow> ('z, 't) store \<Rightarrow> ('z, 't, 'r) outcome" where
  "list_write dflt E k f st = do {
     (result, st1) \<leftarrow> st_update_with k (\<lambda>val.
        if is_expired E val then Some (Ok dflt, val)
        else
          (case as_list (sv_value val) of
             Some l \<Rightarrow> do { (r, l') \<leftarrow> f l; Some (Ok r, val\<lparr>sv_value := FList l'\<rparr>) }
           | None \<Rightarrow> Some (Err ''WRONGTYPE'', val))) st;
     Some (case result of Some r \<Rightarrow> r | None \<Rightarrow> Ok dflt, st1) }"

definition list_read ::
    "'r \<Rightarrow> env \<Rightarrow> key \<Rightarrow> (list_value \<Rightarrow> 'r option) \<Rightarrow> ('z, 't) store \<Rightarrow> (err + 'r) option" where
  "list_read dflt E k f st =
     (case st_get_ref k st of
        None \<Rightarrow> Some (Ok dflt)
      | Some e \<Rightarrow>
          if is_expired E e then Some (Ok dflt)
          else
            (case as_list (sv_value e) of
               Some l \<Rightarrow> map_option Ok (f l)
             | None \<Rightarrow> Some (Err ''WRONGTYPE'')))"

definition lpop :: "env \<Rightarrow> key \<Rightarrow> nat \<Rightarrow> ('z, 't) store \<Rightarrow> ('z, 't, bytes list) outcome" where
  "lpop E k count = list_write [] E k (\<lambda>l. pop_n lv_pop_front (min count (lv_len l)) l)"

definition rpop :: "env \<Rightarrow> key \<Rightarrow> nat \<Rightarrow> ('z, 't) store \<Rightarrow> ('z, 't, bytes list) outcome" where
  "rpop E k count = list_write [] E k (\<lambda>l. pop_n lv_pop_back (min count (lv_len l)) l)"

definition pop_with :: "bool \<Rightarrow> (bytes \<Rightarrow> 'r) \<Rightarrow> list_value \<Rightarrow> ('r option \<times> list_value) option" where
  "pop_with from_back f l = (if from_back then lv_pop_back_with f l else lv_pop_front_with f l)"

fun pop_many_loop ::
    "bool \<Rightarrow> nat \<Rightarrow> outbuf \<Rightarrow> list_value \<Rightarrow> ((nat \<times> outbuf) \<times> list_value) option" where
  "pop_many_loop from_back 0 out l = Some ((0, out), l)"
| "pop_many_loop from_back (Suc left) out l = do {
     (hit, l1) \<leftarrow> pop_with from_back (\<lambda>s. write_bulk out s) l;
     (case hit of
        None \<Rightarrow> Some ((0, out), l1)
      | Some written \<Rightarrow> do {
          out1 \<leftarrow> written;
          ((n, out2), l2) \<leftarrow> pop_many_loop from_back left out1 l1;
          Some ((n + 1, out2), l2) }) }"

text \<open>The default of a command that writes to a buffer leaves the buffer as it is.\<close>

definition pop_many_to_buf ::
    "env \<Rightarrow> key \<Rightarrow> nat \<Rightarrow> bool \<Rightarrow> outbuf \<Rightarrow> ('z, 't) store \<Rightarrow> ('z, 't, nat \<times> outbuf) outcome" where
  "pop_many_to_buf E k count from_back out = list_write (0, out) E k (pop_many_loop from_back count out)"

definition pop_one_to_buf ::
    "env \<Rightarrow> key \<Rightarrow> bool \<Rightarrow> outbuf \<Rightarrow> ('z, 't) store \<Rightarrow> ('z, 't, bool \<times> outbuf) outcome" where
  "pop_one_to_buf E k from_back out = list_write (False, out) E k (\<lambda>l. do {
     (hit, l1) \<leftarrow> pop_with from_back (\<lambda>s. write_bulk out s) l;
     (case hit of
        None \<Rightarrow> Some ((False, out), l1)
      | Some written \<Rightarrow> do { out1 \<leftarrow> written; Some ((True, out1), l1) }) })"

definition pop_one_to_scratch ::
    "env \<Rightarrow> key \<Rightarrow> bool \<Rightarrow> bytes \<Rightarrow> ('z, 't) store \<Rightarrow> ('z, 't, bool \<times> bytes) outcome" where
  "pop_one_to_scratch E k from_back scratch = list_write (False, scratch) E k (\<lambda>l. do {
     (hit, l1) \<leftarrow> pop_with from_back (\<lambda>s. s) l;
     Some (case hit of None \<Rightarrow> (False, scratch) | Some s \<Rightarrow> (True, s), l1) })"

definition llen :: "env \<Rightarrow> key \<Rightarrow> ('z, 't) store \<Rightarrow> (err + nat) option" where
  "llen E k = list_read 0 E k (\<lambda>l. Some (lv_len l))"

definition lindex :: "env \<Rightarrow> key \<Rightarrow> int \<Rightarrow> ('z, 't) store \<Rightarrow> (err + bytes option) option" where
  "lindex E k index = list_read None E k (\<lambda>l.
     (case normalize_index index (lv_len l) of None \<Rightarrow> Some None | Some i \<Rightarrow> lv_get l i))"

definition lindex_to_buf ::
    "env \<Rightarrow> key \<Rightarrow> int \<Rightarrow> outbuf \<Rightarrow> ('z, 't) store \<Rightarrow> (err + bool \<times> outbuf) option" where
  "lindex_to_buf E k index out = list_read (False, out) E k (\<lambda>l. do {
     found \<leftarrow> (case normalize_index index (lv_len l) of None \<Rightarrow> Some None | Some i \<Rightarrow> lv_get l i);
     (case found of
        Some s \<Rightarrow> map_option (Pair True) (write_bulk out s)
      | None \<Rightarrow> map_option (Pair False) (write_nil out)) })"

section \<open>Changing elements\<close>

definition lset :: "env \<Rightarrow> key \<Rightarrow> int \<Rightarrow> bytes \<Rightarrow> ('z, 't) store \<Rightarrow> ('z, 't, bool) outcome" where
  "lset E k index value st = do {
     (result, st1) \<leftarrow> st_update_with k (\<lambda>val.
        if is_expired E val then Some (Err ''no such key'', val)
        else
          (case as_list (sv_value val) of
             Some l \<Rightarrow>
               (case normalize_index index (lv_len l) of
                  Some i \<Rightarrow> do { (r, l') \<leftarrow> lv_set l i value; Some (Ok r, val\<lparr>sv_value := FList l'\<rparr>) }
                | None \<Rightarrow> Some (Err ''index out of range'', val))
           | None \<Rightarrow> Some (Err ''WRONGTYPE'', val))) st;
     Some (case result of Some r \<Rightarrow> r | None \<Rightarrow> Err ''no such key'', st1) }"

text \<open>\<^verbatim>\<open>read_consistent\<close> runs the closure on the entry of the key, here once.\<close>

definition lrange :: "env \<Rightarrow> key \<Rightarrow> int \<Rightarrow> int \<Rightarrow> ('z, 't) store \<Rightarrow> (err + bytes list) option" where
  "lrange E k start stop st =
     (case entries st k of
        None \<Rightarrow> Some (Ok [])
      | Some val \<Rightarrow>
          if is_expired E val then Some (Ok [])
          else
            (case as_list (sv_value val) of
               Some l \<Rightarrow>
                 (case range_bounds start stop (lv_len l) of
                    Some (s, n) \<Rightarrow> map_option Ok (lv_range l s n)
                  | None \<Rightarrow> Some (Ok []))
             | None \<Rightarrow> Some (Err ''WRONGTYPE'')))"

definition lrange_to_buf ::
    "env \<Rightarrow> key \<Rightarrow> int \<Rightarrow> int \<Rightarrow> outbuf \<Rightarrow> ('z, 't) store \<Rightarrow> ((err + nat) \<times> outbuf) option" where
  "lrange_to_buf E k start stop out st =
     (let start_len = ob_len out in
      case entries st k of
        None \<Rightarrow> do { out1 \<leftarrow> write_array_header (ob_truncate out start_len) 0; Some (Ok 0, out1) }
      | Some val \<Rightarrow>
          (let out0 = ob_truncate out start_len in
           if is_expired E val then do { out1 \<leftarrow> write_array_header out0 0; Some (Ok 0, out1) }
           else
             (case as_list (sv_value val) of
                Some l \<Rightarrow>
                  (case range_bounds start stop (lv_len l) of
                     None \<Rightarrow> do { out1 \<leftarrow> write_array_header out0 0; Some (Ok 0, out1) }
                   | Some (s, n) \<Rightarrow> do {
                       out1 \<leftarrow> write_array_header (ob_reserve out0 (n * 20)) n;
                       vs \<leftarrow> lv_range l s n;
                       out2 \<leftarrow> write_each write_bulk out1 vs;
                       Some (Ok n, out2) })
              | None \<Rightarrow> Some (Err ''WRONGTYPE'', out0))))"

definition ltrim :: "env \<Rightarrow> key \<Rightarrow> int \<Rightarrow> int \<Rightarrow> ('z, 't) store \<Rightarrow> ('z, 't, unit) outcome" where
  "ltrim E k start stop = list_write () E k (\<lambda>l.
     (case range_bounds start stop (lv_len l) of
        Some (s, n) \<Rightarrow> map_option (Pair ()) (lv_trim l s n)
      | None \<Rightarrow> Some ((), lv_clear l)))"

text \<open>\<^verbatim>\<open>shrink_to_fit\<close> gives back spare capacity and leaves the list as it is.\<close>

definition lrem :: "env \<Rightarrow> key \<Rightarrow> int \<Rightarrow> bytes \<Rightarrow> ('z, 't) store \<Rightarrow> ('z, 't, nat) outcome" where
  "lrem E k count value = list_write 0 E k (\<lambda>l.
     lv_remove_matching l value (if count = 0 then usize_max else nat \<bar>count\<bar>) (count < 0))"

definition linsert :: "env \<Rightarrow> key \<Rightarrow> bool \<Rightarrow> bytes \<Rightarrow> bytes \<Rightarrow> ('z, 't) store \<Rightarrow> ('z, 't, int) outcome" where
  "linsert E k before pivot value st = do {
     (result, st1) \<leftarrow> st_update_with k (\<lambda>val.
        if is_expired E val then Some (Ok (-1), val)
        else
          (case as_list (sv_value val) of
             Some l \<Rightarrow> do {
               p \<leftarrow> lv_position l pivot;
               (case p of
                  Some idx \<Rightarrow> do {
                    l' \<leftarrow> lv_insert l (if before then idx else idx + 1) value;
                    Some (Ok (int (lv_len l')), val\<lparr>sv_value := FList l'\<rparr>) }
                | None \<Rightarrow> Some (Ok (-1), val)) }
           | None \<Rightarrow> Some (Err ''WRONGTYPE'', val))) st;
     Some (case result of Some r \<Rightarrow> r | None \<Rightarrow> Ok 0, st1) }"

section \<open>Searching\<close>

text \<open>
  One scan of \<^verbatim>\<open>lpos\<close>: the positions \<^verbatim>\<open>ix\<close> paired with the elements, the number of matches still to skip
  (\<^verbatim>\<open>seen\<close> against \<^verbatim>\<open>skip\<close>) and the results so far, newest last.
\<close>

fun lpos_scan :: "bytes \<Rightarrow> nat \<Rightarrow> nat \<Rightarrow> (nat \<times> bytes) list \<Rightarrow> nat \<Rightarrow> nat list \<Rightarrow> nat list" where
  "lpos_scan value skip count [] seen results = results"
| "lpos_scan value skip count ((i, v) # rest) seen results =
     (if v = value then
        (if seen \<ge> skip then
           (let results' = results @ [i] in
            if count > 0 \<and> length results' \<ge> count then results'
            else lpos_scan value skip count rest (seen + 1) results')
         else lpos_scan value skip count rest (seen + 1) results)
      else lpos_scan value skip count rest seen results)"

definition lpos :: "env \<Rightarrow> key \<Rightarrow> bytes \<Rightarrow> int \<Rightarrow> nat \<Rightarrow> nat \<Rightarrow> ('z, 't) store \<Rightarrow> (err + nat list) option" where
  "lpos E k value rank count maxlen = list_read [] E k (\<lambda>l. do {
     items \<leftarrow> lv_iter l;
     let len = lv_len l;
     let max = (if maxlen = 0 then len else min maxlen len);
     Some (if rank \<ge> 0 then
             (let skip = (if rank = 0 then 0 else as_usize (rank - 1)) in
              lpos_scan value skip count (take max (enumerate 0 items)) 0 [])
           else
             (let skip = as_usize (wrap_i64 (wrap_i64 (- rank) - 1)) in
              lpos_scan value skip count
                (take max (map (\<lambda>(i, v). (len - 1 - i, v)) (enumerate 0 (rev items)))) 0 [])) })"

section \<open>Moving between lists\<close>

definition lmove_impl ::
    "env \<Rightarrow> key \<Rightarrow> key \<Rightarrow> bool \<Rightarrow> bool \<Rightarrow> ('z, 't) store \<Rightarrow> ('z, 't, bytes option) outcome" where
  "lmove_impl E src dst left_src left_dst st =
     (if (case st_get_ref dst st of
            None \<Rightarrow> False
          | Some e \<Rightarrow> \<not> is_expired E e \<and> as_list (sv_value e) = None)
      then do {
        n \<leftarrow> llen E src st;
        Some (case n of
                Err e \<Rightarrow> Err e
              | Ok n \<Rightarrow> if n > 0 then Err ''WRONGTYPE'' else Ok None, st) }
      else do {
        (popped, st1) \<leftarrow> list_write None E src (\<lambda>l. if left_src then lv_pop_front l else lv_pop_back l) st;
        (case popped of
           Err e \<Rightarrow> Some (Err e, st1)
         | Ok None \<Rightarrow> Some (Ok None, st1)
         | Ok (Some value) \<Rightarrow> do {
             (pushed, st2) \<leftarrow> list_push E dst [value] left_dst st1;
             (case pushed of
                Err e \<Rightarrow> do {
                  (_, st3) \<leftarrow> list_push E src [value] left_src st2;
                  Some (Err e, st3) }
              | Ok _ \<Rightarrow> Some (Ok (Some value), st2)) }) })"

definition lmove ::
    "env \<Rightarrow> key \<Rightarrow> key \<Rightarrow> bool \<Rightarrow> bool \<Rightarrow> ('z, 't) store \<Rightarrow> ('z, 't, bytes option) outcome" where
  "lmove E src dst left_src left_dst st = do {
     (r, st1) \<leftarrow> lmove_impl E src dst left_src left_dst st;
     Some (r, if \<not> isl r then signal dst st1 else st1) }"

section \<open>What a client sees\<close>

text \<open>
  A key seen by a list command: nothing (absent or expired), a value of another type, or a list.  A
  command that changes one key leaves the entries of the others, the registry and the counters.
\<close>

datatype list_view = Missing | NotList | IsList "bytes list"

definition list_view :: "env \<Rightarrow> key \<Rightarrow> ('z, 't) store \<Rightarrow> list_view" where
  "list_view E k st =
     (case live_at E k st of
        None \<Rightarrow> Missing
      | Some v \<Rightarrow> (case as_list (sv_value v) of None \<Rightarrow> NotList | Some l \<Rightarrow> IsList (lv_abs l)))"

definition list_after :: "env \<Rightarrow> key \<Rightarrow> list_view \<Rightarrow> ('z, 't) store \<Rightarrow> ('z, 't) store \<Rightarrow> bool" where
  "list_after E k v st st' \<longleftrightarrow> store_ok st' \<and> list_view E k st' = v
     \<and> (\<forall>j. j \<noteq> k \<longrightarrow> entries st' j = entries st j)
     \<and> st_blocking st' = st_blocking st \<and> st_ttl st' = st_ttl st"

definition list_quiet :: "env \<Rightarrow> key \<Rightarrow> list_view \<Rightarrow> ('z, 't) store \<Rightarrow> ('z, 't) store \<Rightarrow> bool" where
  "list_quiet E k v st st' \<longleftrightarrow> list_after E k v st st' \<and> st_woken st' = st_woken st"

fun elems :: "list_view \<Rightarrow> bytes list" where
  "elems (IsList xs) = xs"
| "elems _ = []"

text \<open>The elements between two Redis indices, the negative ones counted from the end.\<close>

definition redis_slice :: "int \<Rightarrow> int \<Rightarrow> 'a list \<Rightarrow> 'a list" where
  "redis_slice start stop xs =
     (let lo = (if start < 0 then int (length xs) + start else start);
          hi = (if stop < 0 then int (length xs) + stop else stop)
      in nths xs {i. lo \<le> int i \<and> int i \<le> hi})"

text \<open>What LINSERT and LMOVE do to the elements.\<close>

fun insert_near :: "bool \<Rightarrow> 'a \<Rightarrow> 'a \<Rightarrow> 'a list \<Rightarrow> 'a list" where
  "insert_near before pivot s [] = []"
| "insert_near before pivot s (x # xs) =
     (if x = pivot then (if before then s # x # xs else x # s # xs) else x # insert_near before pivot s xs)"

definition pop_end :: "bool \<Rightarrow> 'a list \<Rightarrow> 'a list" where
  "pop_end left xs = (if left then tl xs else butlast xs)"

definition push_end :: "bool \<Rightarrow> 'a \<Rightarrow> 'a list \<Rightarrow> 'a list" where
  "push_end left x xs = (if left then x # xs else xs @ [x])"

text \<open>The effect of a move on what the list commands see of every key.\<close>

definition moved_view ::
    "key \<Rightarrow> key \<Rightarrow> bool \<Rightarrow> bool \<Rightarrow> (key \<Rightarrow> list_view) \<Rightarrow> key \<Rightarrow> list_view" where
  "moved_view src dst left_src left_dst V =
     (let xs = elems (V src);
          x = (if left_src then hd xs else last xs);
          V1 = V(src := IsList (pop_end left_src xs))
      in V1(dst := IsList (push_end left_dst x (elems (V1 dst)))))"

text \<open>A store with one list, for concrete instances.\<close>

definition list_key :: "bytes list \<Rightarrow> ('z, 't) store" where
  "list_key xs = st_insert [107] (sv_of (FList (Small xs))) (store_new 1)"

section \<open>Index arithmetic\<close>

lemma nths_interval: "nths xs {i. a \<le> i \<and> i < b} = take (b - a) (drop a xs)"
proof (induction xs arbitrary: a b)
  case (Cons x xs)
  have "{j. a \<le> Suc j \<and> Suc j < b} = {i. a - 1 \<le> i \<and> i < b - 1}" by auto
  with Cons.IH [of "a - 1" "b - 1"] show ?case by (cases a; cases b) (auto simp: nths_Cons)
qed simp

lemma nths_cong_length: "(\<And>i. i < length xs \<Longrightarrow> i \<in> A \<longleftrightarrow> i \<in> B) \<Longrightarrow> nths xs A = nths xs B"
  unfolding nths_def by (intro arg_cong [where f = "map fst"] filter_cong) (auto dest: set_zip_rightD)

lemma range_bounds_None:
  "range_bounds start stop n = None \<Longrightarrow> i < n \<Longrightarrow>
   \<not> ((if start < 0 then int n + start else start) \<le> int i \<and> int i \<le> (if stop < 0 then int n + stop else stop))"
  by (cases "start < 0"; cases "stop < 0") (simp_all add: range_bounds_def Let_def split: if_splits, linarith+)

lemma range_bounds_Some:
  assumes "range_bounds start stop n = Some (s, m)"
  shows "s + m \<le> n" "0 < m"
    and "i < n \<Longrightarrow> (s \<le> i \<and> i < s + m) \<longleftrightarrow>
      (if start < 0 then int n + start else start) \<le> int i \<and> int i \<le> (if stop < 0 then int n + stop else stop)"
  using assms
  by (cases "start < 0"; cases "stop < 0"; simp add: range_bounds_def Let_def split: if_splits; linarith)+

lemma range_bounds_slice:
  "(case range_bounds start stop (length xs) of None \<Rightarrow> [] | Some (s, n) \<Rightarrow> take n (drop s xs))
     = redis_slice start stop xs"
proof (cases "range_bounds start stop (length xs)")
  case None
  have "redis_slice start stop xs = nths xs {}"
    unfolding redis_slice_def Let_def using range_bounds_None [OF None] by (intro nths_cong_length) simp
  with None show ?thesis by simp
next
  case (Some p)
  obtain s n where p: "p = (s, n)" by (cases p)
  have "redis_slice start stop xs = nths xs {i. s \<le> i \<and> i < s + n}"
    unfolding redis_slice_def Let_def using range_bounds_Some(3) [OF Some [unfolded p]]
    by (intro nths_cong_length) simp
  with Some p show ?thesis by (simp add: nths_interval)
qed

lemma normalize_index_Some: "normalize_index i n = Some j \<Longrightarrow> j < n"
  by (auto simp: normalize_index_def Let_def split: if_splits)

section \<open>The commands on the view\<close>

lemma list_viewE:
  assumes "store_ok st"
  obtains (missing) "list_view E k st = Missing" "live_at E k st = None"
  | (other) v where "list_view E k st = NotList" "entries st k = Some v" "\<not> is_expired E v" "as_list (sv_value v) = None"
  | (list) v l where "list_view E k st = IsList (lv_abs l)" "entries st k = Some v" "\<not> is_expired E v"
      "sv_value v = FList l" "lv_inv l"
proof (cases "live_at E k st")
  case None
  then show ?thesis by (intro missing) (auto simp: list_view_def)
next
  case (Some v)
  then have v: "entries st k = Some v" "\<not> is_expired E v" by (auto simp: live_at_Some)
  show ?thesis
  proof (cases "sv_value v")
    case (FList l)
    with store_okD [OF assms v(1)] v Some show ?thesis by (intro list) (auto simp: list_view_def)
  qed (use v Some other in \<open>auto simp: list_view_def\<close>)
qed

lemma list_after_signal [simp]: "list_after E k v st (signal j st') = list_after E k v st st'"
  by (simp add: list_after_def list_view_def live_at_def)

lemma list_quiet_changes:
  assumes "store_ok st" "changes st k (Some v) st'" "\<not> is_expired E v" "sv_value v = FList l" "lv_inv l"
  shows "list_quiet E k (IsList (lv_abs l)) st st'"
proof -
  have "store_ok st'" using changes_ok [OF assms(2,1)] assms(4,5) by simp
  with assms show ?thesis
    by (auto simp: list_quiet_def list_after_def list_view_def live_at_changes changes_def)
qed

lemma list_quiet_same:
  assumes "store_ok st" "changes st k (entries st k) st'"
  shows "list_quiet E k (list_view E k st) st st'"
proof -
  have "store_ok st'" using changes_ok [OF assms(2,1)] assms(1) by (auto simp: store_ok_def)
  with assms show ?thesis
    by (auto simp: list_quiet_def list_after_def list_view_def live_at_def changes_def)
qed

lemma list_quiet_refl: "store_ok st \<Longrightarrow> list_quiet E k (list_view E k st) st st"
  by (simp add: list_quiet_def list_after_def)

text \<open>
  The rule for a command that runs a closure on the list: what the closure does to the elements, as a
  relation between the elements before, its result and the elements after, is what the command does.
\<close>

lemma list_write_rel:
  assumes ok: "store_ok st"
    and f: "\<And>l. lv_inv l \<Longrightarrow> list_view E k st = IsList (lv_abs l) \<Longrightarrow>
      \<exists>r l'. f l = Some (r, l') \<and> lv_inv l' \<and> R (lv_abs l) r (lv_abs l')"
  shows "\<exists>r v st'. list_write d E k f st = Some (r, st') \<and> list_quiet E k v st st'
     \<and> (case list_view E k st of
          Missing \<Rightarrow> r = Ok d \<and> v = Missing
        | NotList \<Rightarrow> r = Err ''WRONGTYPE'' \<and> v = NotList
        | IsList xs \<Rightarrow> (\<exists>a ys. r = Ok a \<and> v = IsList ys \<and> R xs a ys))"
proof -
  let ?f = "\<lambda>val. if is_expired E val then Some (Ok d, val) else
      (case as_list (sv_value val) of Some l \<Rightarrow> do { (r, l') \<leftarrow> f l; Some (Ok r, val\<lparr>sv_value := FList l'\<rparr>) }
       | None \<Rightarrow> Some (Err ''WRONGTYPE'', val))"
  have w: "list_write d E k f st = do { (result, st1) \<leftarrow> st_update_with k ?f st;
      Some (case result of Some r \<Rightarrow> r | None \<Rightarrow> Ok d, st1) }" by (simp add: list_write_def)
  show ?thesis
  proof (rule list_viewE [OF ok, of E k])
    assume m: "list_view E k st = Missing" "live_at E k st = None"
    show ?thesis
    proof (cases "entries st k")
      case None
      with m ok show ?thesis using list_quiet_refl [OF ok, of E k] by (simp add: w st_update_with_None)
    next
      case (Some v)
      with m have "is_expired E v" by (auto simp: live_at_None)
      then have "?f v = Some (Ok d, v)" by simp
      from st_update_with_Some [where f = ?f, OF Some this] obtain st' where
        st': "st_update_with k ?f st = Some (Some (Ok d), st')" "changes st k (entries st k) st'"
        unfolding Some by blast
      from list_quiet_same [OF ok st'(2), of E] m st'(1) show ?thesis by (simp add: w)
    qed
  next
    fix v assume v: "list_view E k st = NotList" "entries st k = Some v" "\<not> is_expired E v" "as_list (sv_value v) = None"
    then have "?f v = Some (Err ''WRONGTYPE'', v)" by simp
    from st_update_with_Some [where f = ?f, OF v(2) this] obtain st' where
      st': "st_update_with k ?f st = Some (Some (Err ''WRONGTYPE''), st')" "changes st k (entries st k) st'"
      unfolding v(2) by blast
    from list_quiet_same [OF ok st'(2), of E] v(1) st'(1) show ?thesis by (simp add: w)
  next
    fix v l assume v: "list_view E k st = IsList (lv_abs l)" "entries st k = Some v" "\<not> is_expired E v"
      "sv_value v = FList l" "lv_inv l"
    from f [OF v(5,1)] obtain r l' where l': "f l = Some (r, l')" "lv_inv l'" "R (lv_abs l) r (lv_abs l')"
      by blast
    let ?v = "v\<lparr>sv_value := FList l'\<rparr>"
    have "?f v = Some (Ok r, ?v)" using v l' by simp
    from st_update_with_Some [where f = ?f, OF v(2) this] obtain st' where
      st': "st_update_with k ?f st = Some (Some (Ok r), st')" "changes st k (Some ?v) st'" by blast
    have "list_quiet E k (IsList (lv_abs l')) st st'"
      by (rule list_quiet_changes [OF ok st'(2)]) (use v l' in \<open>simp_all add: is_expired_def\<close>)
    with v l' st' show ?thesis by (intro exI [of _ "Ok r"] exI [of _ "IsList (lv_abs l')"]) (simp add: w)
  qed
qed

lemma list_write_spec:
  assumes ok: "store_ok st"
    and f: "\<And>l. lv_inv l \<Longrightarrow> list_view E k st = IsList (lv_abs l) \<Longrightarrow>
      \<exists>l'. f l = Some (g (lv_abs l), l') \<and> lv_inv l' \<and> lv_abs l' = h (lv_abs l)"
  shows "\<exists>st'. list_write d E k f st = Some (case list_view E k st of
        Missing \<Rightarrow> Ok d | NotList \<Rightarrow> Err ''WRONGTYPE'' | IsList xs \<Rightarrow> Ok (g xs), st')
     \<and> list_quiet E k (case list_view E k st of IsList xs \<Rightarrow> IsList (h xs) | v \<Rightarrow> v) st st'"
  using list_write_rel [OF ok, of E k f "\<lambda>xs r ys. r = g xs \<and> ys = h xs" d] f
  by (cases "list_view E k st") auto

lemma list_read_spec:
  assumes ok: "store_ok st"
    and f: "\<And>l. lv_inv l \<Longrightarrow> f l = Some (g (lv_abs l))"
  shows "list_read d E k f st = Some (case list_view E k st of
        Missing \<Rightarrow> Ok d | NotList \<Rightarrow> Err ''WRONGTYPE'' | IsList xs \<Rightarrow> Ok (g xs))"
  by (rule list_viewE [OF ok, of E k])
    (auto simp: list_read_def live_at_None f split: option.split)

lemma push_values_spec:
  assumes "lv_inv l" "\<forall>s\<in>set vs. ql_elem_ok s"
  shows "\<exists>l'. push_values vs front l = Some (length (lv_abs l) + length vs, l') \<and> lv_inv l'
    \<and> lv_abs l' = (if front then rev vs @ lv_abs l else lv_abs l @ vs)"
  using lv.push_back_all [OF assms] lv.push_front_all [OF assms]
  by (cases front) (auto simp: push_values_def lv.len_law)

lemma list_push_spec:
  assumes ok: "store_ok st" and vs: "\<forall>s\<in>set vs. ql_elem_ok s"
  shows "\<exists>st'. list_push E k vs front st = Some (case list_view E k st of
        NotList \<Rightarrow> Err ''WRONGTYPE'' | v \<Rightarrow> Ok (length (elems v) + length vs), st')
     \<and> list_quiet E k (case list_view E k st of NotList \<Rightarrow> NotList
          | v \<Rightarrow> IsList (if front then rev vs @ elems v else elems v @ vs)) st st'"
proof (rule list_viewE [OF ok, of E k])
  let ?new = "if front then rev vs else vs"
  let ?u = "list_push_update E vs front"
  assume m: "list_view E k st = Missing" "live_at E k st = None"
  obtain l where l: "push_values vs front lv_new = Some (length vs, l)" "lv_inv l" "lv_abs l = ?new"
    using push_values_spec [of lv_new vs front] vs lv.new_law by auto
  show ?thesis
  proof (cases "entries st k")
    case None
    from st_insert_if_absent_new [OF None, of "sv_of (FList l)"] obtain st' where
      st': "st_insert_if_absent k (sv_of (FList l)) st = (True, st')" "changes st k (Some (sv_of (FList l))) st'"
      by blast
    have "list_quiet E k (IsList (lv_abs l)) st st'"
      by (rule list_quiet_changes [OF ok st'(2)]) (use l in \<open>simp_all add: sv_of_def is_expired_def\<close>)
    with m l st' None show ?thesis
      by (subst list_push.simps) (cases front; simp add: st_update_with_None)
  next
    case (Some v)
    with m have x: "is_expired E v" by (auto simp: live_at_None)
    let ?v = "\<lparr>sv_value = FList l, sv_expires_ms = 0\<rparr>"
    have "?u v = Some (Ok (length vs), ?v)" using x l by (simp add: list_push_update_def)
    from st_update_with_Some [where f = ?u, OF Some this] obtain st' where
      st': "st_update_with k ?u st = Some (Some (Ok (length vs)), st')" "changes st k (Some ?v) st'" by blast
    have "list_quiet E k (IsList (lv_abs l)) st st'"
      by (rule list_quiet_changes [OF ok st'(2)]) (use l in \<open>simp_all add: is_expired_def\<close>)
    with m l st' show ?thesis by (subst list_push.simps) (cases front; simp)
  qed
next
  let ?u = "list_push_update E vs front"
  fix v assume v: "list_view E k st = NotList" "entries st k = Some v" "\<not> is_expired E v" "as_list (sv_value v) = None"
  then have "?u v = Some (Err ''WRONGTYPE'', v)" by (simp add: list_push_update_def)
  from st_update_with_Some [where f = ?u, OF v(2) this] obtain st' where
    st': "st_update_with k ?u st = Some (Some (Err ''WRONGTYPE''), st')" "changes st k (entries st k) st'"
    unfolding v(2) by blast
  from list_quiet_same [OF ok st'(2), of E] v(1) st'(1) show ?thesis by (subst list_push.simps) simp
next
  let ?u = "list_push_update E vs front"
  fix v l assume v: "list_view E k st = IsList (lv_abs l)" "entries st k = Some v" "\<not> is_expired E v"
      "sv_value v = FList l" "lv_inv l"
  from push_values_spec [OF v(5) vs, of front] obtain l' where
    l': "push_values vs front l = Some (length (lv_abs l) + length vs, l')" "lv_inv l'"
      "lv_abs l' = (if front then rev vs @ lv_abs l else lv_abs l @ vs)" by blast
  let ?v = "v\<lparr>sv_value := FList l'\<rparr>"
  have "?u v = Some (Ok (length (lv_abs l) + length vs), ?v)" using v l' by (simp add: list_push_update_def)
  from st_update_with_Some [where f = ?u, OF v(2) this] obtain st' where
    st': "st_update_with k ?u st = Some (Some (Ok (length (lv_abs l) + length vs)), st')" "changes st k (Some ?v) st'"
    by blast
  have "list_quiet E k (IsList (lv_abs l')) st st'"
    by (rule list_quiet_changes [OF ok st'(2)]) (use v l' in \<open>simp_all add: is_expired_def\<close>)
  with v l' st' show ?thesis by (subst list_push.simps) (cases front; simp)
qed

section \<open>Correctness of the commands\<close>

lemma elem_ok_resp: "ql_elem_ok s \<Longrightarrow> length s < 2 ^ 64"
  by (simp add: ql_elem_ok_def)

lemma lv_inv_elems: "lv_inv l \<Longrightarrow> s \<in> set (lv_abs l) \<Longrightarrow> ql_elem_ok s"
  by (cases l) auto

lemma list_view_missing: "entries st k = None \<Longrightarrow> list_view E k st = Missing"
  by (simp add: list_view_def live_at_def)

lemma list_key_simps:
  assumes "list_all ql_elem_ok xs" "length xs \<le> SMALL_MAX"
  shows "store_ok (list_key xs :: ('z, 't) store)" "list_view E [107] (list_key xs :: ('z, 't) store) = IsList xs"
    "list_view E [108] (list_key xs :: ('z, 't) store) = Missing"
proof -
  let ?st = "list_key xs :: ('z, 't) store"
  have c: "changes (store_new 1) [107] (Some (sv_of (FList (Small xs)))) ?st" unfolding list_key_def by (rule st_insert_changes)
  then have e: "entries ?st = [[107] \<mapsto> sv_of (FList (Small xs))]" by (auto simp: changes_def store_new_def)
  show "store_ok ?st" using assms by (intro changes_ok [OF c]) (auto simp: sv_of_def list_all_iff)
  show "list_view E [107] ?st = IsList xs" by (simp add: list_view_def live_at_def e) (simp add: sv_of_def)
  show "list_view E [108] ?st = Missing" by (simp add: list_view_def live_at_def e)
qed

lemma list_key_examples:
  "store_ok (list_key [] :: ('z, 't) store)" "list_view E [107] (list_key [] :: ('z, 't) store) = IsList []"
  "store_ok (list_key [[1], [2]] :: ('z, 't) store)" "list_view E [107] (list_key [[1], [2]] :: ('z, 't) store) = IsList [[1], [2]]"
  "list_view E [108] (list_key [[1], [2]] :: ('z, 't) store) = Missing"
  by (simp_all add: list_key_simps ql_elem_ok_def SMALL_MAX_def)

text \<open>C17. LPUSH and RPUSH: on a missing, expired or drained key they make a list of the pushed values, on a list
  they add the values at the chosen end in the order Redis gives them, and reply with the new length; the
  connections blocked on the key are woken.  On another type they reply WRONGTYPE, change nothing and
  wake no one.\<close>

theorem push_correct:
  assumes "store_ok st" "list_all ql_elem_ok vs"
  shows "\<exists>st'. (if front then lpush E k vs st else rpush E k vs st) =
      Some (case list_view E k st of NotList \<Rightarrow> Err ''WRONGTYPE'' | v \<Rightarrow> Ok (length (elems v) + length vs), st')
    \<and> list_after E k (case list_view E k st of NotList \<Rightarrow> NotList
          | v \<Rightarrow> IsList (if front then rev vs @ elems v else elems v @ vs)) st st'
    \<and> st_woken st' = st_woken st @ (if list_view E k st = NotList then [] else br_list (st_blocking st) k)"
proof -
  have br: "br_inv (st_blocking st)" using assms(1) by (simp add: store_ok_def)
  have vs: "\<forall>s\<in>set vs. ql_elem_ok s" using assms(2) by (simp add: list_all_iff)
  from list_push_spec [OF assms(1) vs, of E k front] obtain st' where
    st': "list_push E k vs front st = Some (case list_view E k st of
        NotList \<Rightarrow> Err ''WRONGTYPE'' | v \<Rightarrow> Ok (length (elems v) + length vs), st')"
      "list_quiet E k (case list_view E k st of NotList \<Rightarrow> NotList
          | v \<Rightarrow> IsList (if front then rev vs @ elems v else elems v @ vs)) st st'"
    by (elim exE conjE) (rule that)
  have w: "st_woken st' = st_woken st" "st_blocking st' = st_blocking st"
    using st'(2) by (simp_all add: list_after_def list_quiet_def)
  have s: "st_woken (signal k st') = st_woken st @ br_list (st_blocking st) k"
    using w br_signal_list [OF br] by (simp add: signal_def)
  show ?thesis
  proof (cases "list_view E k st = NotList")
    case True
    with st' w show ?thesis
      by (intro exI [of _ st'], cases front) (simp_all add: lpush_def rpush_def list_quiet_def)
  next
    case False
    with st' s show ?thesis
      by (intro exI [of _ "signal k st'"], cases "list_view E k st"; cases front)
        (simp_all add: lpush_def rpush_def list_quiet_def)
  qed
qed

theorem push_correct_witness:
  "\<exists>st'. lpush env0 [107] [[1], [2]] (store_new 1 :: (unit, unit) store) = Some (Ok 2, st')
    \<and> list_view env0 [107] st' = IsList [[2], [1]]"
  using push_correct [where st = "store_new 1 :: (unit, unit) store" and vs = "[[1], [2]]" and front = True
      and E = env0 and k = "[107]"]
  by (auto simp: ql_elem_ok_def list_view_missing list_after_def)

text \<open>C18. LPOP and RPOP with a count: the reply is the first elements from the chosen end, at most as
  many as asked for, in the order they are popped; what is left is the rest of the list.  A missing or
  expired key gives no element, another type WRONGTYPE, and neither changes anything.\<close>

theorem pop_correct:
  assumes "store_ok st"
  shows "\<exists>st'. (if from_back then rpop E k n st else lpop E k n st) =
      Some (case list_view E k st of NotList \<Rightarrow> Err ''WRONGTYPE''
        | v \<Rightarrow> Ok (take n (if from_back then rev (elems v) else elems v)), st')
    \<and> list_after E k (case list_view E k st of
         IsList xs \<Rightarrow> IsList (if from_back then take (length xs - n) xs else drop n xs) | v \<Rightarrow> v) st st'"
proof -
  let ?f = "\<lambda>l. pop_n (if from_back then lv_pop_back else lv_pop_front) (min n (lv_len l)) l"
  have f: "\<exists>l'. ?f l = Some (take n (if from_back then rev (lv_abs l) else lv_abs l), l') \<and> lv_inv l'
      \<and> lv_abs l' = (if from_back then take (length (lv_abs l) - n) (lv_abs l) else drop n (lv_abs l))"
    if "lv_inv l" for l
    using lv.pop_back_n [OF that, of "min n (lv_len l)"] lv.pop_front_n [OF that, of "min n (lv_len l)"]
    by (cases from_back; cases "n \<le> lv_len l")
      (auto simp: lv.len_law [OF that] min_def rev_drop not_le)
  have eq: "(if from_back then rpop E k n st else lpop E k n st) = list_write [] E k ?f st"
    by (simp add: rpop_def lpop_def)
  from list_write_spec [OF assms, of E k ?f "\<lambda>xs. take n (if from_back then rev xs else xs)"
      "\<lambda>xs. if from_back then take (length xs - n) xs else drop n xs" "[]"] f
  show ?thesis unfolding eq by (cases "list_view E k st") (auto simp: list_quiet_def)
qed

theorem pop_correct_witness:
  "\<exists>st'. rpop env0 [107] 1 (list_key [[1], [2]] :: (unit, unit) store) = Some (Ok [[2]], st') \<and> list_view env0 [107] st' = IsList [[1]]"
  using pop_correct [where st = "list_key [[1], [2]] :: (unit, unit) store" and from_back = True and E = env0 and k = "[107]" and n = 1]
  by (auto simp: list_key_examples list_after_def)

lemma pop_with_spec:
  assumes "lv_inv l"
  shows "\<exists>l'. pop_with from_back f l = Some (if lv_abs l = [] then None
      else Some (f (if from_back then last (lv_abs l) else hd (lv_abs l))), l') \<and> lv_inv l'
    \<and> lv_abs l' = (if from_back then butlast (lv_abs l) else tl (lv_abs l))"
  using lv_pop_front_with_abs [OF assms, of f] lv_pop_back_with_abs [OF assms, of f]
  by (cases from_back) (auto simp: pop_with_def)

lemma pop_many_loop_spec:
  assumes "lv_inv l" "ob_ok out"
  shows "\<exists>out' l'. pop_many_loop from_back n out l = Some ((min n (length (lv_abs l)), out'), l')
    \<and> lv_inv l' \<and> lv_abs l' = (if from_back then take (length (lv_abs l) - n) (lv_abs l) else drop n (lv_abs l))
    \<and> ob_ok out' \<and> ob_bytes out' = ob_bytes out
        @ concat (map resp_bulk (take n (if from_back then rev (lv_abs l) else lv_abs l)))"
  using assms
proof (induction n arbitrary: out l)
  case (Suc n)
  show ?case
  proof (cases "lv_abs l = []")
    case True
    with pop_with_spec [OF Suc.prems(1), of from_back "\<lambda>s. write_bulk out s"] Suc.prems show ?thesis by auto
  next
    case False
    let ?x = "if from_back then last (lv_abs l) else hd (lv_abs l)"
    let ?r = "if from_back then butlast (lv_abs l) else tl (lv_abs l)"
    from pop_with_spec [OF Suc.prems(1), of from_back "\<lambda>s. write_bulk out s"] False obtain l1 where
      l1: "pop_with from_back (\<lambda>s. write_bulk out s) l = Some (Some (write_bulk out ?x), l1)" "lv_inv l1" "lv_abs l1 = ?r"
      by auto
    have "ql_elem_ok ?x" using lv_inv_elems [OF Suc.prems(1)] False by simp
    from emitsE [OF emits_write_bulk [OF elem_ok_resp [OF this]] Suc.prems(2)] obtain out1 where
      out1: "write_bulk out ?x = Some out1" "ob_ok out1" "ob_bytes out1 = ob_bytes out @ resp_bulk ?x" by blast
    from Suc.IH [OF l1(2) out1(2)] obtain out' l' where
      l': "pop_many_loop from_back n out1 l1 = Some ((min n (length (lv_abs l1)), out'), l')" "lv_inv l'"
        "lv_abs l' = (if from_back then take (length (lv_abs l1) - n) (lv_abs l1) else drop n (lv_abs l1))"
        "ob_ok out'" "ob_bytes out' = ob_bytes out1
          @ concat (map resp_bulk (take n (if from_back then rev (lv_abs l1) else lv_abs l1)))"
      by (elim exE conjE) (rule that)
    show ?thesis
    proof (cases from_back)
      case True
      then obtain ys y where ys: "lv_abs l = ys @ [y]" using False by (cases "lv_abs l" rule: rev_cases) auto
      with True l1 l' out1 show ?thesis by auto
    next
      case False2: False
      then obtain ys y where ys: "lv_abs l = y # ys" using False by (cases "lv_abs l") auto
      with False2 l1 l' out1 show ?thesis by auto
    qed
  qed
qed auto

text \<open>Popping straight into the reply buffer writes the same elements that LPOP and RPOP return, each as
  a bulk string, and replies with their number.\<close>

theorem pop_many_to_buf_correct:
  assumes "store_ok st" "ob_ok out" "list_view E k st \<noteq> NotList"
  shows "\<exists>out' st'. pop_many_to_buf E k n from_back out st =
      Some (Ok (min n (length (elems (list_view E k st))), out'), st')
    \<and> ob_bytes out' = ob_bytes out @ concat (map resp_bulk (take n
        (if from_back then rev (elems (list_view E k st)) else elems (list_view E k st))))"
proof -
  have out: "ob_bytes out = ob_bytes out @ concat (map resp_bulk [])" by simp
  from list_write_rel [OF assms(1), of E k "pop_many_loop from_back n out" "\<lambda>xs (m, out') ys. m = min n (length xs)
      \<and> ob_bytes out' = ob_bytes out @ concat (map resp_bulk (take n (if from_back then rev xs else xs)))" "(0, out)"]
    pop_many_loop_spec [OF _ assms(2)]
  show ?thesis using assms(3) by (cases "list_view E k st") (fastforce simp: pop_many_to_buf_def)+
qed

theorem pop_many_to_buf_correct_witness:
  "\<exists>out' st'. pop_many_to_buf env0 [107] 2 True \<lparr>ob_mem = [1, 2, 3], ob_len = 1\<rparr> (store_new 1 :: (unit, unit) store)
      = Some (Ok (0, out'), st') \<and> ob_bytes out' = [1]"
  using pop_many_to_buf_correct [where st = "store_new 1 :: (unit, unit) store" and E = env0 and k = "[107]"
      and n = 2 and from_back = True and out = "\<lparr>ob_mem = [1, 2, 3], ob_len = 1\<rparr>"]
  by (simp add: list_view_missing ob_ok_def ob_bytes_def)

lemma redis_slice_Nil: "redis_slice start stop [] = []"
  by (simp add: redis_slice_def)

text \<open>C20. LRANGE returns the elements between the two indices, negative ones counted from the end and
  out-of-range ones clamped, and LTRIM keeps exactly the elements that LRANGE would return.\<close>

theorem lrange_ltrim_correct:
  assumes "store_ok st"
  shows "lrange E k start stop st = Some (case list_view E k st of
        NotList \<Rightarrow> Err ''WRONGTYPE'' | v \<Rightarrow> Ok (redis_slice start stop (elems v)))
    \<and> (\<exists>st'. ltrim E k start stop st =
          Some (if list_view E k st = NotList then Err ''WRONGTYPE'' else Ok (), st')
        \<and> list_after E k (case list_view E k st of
            IsList xs \<Rightarrow> IsList (redis_slice start stop xs) | v \<Rightarrow> v) st st')"
proof
  have rb: "(case range_bounds start stop (lv_len l) of Some (s, n) \<Rightarrow> map_option Ok (lv_range l s n) | None \<Rightarrow> Some (Ok []))
      = Some (Ok (redis_slice start stop (lv_abs l)))" if "lv_inv l" for l
    using range_bounds_slice [where start = start and stop = stop and xs = "lv_abs l"]
    by (auto simp: lv.len_law [OF that] lv.range_law [OF that] split: option.splits)
  show "lrange E k start stop st = Some (case list_view E k st of
        NotList \<Rightarrow> Err ''WRONGTYPE'' | v \<Rightarrow> Ok (redis_slice start stop (elems v)))"
  proof (rule list_viewE [OF assms, of E k])
    assume m: "list_view E k st = Missing" "live_at E k st = None"
    then show ?thesis by (auto simp: lrange_def live_at_None redis_slice_Nil split: option.split)
  qed (auto simp: lrange_def rb)
  have f: "\<exists>l'. (case range_bounds start stop (lv_len l) of Some (s, n) \<Rightarrow> map_option (Pair ()) (lv_trim l s n)
      | None \<Rightarrow> Some ((), lv_clear l)) = Some ((), l') \<and> lv_inv l' \<and> lv_abs l' = redis_slice start stop (lv_abs l)"
    if "lv_inv l" for l
  proof (cases "range_bounds start stop (lv_len l)")
    case None
    with range_bounds_slice [where start = start and stop = stop and xs = "lv_abs l"] lv.clear_law [OF that] lv.len_law [OF that] show ?thesis
      by auto
  next
    case (Some p)
    obtain s n where p: "p = (s, n)" by (cases p)
    with Some range_bounds_slice [where start = start and stop = stop and xs = "lv_abs l"] lv.trim_law [OF that, of s n] lv.len_law [OF that] show ?thesis
      by auto
  qed
  from list_write_spec [OF assms, of E k _ "\<lambda>_. ()" "redis_slice start stop"] f
  show "\<exists>st'. ltrim E k start stop st =
          Some (if list_view E k st = NotList then Err ''WRONGTYPE'' else Ok (), st')
        \<and> list_after E k (case list_view E k st of
            IsList xs \<Rightarrow> IsList (redis_slice start stop xs) | v \<Rightarrow> v) st st'"
    unfolding ltrim_def by (cases "list_view E k st") (fastforce simp: list_quiet_def)+
qed

theorem lrange_ltrim_correct_witness:
  "lrange env0 [107] 0 (-2) (list_key [[1], [2]] :: (unit, unit) store) = Some (Ok [[1]])"
  using lrange_ltrim_correct [where st = "list_key [[1], [2]] :: (unit, unit) store" and E = env0 and k = "[107]"
      and start = 0 and stop = "-2"]
  by (simp add: list_key_examples redis_slice_def nths_Cons)

lemma emits_lrange:
  assumes "list_all ql_elem_ok vs" "length vs = n" "n < 2 ^ 64"
  shows "emits (\<lambda>out. do { out1 \<leftarrow> write_array_header (ob_reserve out m) n; write_each write_bulk out1 vs })
     (resp_array_header n @ concat (map resp_bulk vs))"
proof -
  have "emits (\<lambda>out. write_array_header out n \<bind> (\<lambda>out1. write_each write_bulk out1 vs))
      (resp_array_header n @ concat (map resp_bulk vs))"
    using assms by (intro emits_seq emits_write_array_header emits_write_each)
      (auto simp: list_all_iff intro!: emits_write_bulk elem_ok_resp)
  from emits_reserve [OF this] show ?thesis .
qed

text \<open>C19. LRANGE written straight into the reply buffer is the RESP array of the same elements, whatever
  the buffer's spare memory held; on another type the buffer is left as it was.\<close>

theorem lrange_to_buf_correct:
  assumes "store_ok st" "ob_ok out" "length (elems (list_view E k st)) < 2 ^ 64"
  shows "\<exists>out'. lrange_to_buf E k start stop out st =
      Some (if list_view E k st = NotList then Err ''WRONGTYPE''
            else Ok (length (redis_slice start stop (elems (list_view E k st)))), out')
    \<and> ob_bytes out' = ob_bytes out @
        (if list_view E k st = NotList then []
         else resp_array_header (length (redis_slice start stop (elems (list_view E k st))))
           @ concat (map resp_bulk (redis_slice start stop (elems (list_view E k st)))))"
proof -
  obtain out1 where out1: "write_array_header out 0 = Some out1" "ob_bytes out1 = ob_bytes out @ resp_array_header 0"
    using emitsE [OF emits_write_array_header [of 0] assms(2)] by auto
  show ?thesis
  proof (rule list_viewE [OF assms(1), of E k])
    assume "list_view E k st = Missing" "live_at E k st = None"
    with out1 show ?thesis
      by (auto simp: lrange_to_buf_def Let_def ob_truncate_self live_at_None redis_slice_Nil split: option.split)
  next
    fix v l assume v: "list_view E k st = IsList (lv_abs l)" "entries st k = Some v" "\<not> is_expired E v"
      "sv_value v = FList l" "lv_inv l"
    note len = lv.len_law [OF v(5)] and sl = range_bounds_slice [where start = start and stop = stop and xs = "lv_abs l"]
    show ?thesis
    proof (cases "range_bounds start stop (length (lv_abs l))")
      case None
      with out1 sl v show ?thesis by (auto simp: lrange_to_buf_def Let_def ob_truncate_self len)
    next
      case (Some p)
      obtain s n where p: "p = (s, n)" by (cases p)
      let ?vs = "redis_slice start stop (lv_abs l)"
      have vs: "?vs = take n (drop s (lv_abs l))" using sl Some p by simp
      then have n: "length ?vs = n" using range_bounds_Some(1) [OF Some [unfolded p]] by simp
      have "list_all ql_elem_ok ?vs"
        using lv_inv_elems [OF v(5)] unfolding vs list_all_iff by (meson in_set_dropD in_set_takeD)
      from emitsE [OF emits_lrange [OF this n, of "n * 20"] assms(2)] obtain out2 where
        "write_array_header (ob_reserve out (n * 20)) n \<bind> (\<lambda>out1. write_each write_bulk out1 ?vs) = Some out2"
        "ob_bytes out2 = ob_bytes out @ resp_array_header n @ concat (map resp_bulk ?vs)"
        using assms(3) v(1) range_bounds_Some(1) [OF Some [unfolded p]] by auto
      with Some p v vs n show ?thesis
        by (auto simp: lrange_to_buf_def Let_def ob_truncate_self len lv.range_law bind_eq_Some_conv)
    qed
  qed (auto simp: lrange_to_buf_def Let_def ob_truncate_self)
qed

theorem lrange_to_buf_correct_witness:
  "\<exists>out'. lrange_to_buf env0 [107] 0 (-1) \<lparr>ob_mem = [1, 2, 3], ob_len = 1\<rparr> (store_new 1 :: (unit, unit) store)
      = Some (Ok 0, out') \<and> ob_bytes out' = [1] @ resp_array_header 0"
  using lrange_to_buf_correct [where st = "store_new 1 :: (unit, unit) store" and E = env0 and k = "[107]"
      and start = 0 and stop = "-1" and out = "\<lparr>ob_mem = [1, 2, 3], ob_len = 1\<rparr>"]
  by (simp add: list_view_missing redis_slice_def ob_ok_def ob_bytes_def)

text \<open>LREM removes as many occurrences as its count says, from the head for a positive count, from the
  tail for a negative one and all of them for zero, and replies with the number removed.\<close>

theorem lrem_correct:
  assumes "store_ok st" "in_i64 count"
  shows "\<exists>st'. lrem E k count val st = Some (case list_view E k st of NotList \<Rightarrow> Err ''WRONGTYPE''
        | v \<Rightarrow> Ok (if count = 0 then min usize_max (count_list (elems v) val)
                  else min (nat \<bar>count\<bar>) (count_list (elems v) val)), st')
    \<and> list_after E k (case list_view E k st of
        IsList xs \<Rightarrow> IsList (drop_end (count < 0) val (if count = 0 then usize_max else nat \<bar>count\<bar>) xs)
      | v \<Rightarrow> v) st st'"
proof -
  let ?n = "if count = 0 then usize_max else nat \<bar>count\<bar>"
  from list_write_spec [OF assms(1), of E k "\<lambda>l. lv_remove_matching l val ?n (count < 0)"
      "\<lambda>xs. min ?n (count_list xs val)" "drop_end (count < 0) val ?n" 0]
    lv.remove_law [where v = "val" and n = ?n and fb = "count < 0"]
  show ?thesis unfolding lrem_def by (cases "list_view E k st") (auto simp: list_quiet_def)
qed

theorem lrem_correct_witness:
  "\<exists>st'. lrem env0 [107] (-2) [1] (store_new 1 :: (unit, unit) store) = Some (Ok 0, st')"
  using lrem_correct [where st = "store_new 1 :: (unit, unit) store" and E = env0 and k = "[107]"
      and count = "-2" and val = "[1]"]
  by (auto simp: list_view_missing in_i64_def i64_min_def i64_max_def)

lemma llen_spec:
  "store_ok st \<Longrightarrow> llen E k st = Some (case list_view E k st of NotList \<Rightarrow> Err ''WRONGTYPE'' | v \<Rightarrow> Ok (length (elems v)))"
  unfolding llen_def
  by (subst list_read_spec [where g = length]) (auto simp: lv.len_law split: list_view.split)

text \<open>The element a Redis index names.\<close>

lemma normalize_index_nth:
  "normalize_index i n = (let j = (if i < 0 then int n + i else i) in
     if 0 \<le> j \<and> j < int n then Some (nat j) else None)"
  by (auto simp: normalize_index_def Let_def)

text \<open>LINDEX replies with the element at a position counted from either end, and with nil outside the
  list, on a missing key and on an expired one.\<close>

theorem lindex_correct:
  assumes "store_ok st"
  shows "lindex E k i st = Some (case list_view E k st of NotList \<Rightarrow> Err ''WRONGTYPE''
     | v \<Rightarrow> Ok (let xs = elems v; j = (if i < 0 then int (length xs) + i else i) in
           if 0 \<le> j \<and> j < int (length xs) then Some (xs ! nat j) else None))"
proof -
  let ?g = "\<lambda>xs :: bytes list. let j = (if i < 0 then int (length xs) + i else i) in
           if 0 \<le> j \<and> j < int (length xs) then Some (xs ! nat j) else None"
  have "(case normalize_index i (lv_len l) of None \<Rightarrow> Some None | Some i \<Rightarrow> lv_get l i) = Some (?g (lv_abs l))"
    if "lv_inv l" for l
    by (simp add: lv.len_law [OF that] lv.get_law [OF that] normalize_index_nth Let_def) arith
  from list_read_spec [where g = ?g, OF assms this] show ?thesis
    unfolding lindex_def by (simp add: Let_def split: list_view.split)
qed

theorem lindex_correct_witness:
  "lindex env0 [107] (-1) (store_new 1 :: (unit, unit) store) = Some (Ok None)"
  using lindex_correct [where st = "store_new 1 :: (unit, unit) store" and E = env0 and k = "[107]" and i = "-1"]
  by (simp add: list_view_missing)

text \<open>The rule for the commands that call the map themselves.\<close>

lemma update_list_rel:
  assumes ok: "store_ok st" and e: "entries st k = Some v" "\<not> is_expired E v" "sv_value v = FList l" "lv_inv l"
    and f: "f v = Some (r, v\<lparr>sv_value := FList l'\<rparr>)" "lv_inv l'"
  shows "\<exists>st'. st_update_with k f st = Some (Some r, st') \<and> list_quiet E k (IsList (lv_abs l')) st st'"
proof -
  from st_update_with_Some [where f = f, OF e(1) f(1)] obtain st' where
    st': "st_update_with k f st = Some (Some r, st')" "changes st k (Some (v\<lparr>sv_value := FList l'\<rparr>)) st'" by blast
  have "list_quiet E k (IsList (lv_abs l')) st st'"
    by (rule list_quiet_changes [OF ok st'(2)]) (use e f in \<open>simp_all add: is_expired_def\<close>)
  with st' show ?thesis by blast
qed

lemma update_same_rel:
  assumes ok: "store_ok st" and e: "entries st k = Some v" and f: "f v = Some (r, v)"
  shows "\<exists>st'. st_update_with k f st = Some (Some r, st') \<and> list_quiet E k (list_view E k st) st st'"
proof -
  from st_update_with_Some [where f = f, OF e f] obtain st' where
    st': "st_update_with k f st = Some (Some r, st')" "changes st k (entries st k) st'" unfolding e by blast
  from list_quiet_same [OF ok st'(2), of E] st'(1) show ?thesis by blast
qed

text \<open>LSET replaces the element the index names and fails without a change outside the list, on a
  missing key and on another type, provided the new element is at most a chunk long and the list's bytes
  fit a 32-bit offset.  (Without the first condition a later pop can panic, see the quicklist.)\<close>

theorem lset_correct:
  assumes "store_ok st" "length s \<le> CHUNK_BYTES"
    and "length (concat (elems (list_view E k st))) + length s < 2 ^ 32"
  shows "\<exists>st'. lset E k i s st = Some (case list_view E k st of
        Missing \<Rightarrow> Err ''no such key''
      | NotList \<Rightarrow> Err ''WRONGTYPE''
      | IsList xs \<Rightarrow> if normalize_index i (length xs) = None then Err ''index out of range'' else Ok True, st')
    \<and> list_after E k (case list_view E k st of
        IsList xs \<Rightarrow> IsList (case normalize_index i (length xs) of None \<Rightarrow> xs | Some j \<Rightarrow> xs[j := s])
      | v \<Rightarrow> v) st st'"
proof (rule list_viewE [OF assms(1), of E k])
  let ?f = "\<lambda>val. if is_expired E val then Some (Err ''no such key'', val) else
          (case as_list (sv_value val) of
             Some l \<Rightarrow>
               (case normalize_index i (lv_len l) of
                  Some i \<Rightarrow> do { (r, l') \<leftarrow> lv_set l i s; Some (Ok r, val\<lparr>sv_value := FList l'\<rparr>) }
                | None \<Rightarrow> Some (Err ''index out of range'', val))
           | None \<Rightarrow> Some (Err ''WRONGTYPE'', val))"
  have w: "lset E k i s st = do { (result, st1) \<leftarrow> st_update_with k ?f st;
      Some (case result of Some r \<Rightarrow> r | None \<Rightarrow> Err ''no such key'', st1) }" by (simp add: lset_def)
  {
    assume m: "list_view E k st = Missing" "live_at E k st = None"
    show ?thesis
    proof (cases "entries st k")
      case None
      with m list_quiet_refl [OF assms(1), of E k] show ?thesis by (simp add: w st_update_with_None list_quiet_def)
    next
      case (Some v)
      with m have "?f v = Some (Err ''no such key'', v)" by (simp add: live_at_None)
      from update_same_rel [where f = ?f, OF assms(1) Some this, of E] m show ?thesis
        by (elim exE conjE) (simp add: w list_quiet_def)
    qed
  next
    fix v assume v: "list_view E k st = NotList" "entries st k = Some v" "\<not> is_expired E v" "as_list (sv_value v) = None"
    then have "?f v = Some (Err ''WRONGTYPE'', v)" by simp
    from update_same_rel [where f = ?f, OF assms(1) v(2) this, of E] v show ?thesis
      by (elim exE conjE) (simp add: w list_quiet_def)
  next
    fix v l assume v: "list_view E k st = IsList (lv_abs l)" "entries st k = Some v" "\<not> is_expired E v"
      "sv_value v = FList l" "lv_inv l"
    show ?thesis
    proof (cases "normalize_index i (length (lv_abs l))")
      case None
      then have "?f v = Some (Err ''index out of range'', v)" using v by (simp add: lv.len_law)
      from update_same_rel [where f = ?f, OF assms(1) v(2) this, of E] v None show ?thesis
        by (elim exE conjE) (simp add: w list_quiet_def)
    next
      case (Some j)
      have "lv_room l s" "lv_slot_ok l s" "ql_elem_ok s"
        using assms v by (auto simp: lv_room_def lv_slot_ok_def ql_elem_ok_def CHUNK_BYTES_def split: list_value.split)
      from lv.set_law [OF v(5) this, of j] normalize_index_Some [OF Some] obtain l' where
        l': "lv_set l j s = Some (True, l')" "lv_inv l'" "lv_abs l' = (lv_abs l)[j := s]" by auto
      have "?f v = Some (Ok True, v\<lparr>sv_value := FList l'\<rparr>)" using v Some l' by (simp add: lv.len_law)
      from update_list_rel [where f = ?f, OF assms(1) v(2-5) this l'(2)] v Some l' show ?thesis
        by (elim exE conjE) (simp add: w list_quiet_def)
    qed
  }
qed

theorem lset_correct_witness:
  "\<exists>st'. lset env0 [107] 0 [1] (store_new 1 :: (unit, unit) store) = Some (Err ''no such key'', st')"
  using lset_correct [where st = "store_new 1 :: (unit, unit) store" and E = env0 and k = "[107]" and s = "[1]" and i = 0]
  by (auto simp: list_view_missing CHUNK_BYTES_def)

section \<open>LPOS\<close>

lemma lpos_scan_spec:
  assumes "count = 0 \<or> length results < count"
  shows "lpos_scan val skip count ps seen results = results @
    (let ms = drop (skip - seen) (map fst (filter (\<lambda>(i, v). v = val) ps))
     in if count = 0 then ms else take (count - length results) ms)"
  using assms
proof (induction ps arbitrary: seen results)
  case (Cons p ps)
  obtain i v where p: "p = (i, v)" by (cases p)
  show ?case
  proof (cases "v = val \<and> skip \<le> seen")
    case True
    show ?thesis
    proof (cases "count > 0 \<and> count \<le> Suc (length results)")
      case True2: True
      then have "count - length results = 1" using Cons.prems by simp
      with True True2 p show ?thesis by (simp add: Let_def)
    next
      case False
      then have "count = 0 \<or> length (results @ [i]) < count" by auto
      moreover from False have "count - length results = Suc (count - Suc (length results)) \<or> count = 0" by auto
      ultimately show ?thesis using Cons.IH [of "results @ [i]" "seen + 1"] True False p
        by (auto simp: Let_def)
    qed
  next
    case False
    show ?thesis
    proof (cases "v = val")
      case True
      with False have "skip - seen = Suc (skip - (seen + 1))" by simp
      with True False p Cons show ?thesis by (simp add: Let_def)
    qed (use p Cons in \<open>simp add: Let_def\<close>)
  qed
qed simp

lemma enumerate_matches: "map fst (filter (\<lambda>(i, v). v = val) (take n (enumerate 0 xs)))
   = filter (\<lambda>i. xs ! i = val) [0..<min n (length xs)]"
proof -
  have "take n (enumerate 0 xs) = map (\<lambda>i. (i, xs ! i)) [0..<min n (length xs)]"
    by (rule nth_equalityI) (auto simp: nth_enumerate_eq)
  then show ?thesis by (simp add: filter_map o_def)
qed

lemma enumerate_rev_matches:
  "map fst (filter (\<lambda>(i, v). v = val) (take n (map (\<lambda>(i, v). (length xs - Suc i, v)) (enumerate 0 (rev xs)))))
   = filter (\<lambda>i. xs ! i = val) (take n (rev [0..<length xs]))"
proof -
  have "take n (map (\<lambda>(i, v). (length xs - Suc i, v)) (enumerate 0 (rev xs)))
      = map (\<lambda>i. (i, xs ! i)) (take n (rev [0..<length xs]))"
    by (rule nth_equalityI) (auto simp: nth_enumerate_eq rev_nth)
  then show ?thesis by (simp add: filter_map o_def)
qed

text \<open>C21. LPOS: among the first MAXLEN positions in the direction the rank's sign gives (all of them for
  0), the positions that hold the value, without the first |rank| - 1 of them and at most COUNT (all of
  them for 0), in the order of the search.\<close>

theorem lpos_correct:
  assumes "store_ok st" "in_i64 rank" "rank \<noteq> i64_min"
  shows "lpos E k val rank count maxlen st = Some (case list_view E k st of NotList \<Rightarrow> Err ''WRONGTYPE''
     | v \<Rightarrow> Ok (let xs = elems v; n = length xs; m = (if maxlen = 0 then n else min maxlen n);
                   order = (if rank \<ge> 0 then [0..<n] else rev [0..<n]);
                   hits = drop (nat (\<bar>rank\<bar> - 1)) (filter (\<lambda>i. xs ! i = val) (take m order))
               in if count = 0 then hits else take count hits))"
proof -
  let ?g = "\<lambda>xs :: bytes list. let n = length xs; m = (if maxlen = 0 then n else min maxlen n);
                   order = (if rank \<ge> 0 then [0..<n] else rev [0..<n]);
                   hits = drop (nat (\<bar>rank\<bar> - 1)) (filter (\<lambda>i. xs ! i = val) (take m order))
               in if count = 0 then hits else take count hits"
  have r: "- rank \<le> i64_max" "in_i64 (- rank - 1)" "in_i64 (- rank)"
    using assms(2,3) by (auto simp: in_i64_def i64_min_def i64_max_def)
  have u: "as_usize n = nat n" if "0 \<le> n" "n < 2 ^ 63" for n using that by (simp add: as_usize_def)
  have sk1: "(if rank = 0 then 0 else as_usize (rank - 1)) = nat (\<bar>rank\<bar> - 1)" if "rank \<ge> 0"
    using that assms(2) u [of "rank - 1"] by (auto simp: in_i64_def i64_max_def)
  have sk2: "as_usize (wrap_i64 (wrap_i64 (- rank) - 1)) = nat (\<bar>rank\<bar> - 1)" if "rank < 0"
    using that r u [of "- rank - 1"] by (simp add: wrap_i64_id i64_max_def)
  have "do { items \<leftarrow> lv_iter l;
     let len = lv_len l;
     let max = (if maxlen = 0 then len else min maxlen len);
     Some (if rank \<ge> 0 then
             (let skip = (if rank = 0 then 0 else as_usize (rank - 1)) in
              lpos_scan val skip count (take max (enumerate 0 items)) 0 [])
           else
             (let skip = as_usize (wrap_i64 (wrap_i64 (- rank) - 1)) in
              lpos_scan val skip count
                (take max (map (\<lambda>(i, v). (len - 1 - i, v)) (enumerate 0 (rev items)))) 0 [])) } = Some (?g (lv_abs l))"
    if "lv_inv l" for l
  proof (cases "rank \<ge> 0")
    case True
    then show ?thesis
      by (simp add: lv.iter_law [OF that] lv.len_law [OF that] Let_def sk1 lpos_scan_spec enumerate_matches)
  next
    case False
    then show ?thesis
      by (simp add: lv.iter_law [OF that] lv.len_law [OF that] Let_def sk2 lpos_scan_spec enumerate_rev_matches)
  qed
  from list_read_spec [where g = ?g and k = k and E = E and d = "[]", OF assms(1) this] show ?thesis
    unfolding lpos_def by (simp add: Let_def split: list_view.split)
qed

theorem lpos_correct_witness:
  "lpos env0 [107] [2] (-1) 0 0 (list_key [[1], [2]] :: (unit, unit) store) = Some (Ok [1])"
  using lpos_correct [where st = "list_key [[1], [2]] :: (unit, unit) store" and E = env0 and k = "[107]" and val = "[2]"
      and rank = "-1" and count = 0 and maxlen = 0]
  by (simp add: list_key_examples in_i64_def i64_min_def i64_max_def numeral_2_eq_2)

lemma insert_near_none: "pivot \<notin> set xs \<Longrightarrow> insert_near before pivot s xs = xs"
  by (induction xs) auto

lemma insert_near_position:
  "position (\<lambda>v. v = pivot) xs = Some i \<Longrightarrow>
   insert_near before pivot s xs = take (if before then i else i + 1) xs @ s # drop (if before then i else i + 1) xs"
proof (induction xs arbitrary: i)
  case (Cons x xs)
  show ?case
  proof (cases "x = pivot")
    case False
    then obtain j where j: "i = Suc j" "position (\<lambda>v. v = pivot) xs = Some j"
      using Cons.prems by (auto simp: position_def Let_def split: if_splits)
    with Cons.IH [OF j(2)] False show ?thesis by auto
  qed (use Cons.prems in \<open>auto simp: position_def\<close>)
qed (simp add: position_def)

lemma position_None: "position (\<lambda>v. v = pivot) xs = None \<longleftrightarrow> pivot \<notin> set xs"
proof (induction xs)
  case (Cons x xs)
  then show ?case by (auto simp: position_def Let_def)
qed (simp add: position_def)

text \<open>C29. LINSERT puts the element next to the first occurrence of the pivot and replies with the new
  length; without the pivot it replies -1 and changes nothing.  Only a key that the map does not have gives 0:
  an expired key gives -1, and so does a list from which the last element was popped, which the map
  keeps and which is a list without the pivot here.\<close>

theorem linsert_correct:
  assumes "store_ok st" "ql_elem_ok s"
    and "length (concat (elems (list_view E k st))) + length s < 2 ^ 32"
  shows "\<exists>st'. linsert E k before pivot s st = Some (case list_view E k st of
        Missing \<Rightarrow> Ok (if entries st k = None then 0 else -1)
      | NotList \<Rightarrow> Err ''WRONGTYPE''
      | IsList xs \<Rightarrow> Ok (if pivot \<in> set xs then int (length xs) + 1 else -1), st')
    \<and> list_after E k (case list_view E k st of IsList xs \<Rightarrow> IsList (insert_near before pivot s xs) | v \<Rightarrow> v) st st'"
proof (rule list_viewE [OF assms(1), of E k])
  let ?f = "\<lambda>val. if is_expired E val then Some (Ok (-1), val) else
          (case as_list (sv_value val) of
             Some l \<Rightarrow> do {
               p \<leftarrow> lv_position l pivot;
               (case p of
                  Some idx \<Rightarrow> do {
                    l' \<leftarrow> lv_insert l (if before then idx else idx + 1) s;
                    Some (Ok (int (lv_len l')), val\<lparr>sv_value := FList l'\<rparr>) }
                | None \<Rightarrow> Some (Ok (-1), val)) }
           | None \<Rightarrow> Some (Err ''WRONGTYPE'', val))"
  have w: "linsert E k before pivot s st = do { (result, st1) \<leftarrow> st_update_with k ?f st;
      Some (case result of Some r \<Rightarrow> r | None \<Rightarrow> Ok 0, st1) }" by (simp add: linsert_def)
  {
    assume m: "list_view E k st = Missing" "live_at E k st = None"
    show ?thesis
    proof (cases "entries st k")
      case None
      with m list_quiet_refl [OF assms(1), of E k] show ?thesis by (simp add: w st_update_with_None list_quiet_def)
    next
      case (Some v)
      with m have "?f v = Some (Ok (-1), v)" by (simp add: live_at_None)
      from update_same_rel [where f = ?f, OF assms(1) Some this, of E] m Some show ?thesis
        by (elim exE conjE) (simp add: w list_quiet_def)
    qed
  next
    fix v assume v: "list_view E k st = NotList" "entries st k = Some v" "\<not> is_expired E v" "as_list (sv_value v) = None"
    then have "?f v = Some (Err ''WRONGTYPE'', v)" by simp
    from update_same_rel [where f = ?f, OF assms(1) v(2) this, of E] v show ?thesis
      by (elim exE conjE) (simp add: w list_quiet_def)
  next
    fix v l assume v: "list_view E k st = IsList (lv_abs l)" "entries st k = Some v" "\<not> is_expired E v"
      "sv_value v = FList l" "lv_inv l"
    show ?thesis
    proof (cases "position (\<lambda>v. v = pivot) (lv_abs l)")
      case None
      then have p: "pivot \<notin> set (lv_abs l)" by (simp add: position_None)
      have "?f v = Some (Ok (-1), v)" using v None by (simp add: lv_position_abs)
      from update_same_rel [where f = ?f, OF assms(1) v(2) this, of E] v p show ?thesis
        by (elim exE conjE) (simp add: w list_quiet_def insert_near_none)
    next
      case (Some j)
      let ?i = "if before then j else j + 1"
      have p: "pivot \<in> set (lv_abs l)" using Some position_None [of pivot "lv_abs l"] by auto
      have "lv_room l s" using assms v by (simp add: lv_room_def)
      from lv.insert_law [OF v(5) this assms(2), of ?i] obtain l' where
        l': "lv_insert l ?i s = Some l'" "lv_inv l'" "lv_abs l' = take ?i (lv_abs l) @ s # drop ?i (lv_abs l)"
        by (elim exE conjE) (rule that)
      have near: "lv_abs l' = insert_near before pivot s (lv_abs l)"
        using insert_near_position [OF Some, of before s] l'(3) by simp
      have "length (lv_abs l') = length (lv_abs l) + 1" using l'(3) by simp
      then have "?f v = Some (Ok (int (length (lv_abs l)) + 1), v\<lparr>sv_value := FList l'\<rparr>)"
        using v Some l' by (simp add: lv_position_abs lv.len_law)
      from update_list_rel [where f = ?f, OF assms(1) v(2-5) this l'(2)] v p near show ?thesis
        by (elim exE conjE) (simp add: w list_quiet_def)
    qed
  }
qed

theorem linsert_correct_witness:
  "\<exists>st st' st''. linsert env0 [107] True [1] [3] (store_new 1 :: (unit, unit) store) = Some (Ok 0, st)
     \<and> linsert env0 [107] True [1] [3] (list_key [] :: (unit, unit) store) = Some (Ok (-1), st')
     \<and> linsert env0 [107] False [1] [3] (list_key [[1], [2]] :: (unit, unit) store) = Some (Ok 3, st'')
     \<and> list_view env0 [107] st'' = IsList [[1], [3], [2]]"
proof -
  have e: "ql_elem_ok [3]" by (simp add: ql_elem_ok_def)
  have "\<exists>st. linsert env0 [107] True [1] [3] (store_new 1 :: (unit, unit) store) = Some (Ok 0, st)"
    using linsert_correct [where st = "store_new 1 :: (unit, unit) store" and E = env0 and k = "[107]" and pivot = "[1]" and before = True, OF _ e]
    by (auto simp: list_view_missing)
  moreover have "\<exists>st. linsert env0 [107] True [1] [3] (list_key [] :: (unit, unit) store) = Some (Ok (-1), st)"
    using linsert_correct [where st = "list_key [] :: (unit, unit) store" and E = env0 and k = "[107]" and pivot = "[1]" and before = True, OF _ e]
    by (auto simp: list_key_examples)
  moreover have "\<exists>st. linsert env0 [107] False [1] [3] (list_key [[1], [2]] :: (unit, unit) store) = Some (Ok 3, st)
      \<and> list_view env0 [107] st = IsList [[1], [3], [2]]"
    using linsert_correct [where st = "list_key [[1], [2]] :: (unit, unit) store" and E = env0 and k = "[107]" and pivot = "[1]" and before = False,
        OF _ e]
    by (auto simp: list_key_examples list_after_def)
  ultimately show ?thesis by blast
qed

section \<open>LMOVE\<close>

lemma list_view_other:
  "list_after E k v st st' \<Longrightarrow> list_view E j st' = (if j = k then v else list_view E j st)"
  by (auto simp: list_after_def list_view_def live_at_def)

lemma list_quiet_after: "list_quiet E k v st st' \<Longrightarrow> list_after E k v st st'"
  by (simp add: list_quiet_def)

lemma list_view_elems_ok: "store_ok st \<Longrightarrow> s \<in> set (elems (list_view E k st)) \<Longrightarrow> ql_elem_ok s"
  by (rule list_viewE [of st E k]) (auto dest: lv_inv_elems)

lemma pop_end_spec:
  assumes "lv_inv l"
  shows "\<exists>l'. (if left then lv_pop_front l else lv_pop_back l) =
      Some (if lv_abs l = [] then None else Some (if left then hd (lv_abs l) else last (lv_abs l)), l')
    \<and> lv_inv l' \<and> lv_abs l' = pop_end left (lv_abs l)"
  using lv.pop_front_law [OF assms] lv.pop_back_law [OF assms] by (cases left) (auto simp: pop_end_def)

lemma lmove_impl_spec:
  fixes E :: env and st :: "('z, 't) store"
  assumes ok: "store_ok st"
  defines "V \<equiv> \<lambda>j. list_view E j st"
  shows "\<exists>st'. lmove_impl E src dst left_src left_dst st =
      Some (if V src = NotList then Err ''WRONGTYPE''
            else if elems (V src) = [] then Ok None
            else if V dst = NotList then Err ''WRONGTYPE''
            else Ok (Some (if left_src then hd (elems (V src)) else last (elems (V src)))), st')
    \<and> store_ok st' \<and> st_blocking st' = st_blocking st \<and> st_woken st' = st_woken st
    \<and> (\<lambda>j. list_view E j st') = (if V src = NotList \<or> elems (V src) = [] \<or> V dst = NotList then V
         else moved_view src dst left_src left_dst V)"
proof (cases "V dst = NotList")
  case True
  then have bad: "(case st_get_ref dst st of None \<Rightarrow> False
      | Some e \<Rightarrow> \<not> is_expired E e \<and> as_list (sv_value e) = None)"
    by (auto simp: V_def list_view_def live_at_def split: option.splits if_splits)
  from llen_spec [OF ok, of E src] bad True ok show ?thesis
    by (cases "V src") (auto simp: lmove_impl_def V_def)
next
  case False
  then have good: "\<not> (case st_get_ref dst st of None \<Rightarrow> False
      | Some e \<Rightarrow> \<not> is_expired E e \<and> as_list (sv_value e) = None)"
    by (auto simp: V_def list_view_def live_at_def split: option.splits)
  let ?pop = "\<lambda>l. if left_src then lv_pop_front l else lv_pop_back l"
  let ?g = "\<lambda>xs :: bytes list. if xs = [] then None else Some (if left_src then hd xs else last xs)"
  have "\<exists>st1. list_write None E src ?pop st = Some (case list_view E src st of
        Missing \<Rightarrow> Ok None | NotList \<Rightarrow> Err ''WRONGTYPE'' | IsList xs \<Rightarrow> Ok (?g xs), st1)
      \<and> list_quiet E src (case list_view E src st of IsList xs \<Rightarrow> IsList (pop_end left_src xs) | v \<Rightarrow> v) st st1"
    by (rule list_write_spec [OF ok]) (rule pop_end_spec)
  then obtain st1 where st1: "list_write None E src ?pop st = Some (case list_view E src st of
        Missing \<Rightarrow> Ok None | NotList \<Rightarrow> Err ''WRONGTYPE'' | IsList xs \<Rightarrow> Ok (?g xs), st1)"
      "list_quiet E src (case list_view E src st of IsList xs \<Rightarrow> IsList (pop_end left_src xs) | v \<Rightarrow> v) st st1"
    by (elim exE conjE) (rule that)
  have ok1: "store_ok st1" "st_blocking st1 = st_blocking st" "st_woken st1 = st_woken st"
    using st1(2) by (auto simp: list_quiet_def list_after_def)
  have V1: "list_view E j st1 = (if j = src then (case V src of IsList xs \<Rightarrow> IsList (pop_end left_src xs) | v \<Rightarrow> v) else V j)"
    for j by (simp add: list_view_other [OF list_quiet_after [OF st1(2)]] V_def)
  show ?thesis
  proof (cases "V src = NotList \<or> elems (V src) = []")
    case True
    then have "(\<lambda>j. list_view E j st1) = V"
      by (intro ext) (cases "V src"; auto simp: V1 pop_end_def)
    with True st1(1) ok1 False good show ?thesis
      by (cases "V src") (auto simp: lmove_impl_def V_def)
  next
    case has: False
    then obtain xs where xs: "V src = IsList xs" "xs \<noteq> []" by (cases "V src") auto
    let ?x = "if left_src then hd xs else last xs"
    have "ql_elem_ok ?x" using list_view_elems_ok [OF ok, of ?x E src] xs by (simp add: V_def)
    then have "\<forall>s\<in>set [?x]. ql_elem_ok s" by simp
    from list_push_spec [OF ok1(1) this, of E dst left_dst] obtain st2 where
      st2: "list_push E dst [?x] left_dst st1 = Some (case list_view E dst st1 of
          NotList \<Rightarrow> Err ''WRONGTYPE'' | v \<Rightarrow> Ok (length (elems v) + length [?x]), st2)"
        "list_quiet E dst (case list_view E dst st1 of NotList \<Rightarrow> NotList
          | v \<Rightarrow> IsList (if left_dst then rev [?x] @ elems v else elems v @ [?x])) st1 st2"
      by (elim exE conjE) (rule that)
    have d: "list_view E dst st1 \<noteq> NotList" using False xs by (auto simp: V1)
    then have dv: "(case list_view E dst st1 of NotList \<Rightarrow> NotList
          | v \<Rightarrow> IsList (if left_dst then rev [?x] @ elems v else elems v @ [?x]))
        = IsList (push_end left_dst ?x (elems (list_view E dst st1)))"
      by (cases "list_view E dst st1") (auto simp: push_end_def)
    have "(\<lambda>j. list_view E j st2) = moved_view src dst left_src left_dst V"
      using xs by (auto simp: list_view_other [OF list_quiet_after [OF st2(2) [unfolded dv]]] V1 moved_view_def Let_def fun_eq_iff)
    moreover have "list_push E dst [?x] left_dst st1 = Some (Ok (length (elems (list_view E dst st1)) + 1), st2)"
      using st2(1) d by (cases "list_view E dst st1") auto
    moreover have "store_ok st2" "st_blocking st2 = st_blocking st" "st_woken st2 = st_woken st"
      using st2(2) ok1 by (auto simp: list_quiet_def list_after_def)
    ultimately show ?thesis using st1(1) xs False good by (simp add: lmove_impl_def V_def)
  qed
qed

text \<open>C7. LMOVE takes the element at the chosen end of the source and puts it at the chosen end of the
  destination, also when the two are the same key (a rotation), and wakes the connections blocked on the
  destination.  When the source has no element it replies nil; when either key holds another type it replies WRONGTYPE.
  In these cases no key changes: the element is never lost.\<close>

theorem lmove_correct:
  assumes "store_ok st"
  shows "\<exists>st'. lmove E src dst left_src left_dst st =
      Some (if list_view E src st = NotList then Err ''WRONGTYPE''
            else if elems (list_view E src st) = [] then Ok None
            else if list_view E dst st = NotList then Err ''WRONGTYPE''
            else Ok (Some (if left_src then hd (elems (list_view E src st)) else last (elems (list_view E src st)))), st')
    \<and> store_ok st'
    \<and> (\<lambda>j. list_view E j st') =
        (if list_view E src st = NotList \<or> elems (list_view E src st) = [] \<or> list_view E dst st = NotList
         then (\<lambda>j. list_view E j st)
         else moved_view src dst left_src left_dst (\<lambda>j. list_view E j st))
    \<and> st_woken st' = st_woken st @
        (if list_view E src st = NotList \<or> (elems (list_view E src st) \<noteq> [] \<and> list_view E dst st = NotList)
         then [] else br_list (st_blocking st) dst)"
proof -
  have br: "br_inv (st_blocking st)" using assms by (simp add: store_ok_def)
  from lmove_impl_spec [OF assms, of E src dst left_src left_dst] obtain st' where
    st': "lmove_impl E src dst left_src left_dst st =
      Some (if list_view E src st = NotList then Err ''WRONGTYPE''
            else if elems (list_view E src st) = [] then Ok None
            else if list_view E dst st = NotList then Err ''WRONGTYPE''
            else Ok (Some (if left_src then hd (elems (list_view E src st)) else last (elems (list_view E src st)))), st')"
      "store_ok st'" "st_blocking st' = st_blocking st" "st_woken st' = st_woken st"
      "(\<lambda>j. list_view E j st') =
        (if list_view E src st = NotList \<or> elems (list_view E src st) = [] \<or> list_view E dst st = NotList
         then (\<lambda>j. list_view E j st) else moved_view src dst left_src left_dst (\<lambda>j. list_view E j st))"
    by (elim exE conjE) (rule that)
  have v: "list_view E j (signal dst st') = list_view E j st'" for j by (simp add: list_view_def live_at_def)
  have w: "st_woken (signal dst st') = st_woken st @ br_list (st_blocking st) dst"
    using st'(3,4) br_signal_list [OF br] by (simp add: signal_def)
  show ?thesis
  proof (cases "list_view E src st = NotList \<or> (elems (list_view E src st) \<noteq> [] \<and> list_view E dst st = NotList)")
    case True
    with st' show ?thesis by (intro exI [of _ st']) (auto simp: lmove_def)
  next
    case False
    with st' v w show ?thesis by (intro exI [of _ "signal dst st'"]) (auto simp: lmove_def)
  qed
qed

theorem lmove_correct_witness:
  "\<exists>st'. lmove env0 [107] [108] True False (list_key [[1], [2]] :: (unit, unit) store) = Some (Ok (Some [1]), st')
     \<and> list_view env0 [107] st' = IsList [[2]] \<and> list_view env0 [108] st' = IsList [[1]]"
  using lmove_correct [where st = "list_key [[1], [2]] :: (unit, unit) store" and E = env0 and src = "[107]" and dst = "[108]"
      and left_src = True and left_dst = False]
  by (auto simp: list_key_examples fun_eq_iff moved_view_def Let_def pop_end_def push_end_def)

end
