(* ===== verification/SmallStr.thy ===== *)
theory SmallStr
  imports Resp LittleEndian
begin

text \<open>
  The string cell of \<^verbatim>\<open>src/storage/value/small_str.rs\<close>: 23 bytes of data and a tag.  A tag up to 23
  is the length of a string held in the data; the tag \<^verbatim>\<open>Heap\<close> says that the data hold the address
  of a boxed string and its length in seven bytes.  The boxes are a heap from addresses to byte
  strings.  An operation that allocates takes the address the allocator returns as an argument; an
  access to an address that holds no box, or freeing one twice, is \<^verbatim>\<open>None\<close>, as is a slice out of
  range.
\<close>

section \<open>The cell\<close>

type_synonym boxes = "nat \<rightharpoonup> bytes"

definition SMALL_STR_CAP :: nat where "SMALL_STR_CAP = 23"

definition TAG_HEAP :: nat where "TAG_HEAP = 255"

record small_str =
  ss_data :: bytes
  ss_tag :: nat

definition store_heap_len :: "bytes \<Rightarrow> nat \<Rightarrow> bytes option" where
  "store_heap_len data len = vcopy_at data 8 (take 7 (le_bytes 8 len))"

definition read_heap_len :: "bytes \<Rightarrow> nat option" where
  "read_heap_len data = map_option (\<lambda>w. take_bit 56 (from_le w)) (vslice data 8 16)"

definition heap_ptr :: "bytes \<Rightarrow> nat option" where
  "heap_ptr data = map_option from_le (vslice data 0 8)"

text \<open>The box behind a heap cell: its address and the bytes the cell sees.\<close>

definition ss_box :: "small_str \<Rightarrow> boxes \<Rightarrow> (nat \<times> bytes) option" where
  "ss_box s h = do {
     p \<leftarrow> heap_ptr (ss_data s);
     n \<leftarrow> read_heap_len (ss_data s);
     b \<leftarrow> h p;
     bs \<leftarrow> vslice b 0 n;
     Some (p, bs) }"

definition ss_inline :: "bytes \<Rightarrow> small_str option" where
  "ss_inline bs = do {
     data \<leftarrow> vcopy_at (replicate SMALL_STR_CAP 0) 0 bs;
     Some \<lparr>ss_data = data, ss_tag = length bs\<rparr> }"

definition ss_boxed :: "nat \<Rightarrow> bytes \<Rightarrow> boxes \<Rightarrow> (small_str \<times> boxes) option" where
  "ss_boxed p bs h = do {
     data \<leftarrow> vcopy_at (replicate SMALL_STR_CAP 0) 0 (le_bytes 8 p);
     data' \<leftarrow> store_heap_len data (length bs);
     Some (\<lparr>ss_data = data', ss_tag = TAG_HEAP\<rparr>, h(p \<mapsto> bs)) }"

definition ss_from_slice :: "nat \<Rightarrow> bytes \<Rightarrow> boxes \<Rightarrow> (small_str \<times> boxes) option" where
  "ss_from_slice p bs h =
     (if length bs \<le> SMALL_STR_CAP then map_option (\<lambda>s. (s, h)) (ss_inline bs) else ss_boxed p bs h)"

definition ss_from_string :: "nat \<Rightarrow> bytes \<Rightarrow> boxes \<Rightarrow> (small_str \<times> boxes) option" where
  "ss_from_string p str h =
     (if length str \<le> SMALL_STR_CAP then map_option (\<lambda>s. (s, h)) (ss_inline str) else ss_boxed p str h)"

definition ss_from_bytes :: "nat \<Rightarrow> bytes \<Rightarrow> boxes \<Rightarrow> (small_str \<times> boxes) option" where
  "ss_from_bytes p bs h =
     (if length bs \<le> SMALL_STR_CAP then map_option (\<lambda>s. (s, h)) (ss_inline bs) else ss_boxed p bs h)"

definition ss_new :: "nat \<Rightarrow> bytes \<Rightarrow> boxes \<Rightarrow> (small_str \<times> boxes) option" where
  "ss_new p s h = ss_from_slice p s h"

definition ss_default :: small_str where
  "ss_default = \<lparr>ss_data = replicate SMALL_STR_CAP 0, ss_tag = 0\<rparr>"

definition ss_from_int :: "nat \<Rightarrow> int \<Rightarrow> boxes \<Rightarrow> (small_str \<times> boxes) option" where
  "ss_from_int p n h =
     (let buf = replicate 20 0 in
      if n < 0 then do {
        (buf1, i) \<leftarrow> int_loop (nat (- n)) buf (length buf);
        (buf2, i') \<leftarrow> put_digit buf1 i 45;
        s \<leftarrow> vslice buf2 i' (length buf2);
        ss_new p s h }
      else do {
        (buf1, i) \<leftarrow> int_loop (nat n) buf (length buf);
        s \<leftarrow> vslice buf1 i (length buf1);
        ss_new p s h })"

section \<open>Reading\<close>

definition ss_as_bytes :: "small_str \<Rightarrow> boxes \<Rightarrow> bytes option" where
  "ss_as_bytes s h =
     (if ss_tag s \<noteq> TAG_HEAP then vslice (ss_data s) 0 (ss_tag s) else map_option snd (ss_box s h))"

definition ss_as_str :: "small_str \<Rightarrow> boxes \<Rightarrow> bytes option" where
  "ss_as_str s h =
     (if ss_tag s \<noteq> TAG_HEAP then vslice (ss_data s) 0 (ss_tag s) else map_option snd (ss_box s h))"

definition ss_len :: "small_str \<Rightarrow> nat option" where
  "ss_len s = (if ss_tag s \<noteq> TAG_HEAP then Some (ss_tag s) else read_heap_len (ss_data s))"

definition ss_is_empty :: "small_str \<Rightarrow> bool option" where
  "ss_is_empty s = map_option (\<lambda>n. n = 0) (ss_len s)"

definition ss_eq :: "small_str \<Rightarrow> small_str \<Rightarrow> boxes \<Rightarrow> bool option" where
  "ss_eq s t h = do { a \<leftarrow> ss_as_str s h; b \<leftarrow> ss_as_str t h; Some (a = b) }"

section \<open>Freeing and copying\<close>

definition ss_drop :: "small_str \<Rightarrow> boxes \<Rightarrow> boxes option" where
  "ss_drop s h =
     (if ss_tag s = TAG_HEAP then map_option (\<lambda>(p, _). h(p := None)) (ss_box s h) else Some h)"

definition ss_into_string :: "small_str \<Rightarrow> boxes \<Rightarrow> (bytes \<times> boxes) option" where
  "ss_into_string s h =
     (if ss_tag s \<noteq> TAG_HEAP then map_option (\<lambda>bs. (bs, h)) (ss_as_str s h)
      else map_option (\<lambda>(p, bs). (bs, h(p := None))) (ss_box s h))"

definition ss_into_bytes :: "small_str \<Rightarrow> boxes \<Rightarrow> (bytes \<times> boxes) option" where
  "ss_into_bytes s h =
     (if ss_tag s \<noteq> TAG_HEAP then map_option (\<lambda>bs. (bs, h)) (ss_as_bytes s h)
      else map_option (\<lambda>(p, bs). (bs, h(p := None))) (ss_box s h))"

definition ss_clone :: "nat \<Rightarrow> small_str \<Rightarrow> boxes \<Rightarrow> (small_str \<times> boxes) option" where
  "ss_clone p s h =
     (if ss_tag s \<noteq> TAG_HEAP then Some (\<lparr>ss_data = ss_data s, ss_tag = ss_tag s\<rparr>, h)
      else do { bs \<leftarrow> ss_as_bytes s h; ss_from_slice p bs h })"

section \<open>Changing in place\<close>

text \<open>The byte loop of \<^verbatim>\<open>overwrite_bytes\<close> for strings of at most three bytes.\<close>

fun copy_loop :: "nat \<Rightarrow> bytes \<Rightarrow> bytes \<Rightarrow> bytes option" where
  "copy_loop i [] data = Some data"
| "copy_loop i (b # bs) data = do { data' \<leftarrow> vset data i b; copy_loop (i + 1) bs data' }"

text \<open>Assigning to \<^verbatim>\<open>*self\<close> drops the old cell after the new one is built.\<close>

definition ss_overwrite_bytes :: "nat \<Rightarrow> bytes \<Rightarrow> small_str \<Rightarrow> boxes \<Rightarrow> (small_str \<times> boxes) option" where
  "ss_overwrite_bytes p s self h =
     (let len = length s in
      if ss_tag self \<le> SMALL_STR_CAP \<and> len \<le> SMALL_STR_CAP then do {
        data \<leftarrow>
          (if len \<le> 8 then
             (if len \<ge> 4 then do {
                w1 \<leftarrow> vslice s 0 4;
                w2 \<leftarrow> vslice s (len - 4) len;
                d1 \<leftarrow> vcopy_at (ss_data self) 0 w1;
                vcopy_at d1 (len - 4) w2 }
              else copy_loop 0 s (ss_data self))
           else vcopy_at (ss_data self) 0 s);
        Some (\<lparr>ss_data = data, ss_tag = len\<rparr>, h) }
      else do {
        (self', h1) \<leftarrow> ss_from_slice p s h;
        h2 \<leftarrow> ss_drop self h1;
        Some (self', h2) })"

definition ss_push_str :: "nat \<Rightarrow> bytes \<Rightarrow> small_str \<Rightarrow> boxes \<Rightarrow> (small_str \<times> boxes) option" where
  "ss_push_str p s self h = do {
     cur \<leftarrow> ss_len self;
     (if ss_tag self \<noteq> TAG_HEAP \<and> cur + length s \<le> SMALL_STR_CAP then do {
        data \<leftarrow> vcopy_at (ss_data self) cur s;
        Some (\<lparr>ss_data = data, ss_tag = cur + length s\<rparr>, h) }
      else do {
        owned \<leftarrow> ss_as_str self h;
        (self', h1) \<leftarrow> ss_from_string p (owned @ s) h;
        h2 \<leftarrow> ss_drop self h1;
        Some (self', h2) }) }"

definition ss_ensure_len :: "nat \<Rightarrow> nat \<Rightarrow> small_str \<Rightarrow> boxes \<Rightarrow> (small_str \<times> boxes) option" where
  "ss_ensure_len p min_len self h = do {
     n \<leftarrow> ss_len self;
     (if n < min_len then do {
        owned \<leftarrow> ss_as_str self h;
        (self', h1) \<leftarrow> ss_from_string p (owned @ replicate (min_len - length owned) 0) h;
        h2 \<leftarrow> ss_drop self h1;
        Some (self', h2) }
      else Some (self, h)) }"

section \<open>Replying\<close>

definition ss_write_resp :: "small_str \<Rightarrow> boxes \<Rightarrow> outbuf \<Rightarrow> outbuf option" where
  "ss_write_resp s h out =
     (let len = ss_tag s; old_len = ob_len out; capacity = length (ob_mem out) in
      if len < 10 then
        (if capacity < old_len + 16 then do { bs \<leftarrow> ss_as_str s h; write_bulk out bs }
         else do {
           out1 \<leftarrow> ob_poke out old_len [36, 48 + of_nat len, 13, 10];
           word \<leftarrow> vslice (ss_data s) 0 8;
           out2 \<leftarrow> ob_poke out1 (old_len + 4) word;
           out3 \<leftarrow> ob_poke out2 (old_len + (4 + len)) [13, 10];
           Some (out3\<lparr>ob_len := old_len + (6 + len)\<rparr>) })
      else if len \<le> SMALL_STR_CAP then
        (if capacity < old_len + (7 + len) then do { bs \<leftarrow> ss_as_str s h; write_bulk out bs }
         else do {
           out1 \<leftarrow> ob_poke out old_len [36, 48 + of_nat (len div 10), 48 + of_nat (len mod 10), 13, 10];
           bs \<leftarrow> vslice (ss_data s) 0 len;
           out2 \<leftarrow> ob_poke out1 (old_len + 5) bs;
           out3 \<leftarrow> ob_poke out2 (old_len + (5 + len)) [13, 10];
           Some (out3\<lparr>ob_len := old_len + (7 + len)\<rparr>) })
      else do { bs \<leftarrow> ss_as_bytes s h; write_bulk_bytes out bs })"

section \<open>What a cell holds\<close>

definition ss_holds :: "boxes \<Rightarrow> small_str \<Rightarrow> bytes \<Rightarrow> bool" where
  "ss_holds h s bs \<longleftrightarrow> length (ss_data s) = SMALL_STR_CAP
     \<and> (if ss_tag s = TAG_HEAP
        then SMALL_STR_CAP < length bs \<and> (\<exists>p. heap_ptr (ss_data s) = Some p \<and> h p = Some bs)
          \<and> read_heap_len (ss_data s) = Some (length bs)
        else ss_tag s \<le> SMALL_STR_CAP \<and> length bs = ss_tag s \<and> take (ss_tag s) (ss_data s) = bs)"

text \<open>The addresses a cell owns.\<close>

definition ss_owns :: "small_str \<Rightarrow> nat set" where
  "ss_owns s = (if ss_tag s = TAG_HEAP then set_option (heap_ptr (ss_data s)) else {})"

text \<open>An address the allocator may return: a 64-bit word that holds no box.\<close>

definition fresh :: "nat \<Rightarrow> boxes \<Rightarrow> bool" where
  "fresh p h \<longleftrightarrow> h p = None \<and> p < 2 ^ 64"

lemmas ss_consts = SMALL_STR_CAP_def TAG_HEAP_def

text \<open>
  One step of a cell: it holds a new string, its old box is freed, and the boxes of all other cells
  are untouched and not shared.
\<close>

definition ss_step :: "boxes \<Rightarrow> small_str \<Rightarrow> boxes \<Rightarrow> small_str \<Rightarrow> bytes \<Rightarrow> bool" where
  "ss_step h s h' s' bs \<longleftrightarrow> ss_holds h' s' bs
     \<and> ss_owns s' \<inter> (dom h - ss_owns s) = {}
     \<and> h' |` (- ss_owns s') = h |` (- ss_owns s)"

lemma ss_inline_holds:
  assumes "length bs \<le> SMALL_STR_CAP"
  shows "\<exists>s. ss_inline bs = Some s \<and> ss_holds h s bs \<and> ss_owns s = {} \<and> ss_tag s = length bs"
  using assms by (auto simp: ss_inline_def panic_simps ss_holds_def ss_owns_def ss_consts)

lemma ss_boxed_holds:
  assumes "length bs < 2 ^ 56" "p < 2 ^ 64" "SMALL_STR_CAP < length bs"
  shows "\<exists>s. ss_boxed p bs h = Some (s, h(p \<mapsto> bs)) \<and> ss_holds (h(p \<mapsto> bs)) s bs \<and> ss_owns s = {p}"
proof -
  let ?d = "le_bytes 8 p @ replicate 15 0"
  let ?d' = "le_bytes 8 p @ le_bytes 7 (length bs) @ replicate 8 0"
  have 1: "vcopy_at (replicate SMALL_STR_CAP 0) 0 (le_bytes 8 p) = Some ?d"
    by (simp add: panic_simps SMALL_STR_CAP_def)
  have 2: "store_heap_len ?d (length bs) = Some ?d'"
    by (simp add: store_heap_len_def panic_simps take_le_bytes)
  have ptr: "heap_ptr ?d' = Some p"
    using assms(2) by (simp add: heap_ptr_def panic_simps from_le_bytes)
  have "from_le (le_bytes 7 (length bs) @ [0]) = length bs"
    using assms(1) by (simp add: from_le_append from_le_bytes)
  moreover have "take 8 (le_bytes 7 (length bs) @ replicate 8 (0 :: byte)) = le_bytes 7 (length bs) @ [0]"
    by (simp add: take_replicate)
  ultimately have len: "read_heap_len ?d' = Some (length bs)"
    using assms(1) by (simp add: read_heap_len_def panic_simps take_bit_nat_eq_self)
  show ?thesis
    using 1 2 ptr len assms(3) by (simp add: ss_boxed_def ss_holds_def ss_owns_def ss_consts)
qed

text \<open>The rule for every constructor: the cell holds the string and owns a new box or none.\<close>

lemma ss_from_slice_holds:
  assumes "length bs < 2 ^ 56" "fresh p h"
  shows "\<exists>s h'. ss_from_slice p bs h = Some (s, h') \<and> ss_holds h' s bs
     \<and> h' = (if length bs \<le> SMALL_STR_CAP then h else h(p \<mapsto> bs))
     \<and> ss_owns s = (if length bs \<le> SMALL_STR_CAP then {} else {p})"
  using assms ss_inline_holds [of bs h] ss_boxed_holds [of bs p h]
  by (cases "length bs \<le> SMALL_STR_CAP") (auto simp: ss_from_slice_def fresh_def)

lemma ss_constructors:
  "ss_from_string p bs h = ss_from_slice p bs h" "ss_from_bytes p bs h = ss_from_slice p bs h"
  "ss_new p bs h = ss_from_slice p bs h"
  by (simp_all add: ss_from_string_def ss_from_bytes_def ss_new_def ss_from_slice_def)

lemma ss_holds_as_bytes: "ss_holds h s bs \<Longrightarrow> ss_as_bytes s h = Some bs"
  by (auto simp: ss_holds_def ss_as_bytes_def ss_box_def panic_simps ss_consts)

lemma ss_as_str_eq: "ss_as_str s h = ss_as_bytes s h"
  by (simp add: ss_as_str_def ss_as_bytes_def)

lemma ss_holds_len: "ss_holds h s bs \<Longrightarrow> ss_len s = Some (length bs)"
  by (auto simp: ss_holds_def ss_len_def)

lemma ss_holds_box:
  "ss_holds h s bs \<Longrightarrow> ss_tag s = TAG_HEAP \<Longrightarrow>
   \<exists>p. ss_box s h = Some (p, bs) \<and> ss_owns s = {p} \<and> h p = Some bs"
  by (auto simp: ss_holds_def ss_box_def ss_owns_def panic_simps)

lemma ss_drop_holds:
  assumes "ss_holds h s bs"
  shows "ss_drop s h = Some (h |` (- ss_owns s))"
proof (cases "ss_tag s = TAG_HEAP")
  case True
  from ss_holds_box [OF assms this] show ?thesis
    using True by (auto simp: ss_drop_def restrict_map_def fun_eq_iff)
next
  case False
  then have "ss_owns s = {}" by (simp add: ss_owns_def)
  then show ?thesis using False by (simp add: ss_drop_def restrict_map_def)
qed

lemma ss_holds_frame:
  "ss_holds h s bs \<Longrightarrow> (\<And>p. p \<in> ss_owns s \<Longrightarrow> h' p = h p) \<Longrightarrow> ss_holds h' s bs"
  by (auto simp: ss_holds_def ss_owns_def)

lemma ss_owns_dom: "ss_holds h s bs \<Longrightarrow> ss_owns s \<subseteq> dom h"
  by (auto simp: ss_holds_def ss_owns_def split: if_splits)

section \<open>Construction, reading and freeing\<close>

text \<open>C35. Every constructor gives a cell from which every reader gets the string back, inline or boxed, and freeing the
  cell leaves the heap as it was before.\<close>

theorem ss_roundtrip:
  assumes "length bs < 2 ^ 56" "fresh p h"
  shows "\<exists>s h'. ss_from_slice p bs h = Some (s, h') \<and> ss_from_string p bs h = Some (s, h')
      \<and> ss_from_bytes p bs h = Some (s, h') \<and> ss_new p bs h = Some (s, h')
      \<and> ss_as_str s h' = Some bs \<and> ss_as_bytes s h' = Some bs \<and> ss_len s = Some (length bs)
      \<and> ss_into_string s h' = Some (bs, h) \<and> ss_into_bytes s h' = Some (bs, h) \<and> ss_drop s h' = Some h"
proof -
  obtain s h' where s: "ss_from_slice p bs h = Some (s, h')" "ss_holds h' s bs"
      "h' = (if length bs \<le> SMALL_STR_CAP then h else h(p \<mapsto> bs))"
      "ss_owns s = (if length bs \<le> SMALL_STR_CAP then {} else {p})"
    using ss_from_slice_holds [OF assms] by blast
  have hp: "h p = None" using assms(2) by (simp add: fresh_def)
  then have r: "h' |` (- ss_owns s) = h" using s(3,4) by (auto simp: restrict_map_def fun_eq_iff)
  have into: "ss_into_string s h' = Some (bs, h) \<and> ss_into_bytes s h' = Some (bs, h)"
  proof (cases "ss_tag s = TAG_HEAP")
    case True
    from ss_holds_box [OF s(2) this] obtain q where "ss_box s h' = Some (q, bs)" "ss_owns s = {q}" by blast
    moreover from this have "h'(q := None) = h"
      unfolding r [symmetric] by (simp add: restrict_map_def fun_eq_iff)
    ultimately show ?thesis using True by (simp add: ss_into_string_def ss_into_bytes_def)
  next
    case False
    with r have "h' = h" by (simp add: ss_owns_def restrict_map_def)
    with False ss_holds_as_bytes [OF s(2)] show ?thesis
      by (simp add: ss_into_string_def ss_into_bytes_def ss_as_str_eq)
  qed
  show ?thesis
    using s(1) into ss_holds_as_bytes [OF s(2)] ss_holds_len [OF s(2)] ss_drop_holds [OF s(2)] r
    by (simp add: ss_constructors ss_as_str_eq)
qed

theorem ss_roundtrip_witness:
  "\<exists>s h'. ss_from_slice 64 (replicate 30 7) Map.empty = Some (s, h') \<and> ss_as_str s h' = Some (replicate 30 7)
     \<and> ss_drop s h' = Some Map.empty"
  using ss_roundtrip [of "replicate 30 7" 64 Map.empty] by (auto simp: fresh_def)

lemma ss_replace:
  assumes "ss_holds h s old" "length bs < 2 ^ 56" "fresh p h"
  shows "\<exists>s' h'. do { (s', h1) \<leftarrow> ss_from_slice p bs h; h2 \<leftarrow> ss_drop s h1; Some (s', h2) } = Some (s', h')
     \<and> ss_step h s h' s' bs"
proof -
  obtain s' h1 where s': "ss_from_slice p bs h = Some (s', h1)" "ss_holds h1 s' bs"
      "h1 = (if length bs \<le> SMALL_STR_CAP then h else h(p \<mapsto> bs))"
      "ss_owns s' = (if length bs \<le> SMALL_STR_CAP then {} else {p})"
    using ss_from_slice_holds [OF assms(2,3)] by blast
  have hp: "h p = None" using assms(3) by (simp add: fresh_def)
  have own: "p \<notin> ss_owns s" using ss_owns_dom [OF assms(1)] hp by auto
  have "ss_holds h1 s old" by (rule ss_holds_frame [OF assms(1)]) (use s'(3) own in auto)
  from ss_drop_holds [OF this] have d: "ss_drop s h1 = Some (h1 |` (- ss_owns s))" .
  have "ss_holds (h1 |` (- ss_owns s)) s' bs"
    by (rule ss_holds_frame [OF s'(2)]) (use s'(4) own in \<open>auto split: if_splits\<close>)
  moreover have "(h1 |` (- ss_owns s)) |` (- ss_owns s') = h |` (- ss_owns s)"
    using s'(3,4) hp by (auto simp: restrict_map_def fun_eq_iff)
  ultimately show ?thesis using s'(1,4) d hp by (auto simp: ss_step_def)
qed

lemma ss_step_inline:
  assumes "ss_holds h s old" "ss_tag s \<noteq> TAG_HEAP" "length d = SMALL_STR_CAP" "take (length bs) d = bs"
    "length bs \<le> SMALL_STR_CAP"
  shows "ss_step h s h \<lparr>ss_data = d, ss_tag = length bs\<rparr> bs"
  using assms by (auto simp: ss_step_def ss_holds_def ss_owns_def ss_consts)

lemma copy_loop_eq: "i + length bs \<le> length d \<Longrightarrow> copy_loop i bs d = Some (take i d @ bs @ drop (i + length bs) d)"
proof (induction bs arbitrary: i d)
  case (Cons b bs)
  then have i: "i < length d" by simp
  have t: "take (Suc i) (d[i := b]) = take i d @ [b]" using i by (simp add: take_Suc_conv_app_nth)
  from Cons.IH [of "Suc i" "d[i := b]"] Cons.prems show ?case
    by (simp add: panic_simps i t)
qed simp

text \<open>The two overlapping four-byte stores write the whole string.\<close>

lemma overlap_copy:
  assumes "4 \<le> length s" "length s \<le> 8" "length s \<le> length d"
  shows "take (length s) (take (length s - 4) (take 4 s @ drop 4 d) @ drop (length s - 4) s
      @ drop (length s) (take 4 s @ drop 4 d)) = s"
  using assms by (auto simp: take_drop min_def intro!: nth_equalityI simp: nth_append)

section \<open>Changes in place\<close>

text \<open>Overwriting a cell gives exactly the new string whatever cell was there before (the overlapping
  four-byte stores, the byte loop, the copy and the reallocation agree), frees the old box, and touches
  no other box.\<close>

theorem ss_overwrite_correct:
  assumes "ss_holds h s old" "length bs < 2 ^ 56" "fresh p h"
  shows "\<exists>s' h'. ss_overwrite_bytes p bs s h = Some (s', h') \<and> ss_step h s h' s' bs"
proof (cases "ss_tag s \<le> SMALL_STR_CAP \<and> length bs \<le> SMALL_STR_CAP")
  case True
  then have t: "ss_tag s \<noteq> TAG_HEAP" "length (ss_data s) = 23" "length bs \<le> 23"
    using assms(1) by (auto simp: ss_consts ss_holds_def)
  consider (word) "4 \<le> length bs" "length bs \<le> 8" | (loop) "length bs < 4" | (copy) "8 < length bs" by linarith
  then show ?thesis
  proof cases
    case word
    let ?d = "take (length bs - 4) (take 4 bs @ drop 4 (ss_data s)) @ drop (length bs - 4) bs
      @ drop (length bs) (take 4 bs @ drop 4 (ss_data s))"
    have "ss_overwrite_bytes p bs s h = Some (\<lparr>ss_data = ?d, ss_tag = length bs\<rparr>, h)"
      using True word t by (simp add: ss_overwrite_bytes_def panic_simps Let_def)
    moreover have "ss_step h s h \<lparr>ss_data = ?d, ss_tag = length bs\<rparr> bs"
      using word t overlap_copy [of bs "ss_data s"] by (intro ss_step_inline [OF assms(1)]) (auto simp: ss_consts)
    ultimately show ?thesis by blast
  next
    case loop
    let ?d = "bs @ drop (length bs) (ss_data s)"
    have "ss_overwrite_bytes p bs s h = Some (\<lparr>ss_data = ?d, ss_tag = length bs\<rparr>, h)"
      using True loop t by (simp add: ss_overwrite_bytes_def copy_loop_eq Let_def)
    moreover have "ss_step h s h \<lparr>ss_data = ?d, ss_tag = length bs\<rparr> bs"
      using t by (intro ss_step_inline [OF assms(1)]) (auto simp: ss_consts)
    ultimately show ?thesis by blast
  next
    case copy
    let ?d = "bs @ drop (length bs) (ss_data s)"
    have "ss_overwrite_bytes p bs s h = Some (\<lparr>ss_data = ?d, ss_tag = length bs\<rparr>, h)"
      using True copy t by (simp add: ss_overwrite_bytes_def panic_simps Let_def)
    moreover have "ss_step h s h \<lparr>ss_data = ?d, ss_tag = length bs\<rparr> bs"
      using t by (intro ss_step_inline [OF assms(1)]) (auto simp: ss_consts)
    ultimately show ?thesis by blast
  qed
next
  case False
  with ss_replace [OF assms] show ?thesis by (auto simp: ss_overwrite_bytes_def Let_def)
qed

lemma ss_default_holds: "ss_holds h ss_default []"
  by (simp add: ss_default_def ss_holds_def ss_consts)

theorem ss_overwrite_correct_witness:
  "\<exists>s' h'. ss_overwrite_bytes 64 [1, 2, 3, 4, 5] ss_default Map.empty = Some (s', h')
     \<and> ss_as_str s' h' = Some [1, 2, 3, 4, 5]"
  using ss_overwrite_correct [OF ss_default_holds [of Map.empty], of "[1, 2, 3, 4, 5]" 64]
  by (auto simp: fresh_def ss_step_def ss_as_str_eq ss_holds_as_bytes)

text \<open>Appending to a cell and padding a cell with zero bytes give the longer string, move it to a box when it
  no longer fits inline, and touch no other box.\<close>

theorem ss_push_ensure_correct:
  assumes "ss_holds h s old" "fresh p h" "length old + length bs < 2 ^ 56" "n < 2 ^ 56"
  shows "(\<exists>s' h'. ss_push_str p bs s h = Some (s', h') \<and> ss_step h s h' s' (old @ bs))
    \<and> (\<exists>s' h'. ss_ensure_len p n s h = Some (s', h') \<and> ss_step h s h' s' (old @ replicate (n - length old) 0))"
proof
  note len = ss_holds_len [OF assms(1)] and str = ss_holds_as_bytes [OF assms(1)]
  show "\<exists>s' h'. ss_push_str p bs s h = Some (s', h') \<and> ss_step h s h' s' (old @ bs)"
  proof (cases "ss_tag s \<noteq> TAG_HEAP \<and> length old + length bs \<le> SMALL_STR_CAP")
    case True
    then have t: "length (ss_data s) = 23" "take (length old) (ss_data s) = old"
      using assms(1) by (auto simp: ss_holds_def ss_consts)
    let ?d = "take (length old) (ss_data s) @ bs @ drop (length old + length bs) (ss_data s)"
    have "ss_push_str p bs s h = Some (\<lparr>ss_data = ?d, ss_tag = length (old @ bs)\<rparr>, h)"
      using True t len by (simp add: ss_push_str_def panic_simps SMALL_STR_CAP_def)
    moreover have "ss_step h s h \<lparr>ss_data = ?d, ss_tag = length (old @ bs)\<rparr> (old @ bs)"
      using True t by (intro ss_step_inline [OF assms(1)]) (auto simp: SMALL_STR_CAP_def)
    ultimately show ?thesis by blast
  next
    case False
    with ss_replace [OF assms(1) _ assms(2), of "old @ bs"] assms(3) len str show ?thesis
      by (auto simp: ss_push_str_def ss_as_str_eq ss_constructors)
  qed
  show "\<exists>s' h'. ss_ensure_len p n s h = Some (s', h') \<and> ss_step h s h' s' (old @ replicate (n - length old) 0)"
  proof (cases "length old < n")
    case True
    with ss_replace [OF assms(1) _ assms(2), of "old @ replicate (n - length old) 0"] assms(4) len str show ?thesis
      by (auto simp: ss_ensure_len_def ss_as_str_eq ss_constructors)
  next
    case False
    with assms(1) len show ?thesis by (auto simp: ss_ensure_len_def ss_step_def)
  qed
qed

theorem ss_push_ensure_correct_witness:
  "\<exists>s' h'. ss_push_str 64 [1, 2] ss_default Map.empty = Some (s', h') \<and> ss_as_str s' h' = Some [1, 2]"
  using ss_push_ensure_correct [OF ss_default_holds [of Map.empty], of 64 "[1, 2]" 0]
  by (auto simp: fresh_def ss_step_def ss_as_str_eq ss_holds_as_bytes)

text \<open>C36. A clone holds the same string in a box of its own: freeing either cell leaves the other intact,
  so no box is freed twice.\<close>

theorem ss_clone_independent:
  assumes "ss_holds h s bs" "length bs < 2 ^ 56" "fresh p h"
  shows "\<exists>s' h'. ss_clone p s h = Some (s', h') \<and> ss_holds h' s' bs \<and> ss_holds h' s bs
    \<and> (\<exists>h1. ss_drop s h' = Some h1 \<and> ss_as_str s' h1 = Some bs \<and> (\<exists>h2. ss_drop s' h1 = Some h2))
    \<and> ss_drop s' h' = Some h"
proof (cases "ss_tag s = TAG_HEAP")
  case False
  then have "ss_clone p s h = Some (s, h)" "ss_owns s = {}" by (simp_all add: ss_clone_def ss_owns_def)
  moreover have "ss_drop s h = Some h" using False by (simp add: ss_drop_def)
  ultimately show ?thesis using assms(1) ss_holds_as_bytes [OF assms(1)] by (auto simp: ss_as_str_eq)
next
  case True
  obtain s' h' where s': "ss_from_slice p bs h = Some (s', h')" "ss_holds h' s' bs"
      "h' = (if length bs \<le> SMALL_STR_CAP then h else h(p \<mapsto> bs))"
      "ss_owns s' = (if length bs \<le> SMALL_STR_CAP then {} else {p})"
    using ss_from_slice_holds [OF assms(2,3)] by blast
  have hp: "h p = None" using assms(3) by (simp add: fresh_def)
  have own: "p \<notin> ss_owns s" using ss_owns_dom [OF assms(1)] hp by auto
  have hs: "ss_holds h' s bs" by (rule ss_holds_frame [OF assms(1)]) (use s'(3) own in auto)
  have d: "ss_drop s h' = Some (h' |` (- ss_owns s))" by (rule ss_drop_holds [OF hs])
  have h1: "ss_holds (h' |` (- ss_owns s)) s' bs"
    by (rule ss_holds_frame [OF s'(2)]) (use s'(4) own in \<open>auto split: if_splits\<close>)
  have "h' |` (- ss_owns s') = h" using s'(3,4) hp by (auto simp: restrict_map_def fun_eq_iff)
  with ss_drop_holds [OF s'(2)] have d': "ss_drop s' h' = Some h" by simp
  have "ss_clone p s h = Some (s', h')"
    using True s'(1) ss_holds_as_bytes [OF assms(1)] by (simp add: ss_clone_def)
  then show ?thesis using s'(2) hs d d' ss_drop_holds [OF h1] ss_holds_as_bytes [OF h1]
    by (auto simp: ss_as_str_eq)
qed

theorem ss_clone_independent_witness:
  "\<exists>s h s' h' h1. ss_from_slice 64 (replicate 40 7) Map.empty = Some (s, h) \<and> ss_clone 128 s h = Some (s', h')
     \<and> ss_drop s h' = Some h1 \<and> ss_as_str s' h1 = Some (replicate 40 7)"
proof -
  have f: "fresh 64 Map.empty" by (simp add: fresh_def)
  have l: "length (replicate 40 7 :: bytes) < 2 ^ 56" by simp
  obtain s h where s: "ss_from_slice 64 (replicate 40 7) Map.empty = Some (s, h)" "ss_holds h s (replicate 40 7)"
      "h = (if length (replicate 40 7 :: bytes) \<le> SMALL_STR_CAP then Map.empty else [64 \<mapsto> replicate 40 7])"
    using ss_from_slice_holds [OF l f] by blast
  have "fresh 128 h" using s(3) by (auto simp: fresh_def)
  from ss_clone_independent [OF s(2) l this] s(1) show ?thesis by blast
qed

text \<open>C32. \<^verbatim>\<open>from_int\<close> formats every i64, the smallest included, as its decimal string, without using the heap.\<close>

theorem ss_from_int_correct:
  assumes "in_i64 n"
  shows "\<exists>s. ss_from_int p n h = Some (s, h) \<and> ss_as_str s h = Some (idec n)"
proof -
  have w: "ss_from_int p n h = do { s \<leftarrow> write_int_to (replicate 20 0) n; ss_new p s h }"
    by (simp add: ss_from_int_def write_int_to_def Let_def split_def)
  have "length (idec n) \<le> 20"
  proof (cases "n < 0")
    case True
    then have "nat (- n) \<le> 2 ^ 63" using assms by (simp add: in_i64_def i64_min_def nat_le_iff)
    from length_dec_i64 [OF this] True show ?thesis by (simp add: idec_def)
  next
    case False
    then have "nat n \<le> 2 ^ 63" using assms by (simp add: in_i64_def i64_max_def nat_le_iff)
    from length_dec_i64 [OF this] False show ?thesis by (simp add: idec_def)
  qed
  then have l: "length (idec n) \<le> SMALL_STR_CAP" by (simp add: SMALL_STR_CAP_def)
  from ss_inline_holds [OF this, of h] l write_int_to_idec [OF assms, of "replicate 20 0"] show ?thesis
    by (auto simp: w ss_constructors ss_from_slice_def ss_as_str_eq ss_holds_as_bytes)
qed

theorem ss_from_int_correct_witness:
  "\<exists>s. ss_from_int 64 (- (2 ^ 63)) Map.empty = Some (s, Map.empty) \<and> ss_as_str s Map.empty = Some (idec (- (2 ^ 63)))"
  using ss_from_int_correct [of "- (2 ^ 63)" 64 Map.empty] by (simp add: in_i64_def i64_min_def i64_max_def)

section \<open>Replying\<close>

lemma ob_poke_over:
  "ob_mem out = p @ mid @ rest \<Longrightarrow> at = length p \<Longrightarrow> length bs = length mid \<Longrightarrow>
   ob_poke out at bs = Some (out\<lparr>ob_mem := p @ bs @ rest\<rparr>)"
  by (simp add: ob_poke_def panic_simps)

lemma ob_mem_split:
  "ob_ok out \<Longrightarrow> ob_mem out = ob_bytes out @ drop (ob_len out) (ob_mem out) \<and> length (ob_bytes out) = ob_len out"
  by (simp add: ob_ok_def ob_bytes_def)

lemma ob_mem_upd: "ob_mem (out\<lparr>ob_mem := m\<rparr>) = m"
  by simp

lemma take_two_drop: "xs = take n xs @ take 2 (drop n xs) @ drop (n + 2) xs"
proof -
  have "drop n xs = take 2 (drop n xs) @ drop (n + 2) xs"
    using append_take_drop_id [of 2 "drop n xs"] by (simp add: add.commute)
  then show ?thesis using append_take_drop_id [of n xs] by simp
qed

text \<open>What the branch for strings of fewer than ten bytes leaves in the buffer: the header, eight bytes of
  the cell, then the line end over them.\<close>

lemma ss_write_resp_short:
  assumes "ss_holds h s bs" "ss_tag s < 10" "ob_ok out" "ob_len out + 16 \<le> length (ob_mem out)"
  shows "\<exists>out'. ss_write_resp s h out = Some out' \<and> ob_ok out'
    \<and> ob_bytes out' = ob_bytes out @ [36, 48 + of_nat (length bs), 13, 10]
        @ take (length bs) (take 8 (ss_data s) @ drop (ob_len out + 12) (ob_mem out)) @ crlf"
proof -
  have t: "ss_tag s \<noteq> TAG_HEAP" using assms(2) by (simp add: TAG_HEAP_def)
  then have s: "length (ss_data s) = 23" "ss_tag s = length bs" using assms(1) by (auto simp: ss_holds_def ss_consts)
  define P r1 r2 r3 where defs: "P = ob_bytes out" "r1 = take 4 (drop (ob_len out) (ob_mem out))"
    "r2 = take 8 (drop (ob_len out + 4) (ob_mem out))" "r3 = drop (ob_len out + 12) (ob_mem out)"
  have "drop (ob_len out) (ob_mem out) = r1 @ drop (ob_len out + 4) (ob_mem out)"
    "drop (ob_len out + 4) (ob_mem out) = r2 @ r3"
    using append_take_drop_id [of 4 "drop (ob_len out) (ob_mem out)"]
      append_take_drop_id [of 8 "drop (ob_len out + 4) (ob_mem out)"]
    unfolding defs by (simp_all add: add.commute)
  with ob_mem_split [OF assms(3)] have m1: "ob_mem out = P @ r1 @ r2 @ r3" by (metis defs(1))
  have "length P = ob_len out" using ob_mem_split [OF assms(3)] by (simp only: defs)
  moreover have "length r1 = 4" "length r2 = 8" "4 \<le> length r3" using assms(4) by (simp_all add: defs)
  ultimately have m: "ob_mem out = P @ r1 @ r2 @ r3" "length P = ob_len out" "length r1 = 4" "length r2 = 8"
    "4 \<le> length r3" using m1 by simp_all
  let ?hd = "[36, 48 + of_nat (length bs), 13, 10] :: bytes"
  let ?w = "take 8 (ss_data s)"
  let ?b = "?w @ r3"
  have p1: "ob_poke out (ob_len out) ?hd = Some (out\<lparr>ob_mem := P @ ?hd @ r2 @ r3\<rparr>)"
    by (rule ob_poke_over [OF m(1)]) (simp_all add: m(2,3))
  have p2: "ob_poke (out\<lparr>ob_mem := P @ ?hd @ r2 @ r3\<rparr>) (ob_len out + 4) ?w = Some (out\<lparr>ob_mem := P @ ?hd @ ?b\<rparr>)"
  proof -
    have "ob_mem (out\<lparr>ob_mem := P @ ?hd @ r2 @ r3\<rparr>) = (P @ ?hd) @ r2 @ r3" by simp
    from ob_poke_over [OF this, of "ob_len out + 4" ?w] show ?thesis by (simp add: m(2,4) s(1))
  qed
  have b: "?b = take (length bs) ?b @ take 2 (drop (length bs) ?b) @ drop (length bs + 2) ?b"
    by (rule take_two_drop)
  have lb: "length bs + 2 \<le> length ?b" using assms(2) m(5) by (simp add: s)
  let ?rest = "drop (length bs + 2) ?b"
  have p3: "ob_poke (out\<lparr>ob_mem := P @ ?hd @ ?b\<rparr>) (ob_len out + (4 + length bs)) [13, 10]
      = Some (out\<lparr>ob_mem := (P @ ?hd @ take (length bs) ?b) @ [13, 10] @ ?rest\<rparr>)"
  proof -
    have "P @ ?hd @ ?b = (P @ ?hd @ take (length bs) ?b) @ take 2 (drop (length bs) ?b) @ ?rest"
      using b by (metis append_assoc)
    then have "ob_mem (out\<lparr>ob_mem := P @ ?hd @ ?b\<rparr>)
        = (P @ ?hd @ take (length bs) ?b) @ take 2 (drop (length bs) ?b) @ ?rest" by (rule trans [OF ob_mem_upd])
    from ob_poke_over [OF this, of "ob_len out + (4 + length bs)" "[13, 10]"] lb show ?thesis
      by (simp add: m(2))
  qed
  have w: "vslice (ss_data s) 0 8 = Some ?w" using s by (simp add: panic_simps)
  let ?X = "P @ ?hd @ take (length bs) ?b @ [13, 10]"
  let ?out = "out\<lparr>ob_mem := (P @ ?hd @ take (length bs) ?b) @ [13, 10] @ ?rest\<rparr>"
  have r: "ss_write_resp s h out = Some (?out\<lparr>ob_len := ob_len out + (6 + length bs)\<rparr>)"
    using assms(2,4) s(2) p1 p2 p3 w by (simp add: ss_write_resp_def Let_def)
  have "ob_mem ?out = ?X @ ?rest" by simp
  moreover have "ob_len out + (6 + length bs) = length ?X" using lb by (simp add: m(2))
  ultimately have "ob_ok (?out\<lparr>ob_len := ob_len out + (6 + length bs)\<rparr>)
      \<and> ob_bytes (?out\<lparr>ob_len := ob_len out + (6 + length bs)\<rparr>) = ?X" by (rule ob_done)
  with r show ?thesis unfolding crlf_def defs(1,4)
    by (intro exI [of _ "?out\<lparr>ob_len := ob_len out + (6 + length bs)\<rparr>"]) (simp only: defs append_assoc)
qed

lemma ss_write_resp_long_inline:
  assumes "ss_holds h s bs" "10 \<le> ss_tag s" "ss_tag s \<le> SMALL_STR_CAP" "ob_ok out"
    "ob_len out + (7 + length bs) \<le> length (ob_mem out)"
  shows "\<exists>out'. ss_write_resp s h out = Some out' \<and> ob_ok out' \<and> ob_bytes out' = ob_bytes out @ resp_bulk bs"
proof -
  have s: "length (ss_data s) = 23" "ss_tag s = length bs" "take (length bs) (ss_data s) = bs" "length bs \<le> 23"
    using assms(1,3) by (auto simp: ss_holds_def ss_consts)
  let ?hd = "[36, 48 + of_nat (length bs div 10), 48 + of_nat (length bs mod 10), 13, 10] :: bytes"
  have d: "dec (length bs) = [48 + of_nat (length bs div 10), 48 + of_nat (length bs mod 10)]"
    using assms(2) s by (subst dec_step) (auto simp: dec_less digit_def)
  define rest where "rest = drop (ob_len out) (ob_mem out)"
  then have m: "ob_mem out = ob_bytes out @ rest" "length (ob_bytes out) = ob_len out" "7 + length bs \<le> length rest"
    using ob_mem_split [OF assms(4)] assms(5) by simp_all
  let ?P = "ob_bytes out"
  have l5: "length ?hd = 5" and l2: "length [13, 10 :: byte] = 2" by simp_all
  have p1: "ob_poke out (ob_len out) ?hd = Some (out\<lparr>ob_mem := (?P @ ?hd) @ drop 5 rest\<rparr>)"
    by (rule ob_poke_app [OF m(1) m(2) [symmetric], of ?hd, unfolded l5]) (use m(3) in linarith)
  have p2: "ob_poke (out\<lparr>ob_mem := (?P @ ?hd) @ drop 5 rest\<rparr>) (ob_len out + 5) bs
      = Some (out\<lparr>ob_mem := ((?P @ ?hd) @ bs) @ drop (length bs) (drop 5 rest)\<rparr>)"
    using ob_poke_app [OF ob_mem_upd, of "ob_len out + 5" "?P @ ?hd" bs "drop 5 rest" out] m(2,3) by simp
  let ?r = "drop (length bs) (drop 5 rest)"
  have p3: "ob_poke (out\<lparr>ob_mem := ((?P @ ?hd) @ bs) @ ?r\<rparr>) (ob_len out + (5 + length bs)) [13, 10]
      = Some (out\<lparr>ob_mem := (((?P @ ?hd) @ bs) @ [13, 10]) @ drop 2 ?r\<rparr>)"
    using ob_poke_app [OF ob_mem_upd, of "ob_len out + (5 + length bs)" "(?P @ ?hd) @ bs" "[13, 10]" ?r out, unfolded l2] m(2,3)
    by simp
  let ?out = "out\<lparr>ob_mem := (((?P @ ?hd) @ bs) @ [13, 10]) @ drop 2 ?r\<rparr>"
  have w: "vslice (ss_data s) 0 (length bs) = Some bs" using s by (simp add: panic_simps)
  have r: "ss_write_resp s h out = Some (?out\<lparr>ob_len := ob_len out + (7 + length bs)\<rparr>)"
    using assms(2,3,5) s(2) p1 p2 p3 w by (simp add: ss_write_resp_def Let_def)
  have "ob_ok (?out\<lparr>ob_len := ob_len out + (7 + length bs)\<rparr>)
      \<and> ob_bytes (?out\<lparr>ob_len := ob_len out + (7 + length bs)\<rparr>) = ((?P @ ?hd) @ bs) @ [13, 10]"
    by (rule ob_done [OF ob_mem_upd]) (simp add: m(2))
  with r d show ?thesis by (auto simp: resp_bulk_def crlf_def)
qed

lemma ss_write_resp_emits:
  assumes "ss_holds h s bs" "ob_ok out" "length bs < 2 ^ 64"
    and "length bs \<noteq> 9 \<or> length (ob_mem out) < ob_len out + 16"
  shows "\<exists>out'. ss_write_resp s h out = Some out' \<and> ob_ok out' \<and> ob_bytes out' = ob_bytes out @ resp_bulk bs"
proof -
  have bulk: "\<exists>out'. write_bulk out bs = Some out' \<and> ob_ok out' \<and> ob_bytes out' = ob_bytes out @ resp_bulk bs"
    by (rule emitsE [OF emits_write_bulk [OF assms(3)] assms(2)]) blast
  note str = ss_holds_as_bytes [OF assms(1)]
  consider (short) "ss_tag s < 10" "ob_len out + 16 \<le> length (ob_mem out)"
    | (mid) "10 \<le> ss_tag s" "ss_tag s \<le> SMALL_STR_CAP" "ob_len out + (7 + ss_tag s) \<le> length (ob_mem out)"
    | (fallback) "ss_tag s < 10" "length (ob_mem out) < ob_len out + 16"
    | (fallback2) "10 \<le> ss_tag s" "ss_tag s \<le> SMALL_STR_CAP" "length (ob_mem out) < ob_len out + (7 + ss_tag s)"
    | (heap) "SMALL_STR_CAP < ss_tag s" unfolding linorder_not_less [symmetric] by blast
  then show ?thesis
  proof cases
    case short
    then have s: "ss_tag s = length bs" "take (length bs) (ss_data s) = bs" "length (ss_data s) = 23"
      using assms(1) by (auto simp: ss_holds_def ss_consts)
    then have "length bs \<le> 8" using short assms(4) by auto
    then have "take (length bs) (take 8 (ss_data s) @ x) = bs" for x using s by (simp add: min_def)
    moreover have "dec (length bs) = [48 + of_nat (length bs)]" using short s by (simp add: dec_less digit_def)
    ultimately show ?thesis using ss_write_resp_short [OF assms(1) short(1) assms(2) short(2)]
      by (auto simp: resp_bulk_def crlf_def)
  next
    case mid
    then have "ss_tag s = length bs" using assms(1) by (auto simp: ss_holds_def ss_consts)
    with ss_write_resp_long_inline [OF assms(1) mid(1,2) assms(2)] mid(3) show ?thesis by simp
  next
    case heap
    then have "ss_tag s = TAG_HEAP" using assms(1) by (auto simp: ss_holds_def split: if_splits)
    then show ?thesis using heap bulk str by (auto simp: ss_write_resp_def Let_def ss_consts write_bulk_def)
  qed (use bulk str in \<open>auto simp: ss_write_resp_def Let_def ss_as_str_eq\<close>)
qed

text \<open>C37. A string of any length but nine is written as its RESP bulk string, whatever the spare memory of
  the buffer held and whichever of the three representations and branches is used.\<close>

theorem ss_write_resp_correct:
  assumes "ss_holds h s bs" "ob_ok out" "length bs < 2 ^ 64"
    and "length bs \<noteq> 9 \<or> length (ob_mem out) < ob_len out + 16"
  shows "\<exists>out'. ss_write_resp s h out = Some out' \<and> ob_ok out' \<and> ob_bytes out' = ob_bytes out @ resp_bulk bs"
  using assms by (rule ss_write_resp_emits)

theorem ss_write_resp_correct_witness:
  "\<exists>out'. ss_write_resp ss_default Map.empty \<lparr>ob_mem = replicate 40 7, ob_len = 3\<rparr> = Some out'
     \<and> ob_bytes out' = [7, 7, 7] @ resp_bulk []"
  using ss_write_resp_correct [OF ss_default_holds, of "\<lparr>ob_mem = replicate 40 7, ob_len = 3\<rparr>" Map.empty]
  by (auto simp: ob_ok_def ob_bytes_def numeral_3_eq_3)

text \<open>C38. A string of exactly nine bytes, written to a buffer with sixteen spare bytes, is not the string: the
  branch copies eight bytes of the cell, and the ninth byte of the reply is whatever the spare memory of
  the buffer held.\<close>

theorem ss_write_resp_nine:
  assumes "ss_holds h s bs" "length bs = 9" "ob_ok out" "ob_len out + 16 \<le> length (ob_mem out)"
  shows "\<exists>out'. ss_write_resp s h out = Some out'
    \<and> ob_bytes out' = ob_bytes out @ resp_bulk (take 8 bs @ [ob_mem out ! (ob_len out + 12)])"
proof -
  have "ss_tag s = 9" using assms(1,2) by (auto simp: ss_holds_def SMALL_STR_CAP_def split: if_splits)
  then have t: "ss_tag s < 10" "take 9 (ss_data s) = bs" "length (ss_data s) = 23"
    using assms(1) by (auto simp: ss_holds_def ss_consts)
  have d: "dec 9 = [48 + 9]" by (simp add: dec_less digit_def)
  have "take 8 (ss_data s) = take 8 bs" unfolding t(2) [symmetric] by simp
  moreover have "take 1 (drop (ob_len out + 12) (ob_mem out)) = [ob_mem out ! (ob_len out + 12)]"
    using assms(4) by (simp add: take_Suc hd_drop_conv_nth)
  ultimately have "take 9 (take 8 (ss_data s) @ drop (ob_len out + 12) (ob_mem out))
      = take 8 bs @ [ob_mem out ! (ob_len out + 12)]" using t(3) assms(2) by simp
  moreover have "length (take 8 bs @ [x]) = 9" for x using assms(2) by simp
  ultimately show ?thesis using ss_write_resp_short [OF assms(1) t(1) assms(3,4)] d assms(2)
    by (auto simp: resp_bulk_def crlf_def)
qed

theorem ss_write_resp_nine_witness:
  "\<exists>out'. ss_write_resp \<lparr>ss_data = [97, 98, 99, 100, 101, 102, 103, 104, 105] @ replicate 14 0, ss_tag = 9\<rparr> Map.empty
        \<lparr>ob_mem = replicate 40 63, ob_len = 0\<rparr> = Some out'
     \<and> ob_bytes out' = resp_bulk [97, 98, 99, 100, 101, 102, 103, 104, 63]"
  using ss_write_resp_nine [of Map.empty
      "\<lparr>ss_data = [97, 98, 99, 100, 101, 102, 103, 104, 105] @ replicate 14 0, ss_tag = 9\<rparr>"
      "[97, 98, 99, 100, 101, 102, 103, 104, 105]" "\<lparr>ob_mem = replicate 40 63, ob_len = 0\<rparr>"]
  by (simp add: ss_holds_def ss_consts ob_ok_def ob_bytes_def numeral_eq_Suc)

end
