(* ===== verification/TypedCmd.thy ===== *)
theory TypedCmd
  imports Store SmallStr
begin

text \<open>
  The shapes that the commands on hashes and sets share.  A command looks up a key and runs a closure
  on the container it finds: a missing or expired key gives a default or a fresh container, a value of another
  type gives WRONGTYPE.  The container is reached through a projection of the value type
  (\<^verbatim>\<open>as_hash\<close>, \<^verbatim>\<open>as_set\<close>) and put back with its constructor.  The locale \<^verbatim>\<open>typed_value\<close> states what
  a projection and a constructor must satisfy and proves the rules for the three shapes once.
\<close>

section \<open>The shapes\<close>

definition typed_closure ::
    "(('z, 't) fyrodb \<Rightarrow> 'x option) \<Rightarrow> ('x \<Rightarrow> ('z, 't) fyrodb) \<Rightarrow> env \<Rightarrow> ('r \<times> 'x) option
       \<Rightarrow> ('x \<Rightarrow> ((err + 'r) \<times> 'x) option)
       \<Rightarrow> ('z, 't) store_value \<Rightarrow> ((err + 'r) \<times> ('z, 't) store_value) option" where
  "typed_closure proj mk E fr f val =
     (if is_expired E val then do {
        (r, x) \<leftarrow> fr;
        Some (Ok r, \<lparr>sv_value = mk x, sv_expires_ms = 0\<rparr>) }
      else
        (case proj (sv_value val) of
           Some x \<Rightarrow> do { (r, x') \<leftarrow> f x; Some (r, val\<lparr>sv_value := mk x'\<rparr>) }
         | None \<Rightarrow> Some (Err ''WRONGTYPE'', val)))"

text \<open>Create or change: a missing key is inserted with \<^verbatim>\<open>insert_str\<close>.\<close>

definition typed_put ::
    "(('z, 't) fyrodb \<Rightarrow> 'x option) \<Rightarrow> ('x \<Rightarrow> ('z, 't) fyrodb) \<Rightarrow> env \<Rightarrow> key \<Rightarrow> ('r \<times> 'x) option
       \<Rightarrow> ('x \<Rightarrow> ((err + 'r) \<times> 'x) option) \<Rightarrow> ('z, 't) store \<Rightarrow> ('z, 't, 'r) outcome" where
  "typed_put proj mk E k fr f st = do {
     (result, st1) \<leftarrow> st_update_with k (typed_closure proj mk E fr f) st;
     (case result of
        Some r \<Rightarrow> Some (r, st1)
      | None \<Rightarrow> do {
          (r, x) \<leftarrow> fr;
          Some (Ok r, st_insert k (sv_of (mk x)) st1) }) }"

text \<open>Create or change, with \<^verbatim>\<open>insert_if_absent\<close> and another round when the key appeared meanwhile.\<close>

partial_function (option) typed_put_loop ::
    "(('z, 't) fyrodb \<Rightarrow> 'x option) \<Rightarrow> ('x \<Rightarrow> ('z, 't) fyrodb) \<Rightarrow> env \<Rightarrow> key \<Rightarrow> ('r \<times> 'x) option
       \<Rightarrow> ('x \<Rightarrow> ((err + 'r) \<times> 'x) option) \<Rightarrow> ('z, 't) store \<Rightarrow> ('z, 't, 'r) outcome" where
  "typed_put_loop proj mk E k fr f st = do {
     (result, st1) \<leftarrow> st_update_with k (typed_closure proj mk E fr f) st;
     (case result of
        Some r \<Rightarrow> Some (r, st1)
      | None \<Rightarrow> do {
          (r, x) \<leftarrow> fr;
          (let (is_new, st2) = st_insert_if_absent k (sv_of (mk x)) st1 in
           if is_new then Some (Ok r, st2) else typed_put_loop proj mk E k fr f st2) }) }"

text \<open>Change only: an expired or missing key gives the default.\<close>

definition typed_write ::
    "(('z, 't) fyrodb \<Rightarrow> 'x option) \<Rightarrow> ('x \<Rightarrow> ('z, 't) fyrodb) \<Rightarrow> 'r \<Rightarrow> env \<Rightarrow> key
       \<Rightarrow> ('x \<Rightarrow> ((err + 'r) \<times> 'x) option) \<Rightarrow> ('z, 't) store \<Rightarrow> ('z, 't, 'r) outcome" where
  "typed_write proj mk dflt E k f st = do {
     (result, st1) \<leftarrow> st_update_with k (\<lambda>val.
        if is_expired E val then Some (Ok dflt, val)
        else
          (case proj (sv_value val) of
             Some x \<Rightarrow> do { (r, x') \<leftarrow> f x; Some (r, val\<lparr>sv_value := mk x'\<rparr>) }
           | None \<Rightarrow> Some (Err ''WRONGTYPE'', val))) st;
     Some (case result of Some r \<Rightarrow> r | None \<Rightarrow> Ok dflt, st1) }"

text \<open>Read: \<^verbatim>\<open>get_ref\<close> or \<^verbatim>\<open>read_consistent\<close>, with what a missing key and an expired one give.\<close>

definition typed_read ::
    "(('z, 't) fyrodb \<Rightarrow> 'x option) \<Rightarrow> 'r option \<Rightarrow> env \<Rightarrow> key \<Rightarrow> ('x \<Rightarrow> 'r option) \<Rightarrow> ('z, 't) store \<Rightarrow> (err + 'r) option" where
  "typed_read proj dflt E k f st =
     (case entries st k of
        None \<Rightarrow> map_option Ok dflt
      | Some e \<Rightarrow>
          if is_expired E e then map_option Ok dflt
          else
            (case proj (sv_value e) of
               Some x \<Rightarrow> map_option Ok (f x)
             | None \<Rightarrow> Some (Err ''WRONGTYPE'')))"

text \<open>
  A listing written into the reply buffer.  The closure truncates the buffer to where the reply starts before it writes, so
  that it can run again; the listings differ in the room they reserve, the length they announce for an element and what
  they write of it.
\<close>

definition typed_to_buf ::
    "(('z, 't) fyrodb \<Rightarrow> 'x option) \<Rightarrow> ('x \<Rightarrow> nat) \<Rightarrow> ('x \<Rightarrow> 'e list option) \<Rightarrow> nat \<Rightarrow> nat
       \<Rightarrow> (outbuf \<Rightarrow> 'e \<Rightarrow> outbuf option) \<Rightarrow> env \<Rightarrow> key \<Rightarrow> outbuf \<Rightarrow> ('z, 't) store
       \<Rightarrow> ((err + nat) \<times> outbuf) option" where
  "typed_to_buf proj len iter room per w E k out st =
     (let start_len = ob_len out in
      case entries st k of
        None \<Rightarrow> do { out1 \<leftarrow> write_array_header (ob_truncate out start_len) 0; Some (Ok 0, out1) }
      | Some val \<Rightarrow>
          (let out0 = ob_truncate out start_len in
           if is_expired E val then do { out1 \<leftarrow> write_array_header out0 0; Some (Ok 0, out1) }
           else
             (case proj (sv_value val) of
                Some x \<Rightarrow> do {
                  out1 \<leftarrow> write_array_header (ob_reserve out0 (len x * room)) (len x * per);
                  es \<leftarrow> iter x;
                  out2 \<leftarrow> write_each w out1 es;
                  Some (Ok (len x), out2) }
              | None \<Rightarrow> Some (Err ''WRONGTYPE'', out0))))"

abbreviation reply_ok :: "('r \<times> 'x) option \<Rightarrow> ((err + 'r) \<times> 'x) option" where
  "reply_ok \<equiv> map_option (\<lambda>(r, x). (Ok r, x))"

section \<open>Replying with a stored string\<close>

text \<open>\<^verbatim>\<open>write_resp\<close> of a string as the constructors leave it: inline and padded with zeros, or boxed.\<close>

definition write_str :: "outbuf \<Rightarrow> bytes \<Rightarrow> outbuf option" where
  "write_str out bs = do { (s, h) \<leftarrow> ss_from_slice 8 bs Map.empty; ss_write_resp s h out }"

text \<open>A string that \<^verbatim>\<open>write_resp\<close> renders well.\<close>

definition renders :: "bytes \<Rightarrow> bool" where
  "renders s \<longleftrightarrow> length s < 2 ^ 56 \<and> length s \<noteq> 9"

section \<open>What a client sees\<close>

datatype 'a view = VMissing | VWrong | VHas 'a

definition tview :: "(('z, 't) fyrodb \<Rightarrow> 'x option) \<Rightarrow> ('x \<Rightarrow> 'a) \<Rightarrow> env \<Rightarrow> key \<Rightarrow> ('z, 't) store \<Rightarrow> 'a view" where
  "tview proj ab E k st =
     (case live_at E k st of
        None \<Rightarrow> VMissing
      | Some v \<Rightarrow> (case proj (sv_value v) of None \<Rightarrow> VWrong | Some x \<Rightarrow> VHas (ab x)))"

definition tafter ::
    "(('z, 't) fyrodb \<Rightarrow> 'x option) \<Rightarrow> ('x \<Rightarrow> 'a) \<Rightarrow> env \<Rightarrow> key \<Rightarrow> 'a view \<Rightarrow> ('z, 't) store \<Rightarrow> ('z, 't) store \<Rightarrow> bool" where
  "tafter proj ab E k v st st' \<longleftrightarrow> store_ok st' \<and> tview proj ab E k st' = v
     \<and> (\<forall>j. j \<noteq> k \<longrightarrow> entries st' j = entries st j)
     \<and> st_blocking st' = st_blocking st \<and> st_ttl st' = st_ttl st \<and> st_woken st' = st_woken st"

text \<open>A store with a single key, for concrete instances.\<close>

definition one_key :: "('z, 't) fyrodb \<Rightarrow> ('z, 't) store" where
  "one_key v = st_insert [107] (sv_of v) (store_new 1)"

text \<open>
  The container a command starts from, when a missing key counts as an empty one, and the reply and the view of a command
  that creates or changes a container.
\<close>

fun view_of :: "'a \<Rightarrow> 'a view \<Rightarrow> 'a" where
  "view_of d (VHas x) = x"
| "view_of d _ = d"

fun put_reply :: "'a \<Rightarrow> ('a \<Rightarrow> err + 'r) \<Rightarrow> 'a view \<Rightarrow> err + 'r" where
  "put_reply d g VWrong = Err ''WRONGTYPE''"
| "put_reply d g v = g (view_of d v)"

fun put_view :: "'a \<Rightarrow> ('a \<Rightarrow> 'a) \<Rightarrow> 'a view \<Rightarrow> 'a view" where
  "put_view d g VWrong = VWrong"
| "put_view d g v = VHas (g (view_of d v))"

text \<open>The same for a command that only changes one.\<close>

fun write_view :: "('a \<Rightarrow> 'a) \<Rightarrow> 'a view \<Rightarrow> 'a view" where
  "write_view g (VHas x) = VHas (g x)"
| "write_view g v = v"

lemma tview_missing: "entries st k = None \<Longrightarrow> tview proj ab E k st = VMissing"
  by (simp add: tview_def live_at_def)

lemma tview_other: "tafter proj ab E k v st st' \<Longrightarrow> j \<noteq> k \<Longrightarrow> tview proj ab E j st' = tview proj ab E j st"
  by (simp add: tafter_def tview_def live_at_def)

lemma tafter_refl: "store_ok st \<Longrightarrow> tafter proj ab E k (tview proj ab E k st) st st"
  by (simp add: tafter_def)

lemma tafter_same:
  assumes "store_ok st" "changes st k (entries st k) st'"
  shows "tafter proj ab E k (tview proj ab E k st) st st'"
proof -
  have "store_ok st'" using changes_ok [OF assms(2,1)] assms(1) by (auto simp: store_ok_def)
  with assms show ?thesis by (auto simp: tafter_def tview_def live_at_def changes_def)
qed

lemma emits_write_str: "length bs < 2 ^ 56 \<Longrightarrow> length bs \<noteq> 9 \<Longrightarrow> emits (\<lambda>out. write_str out bs) (resp_bulk bs)"
  unfolding emits_def
proof (intro allI impI)
  fix out assume a: "length bs < 2 ^ 56" "length bs \<noteq> 9" "ob_ok out"
  obtain s h where s: "ss_from_slice 8 bs Map.empty = Some (s, h)" "ss_holds h s bs"
    using ss_from_slice_holds [OF a(1), of 8 Map.empty] by (auto simp: fresh_def)
  have "\<exists>out'. ss_write_resp s h out = Some out' \<and> ob_ok out' \<and> ob_bytes out' = ob_bytes out @ resp_bulk bs"
    by (rule ss_write_resp_emits [OF s(2) a(3)]) (use a in auto)
  then show "\<exists>out'. write_str out bs = Some out' \<and> ob_ok out' \<and> ob_bytes out' = ob_bytes out @ resp_bulk bs"
    using s(1) by (simp add: write_str_def)
qed

lemma emits_renders: "renders s \<Longrightarrow> emits (\<lambda>out. write_str out s) (resp_bulk s)"
  by (simp add: renders_def emits_write_str)

lemma emits_headed:
  assumes "n < 2 ^ 64" "\<forall>x\<in>set xs. emits (\<lambda>out. w out x) (e x)"
  shows "emits (\<lambda>out. do { out1 \<leftarrow> write_array_header (ob_reserve out m) n; write_each w out1 xs })
     (resp_array_header n @ concat (map e xs))"
  using emits_seq [OF emits_reserve [OF emits_write_array_header [OF assms(1)]] emits_write_each [OF assms(2)]] .

lemma one_key_ok [simp]: "value_ok v \<Longrightarrow> store_ok (one_key v)"
  unfolding one_key_def by (rule changes_ok [OF st_insert_changes]) (auto simp: sv_of_def)

lemma entries_one_key [simp]: "entries (one_key v) = [[107] \<mapsto> sv_of v]"
  using st_insert_changes [where k = "[107]" and v = "sv_of v" and st = "store_new 1"]
  by (auto simp: one_key_def changes_def store_new_def)

lemma tview_one_key [simp]:
  "tview proj ab E [107] (one_key v) = (case proj v of None \<Rightarrow> VWrong | Some x \<Rightarrow> VHas (ab x))"
  by (simp add: tview_def live_at_def) (simp add: sv_of_def)

section \<open>The rules\<close>

locale typed_value =
  fixes proj :: "('z, 't) fyrodb \<Rightarrow> 'x option"
    and mk :: "'x \<Rightarrow> ('z, 't) fyrodb"
    and I :: "'x \<Rightarrow> bool"
    and ab :: "'x \<Rightarrow> 'a"
  assumes proj_law: "proj v = Some x \<longleftrightarrow> v = mk x"
    and ok_law: "value_ok (mk x) \<longleftrightarrow> I x"
begin

lemma viewE:
  assumes "store_ok st"
  obtains (missing) "tview proj ab E k st = VMissing" "live_at E k st = None"
  | (other) v where "tview proj ab E k st = VWrong" "entries st k = Some v" "\<not> is_expired E v" "proj (sv_value v) = None"
  | (has) v x where "tview proj ab E k st = VHas (ab x)" "entries st k = Some v" "\<not> is_expired E v"
      "proj (sv_value v) = Some x" "I x"
proof (cases "live_at E k st")
  case None
  then show ?thesis by (intro missing) (auto simp: tview_def)
next
  case (Some v)
  then have v: "entries st k = Some v" "\<not> is_expired E v" by (auto simp: live_at_Some)
  show ?thesis
  proof (cases "proj (sv_value v)")
    case None
    with v Some show ?thesis by (intro other) (auto simp: tview_def)
  next
    case (Some x)
    then have "sv_value v = mk x" by (simp add: proj_law)
    with store_okD [OF assms v(1)] ok_law have "I x" by simp
    with Some v show ?thesis by (intro has) (auto simp: tview_def live_at_def)
  qed
qed

lemma after_changes:
  assumes "store_ok st" "changes st k (Some v) st'" "\<not> is_expired E v" "sv_value v = mk x" "I x"
  shows "tafter proj ab E k (VHas (ab x)) st st'"
proof -
  have "store_ok st'" using changes_ok [OF assms(2,1)] assms(4,5) ok_law by simp
  moreover have "proj (mk x) = Some x" by (simp add: proj_law)
  ultimately show ?thesis using assms by (auto simp: tafter_def tview_def live_at_changes changes_def)
qed

lemma update_has:
  assumes "store_ok st" "entries st k = Some v" "f v = Some (r, v')" "\<not> is_expired E v'" "sv_value v' = mk x" "I x"
  shows "\<exists>st'. st_update_with k f st = Some (Some r, st') \<and> tafter proj ab E k (VHas (ab x)) st st'"
  using st_update_with_Some [where f = f, OF assms(2,3)] after_changes [OF assms(1) _ assms(4-6)] by blast

lemma update_same:
  assumes "store_ok st" "entries st k = Some v" "f v = Some (r, v)"
  shows "\<exists>st'. st_update_with k f st = Some (Some r, st') \<and> tafter proj ab E k (tview proj ab E k st) st st'"
  using st_update_with_Some [where f = f, OF assms(2,3)] tafter_same [OF assms(1), of k _ proj ab E] assms(2) by auto

text \<open>What the closure of a create-or-change command does, on the entry of the key.\<close>

lemma closure_rel:
  assumes ok: "store_ok st" and e: "entries st k = Some v"
    and fr: "\<exists>a x. fr = Some (a, x) \<and> I x \<and> N a (ab x)"
    and f: "\<And>x. I x \<Longrightarrow> tview proj ab E k st = VHas (ab x) \<Longrightarrow> \<exists>r x'. f x = Some (r, x') \<and> I x' \<and> R (ab x) r (ab x')"
  shows "\<exists>r w st'. st_update_with k (typed_closure proj mk E fr f) st = Some (Some r, st')
     \<and> tafter proj ab E k w st st'
     \<and> (case tview proj ab E k st of
          VMissing \<Rightarrow> (\<exists>a y. r = Ok a \<and> w = VHas y \<and> N a y)
        | VWrong \<Rightarrow> r = Err ''WRONGTYPE'' \<and> w = VWrong
        | VHas x \<Rightarrow> (\<exists>y. w = VHas y \<and> R x r y))"
proof (rule viewE [OF ok, of E k])
  let ?f = "typed_closure proj mk E fr f"
  assume m: "tview proj ab E k st = VMissing" "live_at E k st = None"
  from fr obtain a x where x: "fr = Some (a, x)" "I x" "N a (ab x)" by blast
  have "is_expired E v" using m e by (auto simp: live_at_None)
  then have "?f v = Some (Ok a, \<lparr>sv_value = mk x, sv_expires_ms = 0\<rparr>)" using x by (simp add: typed_closure_def)
  from update_has [where f = ?f, OF ok e this _ _ x(2)] x(3) m show ?thesis by (fastforce simp: is_expired_def)
next
  let ?f = "typed_closure proj mk E fr f"
  fix v' assume v: "tview proj ab E k st = VWrong" "entries st k = Some v'" "\<not> is_expired E v'" "proj (sv_value v') = None"
  then have "?f v = Some (Err ''WRONGTYPE'', v)" using e by (simp add: typed_closure_def)
  from update_same [where f = ?f, OF ok e this, of E] v show ?thesis by auto
next
  let ?f = "typed_closure proj mk E fr f"
  fix v' x assume v: "tview proj ab E k st = VHas (ab x)" "entries st k = Some v'" "\<not> is_expired E v'"
    "proj (sv_value v') = Some x" "I x"
  from f [OF v(5,1)] obtain r x' where x': "f x = Some (r, x')" "I x'" "R (ab x) r (ab x')" by blast
  have "?f v = Some (r, v\<lparr>sv_value := mk x'\<rparr>)" using v x' e by (simp add: typed_closure_def)
  from update_has [where f = ?f, OF ok e this _ _ x'(2), of E] x' v e show ?thesis by (fastforce simp: is_expired_def)
qed

lemma put_rel:
  assumes ok: "store_ok st"
    and fr: "\<exists>a x. fr = Some (a, x) \<and> I x \<and> N a (ab x)"
    and f: "\<And>x. I x \<Longrightarrow> tview proj ab E k st = VHas (ab x) \<Longrightarrow> \<exists>r x'. f x = Some (r, x') \<and> I x' \<and> R (ab x) r (ab x')"
  shows "\<exists>r w st'. typed_put proj mk E k fr f st = Some (r, st') \<and> tafter proj ab E k w st st'
     \<and> (case tview proj ab E k st of
          VMissing \<Rightarrow> (\<exists>a y. r = Ok a \<and> w = VHas y \<and> N a y)
        | VWrong \<Rightarrow> r = Err ''WRONGTYPE'' \<and> w = VWrong
        | VHas x \<Rightarrow> (\<exists>y. w = VHas y \<and> R x r y))"
proof (cases "entries st k")
  case None
  from fr obtain a x where x: "fr = Some (a, x)" "I x" "N a (ab x)" by blast
  have "tafter proj ab E k (VHas (ab x)) st (st_insert k (sv_of (mk x)) st)"
    by (rule after_changes [OF ok st_insert_changes]) (use x in \<open>simp_all add: sv_of_def is_expired_def\<close>)
  with None x show ?thesis by (auto simp: typed_put_def st_update_with_None tview_missing)
next
  case (Some v)
  from closure_rel [where fr = fr and f = f and N = N and R = R, OF ok Some fr f] show ?thesis by (fastforce simp: typed_put_def)
qed

lemma put_loop_rel:
  assumes ok: "store_ok st"
    and fr: "\<exists>a x. fr = Some (a, x) \<and> I x \<and> N a (ab x)"
    and f: "\<And>x. I x \<Longrightarrow> tview proj ab E k st = VHas (ab x) \<Longrightarrow> \<exists>r x'. f x = Some (r, x') \<and> I x' \<and> R (ab x) r (ab x')"
  shows "\<exists>r w st'. typed_put_loop proj mk E k fr f st = Some (r, st') \<and> tafter proj ab E k w st st'
     \<and> (case tview proj ab E k st of
          VMissing \<Rightarrow> (\<exists>a y. r = Ok a \<and> w = VHas y \<and> N a y)
        | VWrong \<Rightarrow> r = Err ''WRONGTYPE'' \<and> w = VWrong
        | VHas x \<Rightarrow> (\<exists>y. w = VHas y \<and> R x r y))"
proof (cases "entries st k")
  case None
  from fr obtain a x where x: "fr = Some (a, x)" "I x" "N a (ab x)" by blast
  from st_insert_if_absent_new [OF None, of "sv_of (mk x)"] obtain st' where
    st': "st_insert_if_absent k (sv_of (mk x)) st = (True, st')" "changes st k (Some (sv_of (mk x))) st'" by blast
  have "tafter proj ab E k (VHas (ab x)) st st'"
    by (rule after_changes [OF ok st'(2)]) (use x in \<open>simp_all add: sv_of_def is_expired_def\<close>)
  with None x st' show ?thesis
    by (subst typed_put_loop.simps) (auto simp: st_update_with_None tview_missing)
next
  case (Some v)
  from closure_rel [where fr = fr and f = f and N = N and R = R, OF ok Some fr f] show ?thesis by (subst typed_put_loop.simps) fastforce
qed

lemma write_rel:
  assumes ok: "store_ok st"
    and f: "\<And>x. I x \<Longrightarrow> tview proj ab E k st = VHas (ab x) \<Longrightarrow> \<exists>r x'. f x = Some (r, x') \<and> I x' \<and> R (ab x) r (ab x')"
  shows "\<exists>r w st'. typed_write proj mk d E k f st = Some (r, st') \<and> tafter proj ab E k w st st'
     \<and> (case tview proj ab E k st of
          VMissing \<Rightarrow> r = Ok d \<and> w = VMissing
        | VWrong \<Rightarrow> r = Err ''WRONGTYPE'' \<and> w = VWrong
        | VHas x \<Rightarrow> (\<exists>y. w = VHas y \<and> R x r y))"
proof -
  let ?f = "\<lambda>val. if is_expired E val then Some (Ok d, val) else
      (case proj (sv_value val) of Some x \<Rightarrow> do { (r, x') \<leftarrow> f x; Some (r, val\<lparr>sv_value := mk x'\<rparr>) }
       | None \<Rightarrow> Some (Err ''WRONGTYPE'', val))"
  have w: "typed_write proj mk d E k f st = do { (result, st1) \<leftarrow> st_update_with k ?f st;
      Some (case result of Some r \<Rightarrow> r | None \<Rightarrow> Ok d, st1) }" by (simp add: typed_write_def)
  show ?thesis
  proof (rule viewE [OF ok, of E k])
    assume m: "tview proj ab E k st = VMissing" "live_at E k st = None"
    show ?thesis
    proof (cases "entries st k")
      case None
      with m ok show ?thesis using tafter_refl [OF ok, of proj ab E k] by (simp add: w st_update_with_None)
    next
      case (Some v)
      with m have "?f v = Some (Ok d, v)" by (simp add: live_at_None)
      from update_same [where f = ?f, OF ok Some this, of E] m show ?thesis by (auto simp: w)
    qed
  next
    fix v assume v: "tview proj ab E k st = VWrong" "entries st k = Some v" "\<not> is_expired E v" "proj (sv_value v) = None"
    then have "?f v = Some (Err ''WRONGTYPE'', v)" by simp
    from update_same [where f = ?f, OF ok v(2) this, of E] v show ?thesis by (auto simp: w)
  next
    fix v x assume v: "tview proj ab E k st = VHas (ab x)" "entries st k = Some v" "\<not> is_expired E v"
      "proj (sv_value v) = Some x" "I x"
    from f [OF v(5,1)] obtain r x' where x': "f x = Some (r, x')" "I x'" "R (ab x) r (ab x')" by blast
    have "?f v = Some (r, v\<lparr>sv_value := mk x'\<rparr>)" using v x' by simp
    from update_has [where f = ?f, OF ok v(2) this _ _ x'(2), of E] x' v show ?thesis
      by (fastforce simp: w is_expired_def)
  qed
qed

lemma put_spec:
  assumes ok: "store_ok st"
    and fr: "\<exists>a x. fr = Some (a, x) \<and> I x \<and> g d = Ok a \<and> ab x = u d"
    and f: "\<And>x. I x \<Longrightarrow> \<exists>x'. f x = Some (g (ab x), x') \<and> I x' \<and> ab x' = u (ab x)"
  shows "\<exists>st'. typed_put proj mk E k fr f st = Some (put_reply d g (tview proj ab E k st), st')
     \<and> tafter proj ab E k (put_view d u (tview proj ab E k st)) st st'"
proof -
  from put_rel [where fr = fr and f = f and E = E and k = k and N = "\<lambda>a m. g d = Ok a \<and> m = u d"
      and R = "\<lambda>m r m'. r = g m \<and> m' = u m", OF ok fr] f
  have "\<exists>r w st'. typed_put proj mk E k fr f st = Some (r, st') \<and> tafter proj ab E k w st st'
     \<and> (case tview proj ab E k st of
          VMissing \<Rightarrow> (\<exists>a y. r = Ok a \<and> w = VHas y \<and> g d = Ok a \<and> y = u d)
        | VWrong \<Rightarrow> r = Err ''WRONGTYPE'' \<and> w = VWrong
        | VHas x \<Rightarrow> (\<exists>y. w = VHas y \<and> r = g x \<and> y = u x))" by blast
  then show ?thesis by (cases "tview proj ab E k st") auto
qed

lemma put_loop_spec:
  assumes ok: "store_ok st"
    and fr: "\<exists>a x. fr = Some (a, x) \<and> I x \<and> g d = Ok a \<and> ab x = u d"
    and f: "\<And>x. I x \<Longrightarrow> \<exists>x'. f x = Some (g (ab x), x') \<and> I x' \<and> ab x' = u (ab x)"
  shows "\<exists>st'. typed_put_loop proj mk E k fr f st = Some (put_reply d g (tview proj ab E k st), st')
     \<and> tafter proj ab E k (put_view d u (tview proj ab E k st)) st st'"
proof -
  from put_loop_rel [where fr = fr and f = f and E = E and k = k and N = "\<lambda>a m. g d = Ok a \<and> m = u d"
      and R = "\<lambda>m r m'. r = g m \<and> m' = u m", OF ok fr] f
  have "\<exists>r w st'. typed_put_loop proj mk E k fr f st = Some (r, st') \<and> tafter proj ab E k w st st'
     \<and> (case tview proj ab E k st of
          VMissing \<Rightarrow> (\<exists>a y. r = Ok a \<and> w = VHas y \<and> g d = Ok a \<and> y = u d)
        | VWrong \<Rightarrow> r = Err ''WRONGTYPE'' \<and> w = VWrong
        | VHas x \<Rightarrow> (\<exists>y. w = VHas y \<and> r = g x \<and> y = u x))" by blast
  then show ?thesis by (cases "tview proj ab E k st") auto
qed

lemma write_spec:
  assumes ok: "store_ok st" and d: "g d = Ok z"
    and f: "\<And>x. I x \<Longrightarrow> \<exists>x'. f x = Some (g (ab x), x') \<and> I x' \<and> ab x' = u (ab x)"
  shows "\<exists>st'. typed_write proj mk z E k f st = Some (put_reply d g (tview proj ab E k st), st')
     \<and> tafter proj ab E k (write_view u (tview proj ab E k st)) st st'"
proof -
  from write_rel [where f = f and E = E and k = k and d = z and R = "\<lambda>m r m'. r = g m \<and> m' = u m", OF ok] f
  have "\<exists>r w st'. typed_write proj mk z E k f st = Some (r, st') \<and> tafter proj ab E k w st st'
     \<and> (case tview proj ab E k st of
          VMissing \<Rightarrow> r = Ok z \<and> w = VMissing
        | VWrong \<Rightarrow> r = Err ''WRONGTYPE'' \<and> w = VWrong
        | VHas x \<Rightarrow> (\<exists>y. w = VHas y \<and> r = g x \<and> y = u x))" by blast
  then show ?thesis using d by (cases "tview proj ab E k st") auto
qed

lemma read_spec:
  assumes ok: "store_ok st" and d: "g e = z"
    and f: "\<And>x. I x \<Longrightarrow> tview proj ab E k st = VHas (ab x) \<Longrightarrow> f x = Some (g (ab x))"
  shows "typed_read proj (Some z) E k f st = Some (put_reply e (\<lambda>x. Ok (g x)) (tview proj ab E k st))"
  by (rule viewE [OF ok, of E k])
    (auto simp: typed_read_def live_at_None f d split: option.split)

lemma to_buf_spec:
  assumes ok: "store_ok st" "ob_ok out"
    and it: "\<And>x. I x \<Longrightarrow> len x = length (el (ab x)) \<and> iter x = Some (el (ab x))" and d: "el d = []"
    and n: "length (el (view_of d (tview proj ab E k st))) * per < 2 ^ 64"
    and w: "\<forall>x\<in>set (el (view_of d (tview proj ab E k st))). emits (\<lambda>out. w out x) (e x)"
  shows "\<exists>out'. typed_to_buf proj len iter room per w E k out st =
      Some (if tview proj ab E k st = VWrong then Err ''WRONGTYPE'' else Ok (length (el (view_of d (tview proj ab E k st)))), out')
    \<and> ob_bytes out' = ob_bytes out @
        (if tview proj ab E k st = VWrong then []
         else resp_array_header (length (el (view_of d (tview proj ab E k st))) * per)
           @ concat (map e (el (view_of d (tview proj ab E k st)))))"
proof -
  obtain out1 where out1: "write_array_header out 0 = Some out1" "ob_bytes out1 = ob_bytes out @ resp_array_header 0"
    using emitsE [OF emits_write_array_header [of 0] ok(2)] by auto
  show ?thesis
  proof (rule viewE [OF ok(1), of E k])
    assume "tview proj ab E k st = VMissing" "live_at E k st = None"
    with d out1 show ?thesis by (auto simp: typed_to_buf_def Let_def ob_truncate_self live_at_None split: option.split)
  next
    fix v assume "tview proj ab E k st = VWrong" "entries st k = Some v" "\<not> is_expired E v" "proj (sv_value v) = None"
    then show ?thesis by (auto simp: typed_to_buf_def Let_def ob_truncate_self)
  next
    fix v x assume v: "tview proj ab E k st = VHas (ab x)" "entries st k = Some v" "\<not> is_expired E v"
      "proj (sv_value v) = Some x" "I x"
    have e: "\<forall>y\<in>set (el (ab x)). emits (\<lambda>out. w out y) (e y)" using w v(1) by simp
    obtain out2 where "write_array_header (ob_reserve out (len x * room)) (len x * per)
        \<bind> (\<lambda>out1. write_each w out1 (el (ab x))) = Some out2"
      "ob_bytes out2 = ob_bytes out @ resp_array_header (len x * per) @ concat (map e (el (ab x)))"
      using emitsE [OF emits_headed [OF _ e] ok(2), of "len x * per" "len x * room"] n v(1) it [OF v(5)] by auto
    with v it [OF v(5)] show ?thesis by (auto simp: typed_to_buf_def Let_def ob_truncate_self bind_eq_Some_conv)
  qed
qed

lemma read_rel:
  assumes ok: "store_ok st" and f: "\<And>x. I x \<Longrightarrow> tview proj ab E k st = VHas (ab x) \<Longrightarrow> f x = Some (g (ab x))"
  shows "typed_read proj (Some d) E k f st = Some (case tview proj ab E k st of
        VMissing \<Rightarrow> Ok d | VWrong \<Rightarrow> Err ''WRONGTYPE'' | VHas x \<Rightarrow> Ok (g x))"
  by (rule viewE [OF ok, of E k])
    (auto simp: typed_read_def live_at_None f split: option.split)

end

interpretation hashes: typed_value as_hash FHash hash_inv hash_abs
proof unfold_locales
  show "as_hash v = Some x \<longleftrightarrow> v = FHash x" for v :: "('z, 't) fyrodb" and x by (cases v) auto
qed simp

interpretation setvals: typed_value as_set FSet set_inv set_abs
proof unfold_locales
  show "as_set v = Some x \<longleftrightarrow> v = FSet x" for v :: "('z, 't) fyrodb" and x by (cases v) auto
qed simp

end
