(* ===== verification/HashCmds.thy ===== *)
theory HashCmds
  imports TypedCmd
begin

text \<open>
  The hash commands of \<^verbatim>\<open>src/storage/hash.rs\<close>, each one translated branch by branch on top of the shapes of
  \<^verbatim>\<open>TypedCmd\<close>: the HSET family, HSETNX, HGET, HMGET, HGETALL, HDEL, HEXISTS, HLEN, HKEYS, HVALS, HINCRBY and
  HINCRBYFLOAT, with the variants that write their reply straight into the output buffer.
\<close>

section \<open>Writing commands\<close>

fun insert_flags ::
  "('h \<Rightarrow> 'k \<Rightarrow> 'v \<Rightarrow> (bool \<times> 'h) option) \<Rightarrow> ('k \<times> 'v) list \<Rightarrow> 'h \<Rightarrow> (bool list \<times> 'h) option" where
  "insert_flags ins [] h = Some ([], h)"
| "insert_flags ins ((k, v) # kvs) h = do {
     (b, h1) \<leftarrow> ins h k v;
     (bs, h2) \<leftarrow> insert_flags ins kvs h1;
     Some (b # bs, h2) }"

definition hset_added_flags :: "env \<Rightarrow> key \<Rightarrow> (bytes \<times> bytes) list \<Rightarrow> ('z, 't) store \<Rightarrow> ('z, 't, bool list) outcome" where
  "hset_added_flags E k fvs =
     typed_put as_hash FHash E k (insert_flags hash_insert_ref fvs hash_new)
       (\<lambda>h. reply_ok (insert_flags hash_insert_ref fvs h))"

definition hset_bytes_raw :: "env \<Rightarrow> key \<Rightarrow> (bytes \<times> bytes) list \<Rightarrow> ('z, 't) store \<Rightarrow> ('z, 't, nat) outcome" where
  "hset_bytes_raw E k fvs st =
     (if list_ex (\<lambda>(f, _). \<not> utf8_valid f) fvs then Some (Err ''invalid field name encoding'', st)
      else
        typed_put as_hash FHash E k
          (insert_count hash_insert_bytes fvs (hash_with_capacity (length fvs)))
          (\<lambda>h. reply_ok (insert_count hash_insert_bytes fvs h)) st)"

definition hset_bytes :: "env \<Rightarrow> key \<Rightarrow> (bytes \<times> bytes) list \<Rightarrow> ('z, 't) store \<Rightarrow> ('z, 't, nat) outcome" where
  "hset_bytes E k fvs =
     typed_put as_hash FHash E k
       (do {
          (_, h) \<leftarrow> insert_count hash_insert_bytes fvs (hash_with_capacity (length fvs));
          Some (length fvs, h) })
       (\<lambda>h. reply_ok (insert_count hash_insert_bytes fvs h))"

definition hset_bytes_added_flags ::
    "env \<Rightarrow> key \<Rightarrow> (bytes \<times> bytes) list \<Rightarrow> ('z, 't) store \<Rightarrow> ('z, 't, bool list) outcome" where
  "hset_bytes_added_flags E k fvs =
     typed_put as_hash FHash E k (insert_flags hash_insert_bytes fvs hash_new)
       (\<lambda>h. reply_ok (insert_flags hash_insert_bytes fvs h))"

text \<open>\<^verbatim>\<open>as_chunks::<2>\<close> leaves out an odd last element, as \<^verbatim>\<open>pairs\<close> does.\<close>

definition hset_flat :: "env \<Rightarrow> key \<Rightarrow> bytes list \<Rightarrow> ('z, 't) store \<Rightarrow> ('z, 't, nat) outcome" where
  "hset_flat E k flat =
     (let chunks = pairs flat in
      typed_put as_hash FHash E k
        (insert_count hash_insert_ref chunks (hash_with_capacity (length chunks)))
        (\<lambda>h. reply_ok (insert_count hash_insert_ref chunks h)))"

definition hset :: "env \<Rightarrow> key \<Rightarrow> (bytes \<times> bytes) list \<Rightarrow> ('z, 't) store \<Rightarrow> ('z, 't, nat) outcome" where
  "hset E k fvs =
     typed_put as_hash FHash E k
       (insert_count hash_insert_ref fvs (hash_with_capacity (length fvs)))
       (\<lambda>h. reply_ok (insert_count hash_insert_ref fvs h))"

definition hsetnx :: "env \<Rightarrow> key \<Rightarrow> bytes \<Rightarrow> bytes \<Rightarrow> ('z, 't) store \<Rightarrow> ('z, 't, bool) outcome" where
  "hsetnx E k field val =
     typed_put as_hash FHash E k
       (do { (_, h) \<leftarrow> hash_insert_ref (hash_with_capacity 1) field val; Some (True, h) })
       (\<lambda>h. do {
          present \<leftarrow> hash_contains_key h field;
          if present then Some (Ok False, h)
          else do { (_, h1) \<leftarrow> hash_insert_ref h field val; Some (Ok True, h1) } })"

definition hdel :: "env \<Rightarrow> key \<Rightarrow> bytes list \<Rightarrow> ('z, 't) store \<Rightarrow> ('z, 't, nat) outcome" where
  "hdel E k fvs = typed_write as_hash FHash 0 E k (\<lambda>h. reply_ok (remove_count hash_remove fvs h))"

section \<open>Reading commands\<close>

definition hget :: "env \<Rightarrow> key \<Rightarrow> bytes \<Rightarrow> ('z, 't) store \<Rightarrow> (err + bytes option) option" where
  "hget E k field = typed_read as_hash (Some None) E k (\<lambda>h. hash_get h field)"

definition hmget :: "env \<Rightarrow> key \<Rightarrow> bytes list \<Rightarrow> ('z, 't) store \<Rightarrow> (err + bytes option list) option" where
  "hmget E k fvs =
     typed_read as_hash (Some (replicate (length fvs) None)) E k (\<lambda>h. those (map (hash_get h) fvs))"

definition hgetall :: "env \<Rightarrow> key \<Rightarrow> ('z, 't) store \<Rightarrow> (err + (bytes \<times> bytes) list) option" where
  "hgetall E k = typed_read as_hash (Some []) E k hash_iter"

definition hexists :: "env \<Rightarrow> key \<Rightarrow> bytes \<Rightarrow> ('z, 't) store \<Rightarrow> (err + bool) option" where
  "hexists E k field = typed_read as_hash (Some False) E k (\<lambda>h. hash_contains_key h field)"

definition hlen :: "env \<Rightarrow> key \<Rightarrow> ('z, 't) store \<Rightarrow> (err + nat) option" where
  "hlen E k = typed_read as_hash (Some 0) E k (\<lambda>h. Some (hash_len h))"

definition hkeys :: "env \<Rightarrow> key \<Rightarrow> ('z, 't) store \<Rightarrow> (err + bytes list) option" where
  "hkeys E k = typed_read as_hash (Some []) E k (\<lambda>h. Some (hash_keys h))"

definition hvals :: "env \<Rightarrow> key \<Rightarrow> ('z, 't) store \<Rightarrow> (err + bytes list) option" where
  "hvals E k = typed_read as_hash (Some []) E k (\<lambda>h. Some (hash_values h))"

text \<open>
  The variants that write the reply: the value of the \<^verbatim>\<open>Result\<close> and the buffer.  The closure of a reading command truncates
  the buffer to where the reply starts before it writes, so that it can run again.
\<close>

definition hget_to_buf :: "env \<Rightarrow> key \<Rightarrow> bytes \<Rightarrow> outbuf \<Rightarrow> ('z, 't) store \<Rightarrow> ((err + bool) \<times> outbuf) option" where
  "hget_to_buf E k field out st =
     (case entries st k of
        None \<Rightarrow> Some (Ok False, out)
      | Some e \<Rightarrow>
          if is_expired E e then Some (Ok False, out)
          else
            (case as_hash (sv_value e) of
               Some h \<Rightarrow> do {
                 r \<leftarrow> hash_get h field;
                 (case r of
                    Some v \<Rightarrow> do { out1 \<leftarrow> write_str out v; Some (Ok True, out1) }
                  | None \<Rightarrow> Some (Ok False, out)) }
             | None \<Rightarrow> Some (Err ''WRONGTYPE'', out)))"

definition write_nils :: "outbuf \<Rightarrow> 'a list \<Rightarrow> outbuf option" where
  "write_nils out fvs = do {
     out1 \<leftarrow> write_array_header out (length fvs);
     write_each (\<lambda>o1 _. write_nil o1) out1 fvs }"

definition write_field :: "hash_inner \<Rightarrow> outbuf \<Rightarrow> bytes \<Rightarrow> outbuf option" where
  "write_field h out f = do {
     r \<leftarrow> hash_get h f;
     (case r of Some v \<Rightarrow> write_str out v | None \<Rightarrow> write_nil out) }"

definition hmget_to_buf :: "env \<Rightarrow> key \<Rightarrow> bytes list \<Rightarrow> outbuf \<Rightarrow> ('z, 't) store \<Rightarrow> ((err + unit) \<times> outbuf) option" where
  "hmget_to_buf E k fvs out st =
     (let start_len = ob_len out in
      case entries st k of
        None \<Rightarrow> do { out1 \<leftarrow> write_nils out fvs; Some (Ok (), out1) }
      | Some val \<Rightarrow>
          (let out0 = ob_truncate out start_len in
           if is_expired E val then do { out1 \<leftarrow> write_nils out0 fvs; Some (Ok (), out1) }
           else
             (case as_hash (sv_value val) of
                Some h \<Rightarrow> do {
                  out1 \<leftarrow> write_array_header (ob_reserve out0 (length fvs * 32)) (length fvs);
                  out2 \<leftarrow> write_each (write_field h) out1 fvs;
                  Some (Ok (), out2) }
              | None \<Rightarrow> Some (Err ''WRONGTYPE'', out0))))"

text \<open>HGETALL, HKEYS and HVALS differ in the room they reserve, the length they announce and what they write of an entry.\<close>

definition hgetall_to_buf :: "env \<Rightarrow> key \<Rightarrow> outbuf \<Rightarrow> ('z, 't) store \<Rightarrow> ((err + nat) \<times> outbuf) option" where
  "hgetall_to_buf = typed_to_buf as_hash hash_len hash_iter 32 2 (\<lambda>out (f, v). do { out1 \<leftarrow> write_str out f; write_str out1 v })"

definition hkeys_to_buf :: "env \<Rightarrow> key \<Rightarrow> outbuf \<Rightarrow> ('z, 't) store \<Rightarrow> ((err + nat) \<times> outbuf) option" where
  "hkeys_to_buf = typed_to_buf as_hash hash_len hash_iter 20 1 (\<lambda>out (f, _). write_str out f)"

definition hvals_to_buf :: "env \<Rightarrow> key \<Rightarrow> outbuf \<Rightarrow> ('z, 't) store \<Rightarrow> ((err + nat) \<times> outbuf) option" where
  "hvals_to_buf = typed_to_buf as_hash hash_len hash_iter 20 1 (\<lambda>out (_, v). write_str out v)"

section \<open>Counters\<close>

definition hincrby :: "env \<Rightarrow> key \<Rightarrow> bytes \<Rightarrow> int \<Rightarrow> ('z, 't) store \<Rightarrow> ('z, 't, int) outcome" where
  "hincrby E k field by =
     typed_put_loop as_hash FHash E k
       (do { s \<leftarrow> write_int_to (replicate 20 0) by; Some (by, HCompact [field, s]) })
       (\<lambda>h. do {
          r \<leftarrow> hash_get h field;
          (case parse_i64 (case r of Some v \<Rightarrow> v | None \<Rightarrow> ascii ''0'') of
             Some n \<Rightarrow>
               (case checked_add_i64 n by of
                  None \<Rightarrow> Some (Err ''increment or decrement would overflow'', h)
                | Some new \<Rightarrow> do {
                    rendered \<leftarrow> write_int_to (replicate 20 0) new;
                    (_, h1) \<leftarrow> hash_insert_ref h field rendered;
                    Some (Ok new, h1) })
           | None \<Rightarrow> Some (Err ''value is not an integer or out of range'', h)) })"

text \<open>
  The floating-point operations of HINCRBYFLOAT are parameters: the parser and the addition of \<^verbatim>\<open>f64\<close>, and
  the rendering \<^verbatim>\<open>format_float\<close>.
\<close>

record 'f float_ops =
  fl_parse :: "bytes \<Rightarrow> 'f option"
  fl_add :: "'f \<Rightarrow> 'f \<Rightarrow> 'f"
  fl_format :: "'f \<Rightarrow> bytes"

definition hincrbyfloat ::
    "'f float_ops \<Rightarrow> env \<Rightarrow> key \<Rightarrow> bytes \<Rightarrow> 'f \<Rightarrow> ('z, 't) store \<Rightarrow> ('z, 't, 'f) outcome" where
  "hincrbyfloat F E k field by =
     typed_put as_hash FHash E k
       (Some (by, HCompact [field, fl_format F by]))
       (\<lambda>h. do {
          r \<leftarrow> hash_get h field;
          (case fl_parse F (case r of Some v \<Rightarrow> v | None \<Rightarrow> ascii ''0'') of
             Some n \<Rightarrow> do {
               (_, h1) \<leftarrow> hash_insert_ref h field (fl_format F (fl_add F n by));
               Some (Ok (fl_add F n by), h1) }
           | None \<Rightarrow> Some (Err ''value is not a valid float'', h)) })"

section \<open>What a client sees of a hash\<close>

abbreviation hash_view :: "env \<Rightarrow> key \<Rightarrow> ('z, 't) store \<Rightarrow> (bytes \<rightharpoonup> bytes) view" where
  "hash_view \<equiv> tview as_hash hash_abs"

abbreviation hash_after ::
    "env \<Rightarrow> key \<Rightarrow> (bytes \<rightharpoonup> bytes) view \<Rightarrow> ('z, 't) store \<Rightarrow> ('z, 't) store \<Rightarrow> bool" where
  "hash_after \<equiv> tafter as_hash hash_abs"

abbreviation view_map :: "(bytes \<rightharpoonup> bytes) view \<Rightarrow> bytes \<rightharpoonup> bytes" where
  "view_map \<equiv> view_of Map.empty"

text \<open>Whether each insertion of a sequence added its field.\<close>

fun added_flags :: "(bytes \<rightharpoonup> bytes) \<Rightarrow> (bytes \<times> bytes) list \<Rightarrow> bool list" where
  "added_flags m [] = []"
| "added_flags m ((f, v) # fvs) = (m f = None) # added_flags (m(f \<mapsto> v)) fvs"

text \<open>The order in which a hash is listed.\<close>

abbreviation hash_listing :: "env \<Rightarrow> key \<Rightarrow> ('z, 't) store \<Rightarrow> (bytes \<times> bytes) list view" where
  "hash_listing \<equiv> tview as_hash hash_pairs"

text \<open>What an increment replies: the error of a value that is not an integer, of an overflow, or the sum.\<close>

definition incr_reply :: "bytes option \<Rightarrow> int \<Rightarrow> err + int" where
  "incr_reply cur by =
     (case (case cur of None \<Rightarrow> Some 0 | Some s \<Rightarrow> parse_i64 s) of
        None \<Rightarrow> Err ''value is not an integer or out of range''
      | Some n \<Rightarrow> if in_i64 (n + by) then Ok (n + by) else Err ''increment or decrement would overflow'')"

lemma insert_flags_law:
  "hash_inv h \<Longrightarrow> \<exists>h'. insert_flags hash_insert_field fvs h = Some (added_flags (hash_abs h) fvs, h') \<and> hash_inv h'
     \<and> hash_abs h' = hash_abs h ++ map_of (rev fvs)"
proof (induction "hash_abs h" fvs arbitrary: h rule: added_flags.induct)
  case (2 f v fvs)
  obtain h1 where h1: "hash_insert_field h f v = Some (hash_abs h f = None, h1)" "hash_inv h1"
    "hash_abs h1 = (hash_abs h)(f \<mapsto> v)" using hash_insert_field_law [OF 2(2)] by blast
  from 2(1) [OF h1(3) [symmetric] h1(2)] h1 show ?case by auto
qed simp

lemmas hash_insert_defs = hash_insert_ref_def [abs_def] hash_insert_bytes_def [abs_def]

lemma insert_refs: "hash_insert_ref = hash_insert_field" "hash_insert_bytes = hash_insert_field"
  by (simp_all add: fun_eq_iff hash_insert_ref_def hash_insert_bytes_def)

text \<open>The counting insertion loop, in the form the rule above asks for.\<close>

lemma hset_spec:
  assumes "store_ok st"
  shows "\<exists>st'. hset E k fvs st = Some (put_reply Map.empty (\<lambda>m. Ok (card (fst ` set fvs - dom m))) (hash_view E k st), st')
    \<and> hash_after E k (put_view Map.empty (\<lambda>m. m ++ map_of (rev fvs)) (hash_view E k st)) st st'"
  unfolding hset_def insert_refs
proof (rule hashes.put_spec [OF assms])
  show "\<exists>a x. insert_count hash_insert_field fvs (hash_with_capacity (length fvs)) = Some (a, x) \<and> hash_inv x
      \<and> Ok (card (fst ` set fvs - dom Map.empty)) = Ok a \<and> hash_abs x = Map.empty ++ map_of (rev fvs)"
    using hash.insert_all [where h = "hash_with_capacity (length fvs)" and kvs = fvs] hash_with_capacity_law by auto
qed (use hash.insert_all [where kvs = fvs] in fastforce)

lemma hset_flat_eq: "hset_flat E k flat = hset E k (pairs flat)"
  by (simp add: hset_flat_def hset_def Let_def)

lemma hset_bytes_raw_eq: "list_all (\<lambda>(f, _). utf8_valid f) fvs \<Longrightarrow> hset_bytes_raw E k fvs st = hset E k fvs st"
proof -
  assume a: "list_all (\<lambda>(f, _). utf8_valid f) fvs"
  then have "\<not> list_ex (\<lambda>(f, _). \<not> utf8_valid f) fvs" by (fastforce simp: list_ex_iff list_all_iff)
  then show ?thesis by (simp add: hset_bytes_raw_def hset_def insert_refs)
qed

text \<open>C30. HSET sets every field of its list, a later value of a field winning, and replies with the number of fields
  that the hash did not have before: on a missing or expired key the fields start from the empty hash,
  on a value of another type nothing changes.  The flat form of the command and the form that takes raw bytes do the
  same, the latter after refusing a list with a field that is not UTF-8.\<close>

theorem hset_correct:
  assumes "store_ok st"
  shows "\<exists>st'. hset E k fvs st = Some (put_reply Map.empty (\<lambda>m. Ok (card (fst ` set fvs - dom m))) (hash_view E k st), st')
    \<and> hash_after E k (put_view Map.empty (\<lambda>m. m ++ map_of (rev fvs)) (hash_view E k st)) st st'
    \<and> hset_flat E k (flatten fvs) st = hset E k fvs st
    \<and> hset_bytes_raw E k fvs st =
        (if list_all (\<lambda>(f, _). utf8_valid f) fvs then hset E k fvs st
         else Some (Err ''invalid field name encoding'', st))"
proof -
  have "hset_bytes_raw E k fvs st = Some (Err ''invalid field name encoding'', st)"
    if "\<not> list_all (\<lambda>(f, _). utf8_valid f) fvs"
  proof -
    have "list_ex (\<lambda>(f, _). \<not> utf8_valid f) fvs" using that by (fastforce simp: list_ex_iff list_all_iff)
    then show ?thesis by (simp add: hset_bytes_raw_def)
  qed
  with hset_spec [OF assms, of E k fvs] show ?thesis by (simp add: hset_flat_eq hset_bytes_raw_eq)
qed

theorem hset_correct_witness:
  "\<exists>st'. hset env0 [107] [([1], [2]), ([1], [3])] (store_new 1 :: (unit, unit) store) = Some (Ok 1, st')
     \<and> hash_view env0 [107] st' = VHas [[1] \<mapsto> [3]]"
  using hset_correct [where st = "store_new 1 :: (unit, unit) store" and E = env0 and k = "[107]"
      and fvs = "[([1], [2]), ([1], [3])]"]
  by (auto simp: tview_missing tafter_def)

lemma hget_spec:
  "store_ok st \<Longrightarrow> hget E k f st = Some (case hash_view E k st of VWrong \<Rightarrow> Err ''WRONGTYPE'' | v \<Rightarrow> Ok (view_map v f))"
  unfolding hget_def by (subst hashes.read_rel [where g = "\<lambda>m. m f"]) (auto simp: hash_get_law split: view.split)

lemma hlen_spec:
  "store_ok st \<Longrightarrow> hlen E k st = Some (case hash_view E k st of VWrong \<Rightarrow> Err ''WRONGTYPE'' | v \<Rightarrow> Ok (card (dom (view_map v))))"
  unfolding hlen_def by (subst hashes.read_rel [where g = "\<lambda>m. card (dom m)"]) (auto simp: hash_len_law split: view.split)

lemma hexists_spec:
  "store_ok st \<Longrightarrow> hexists E k f st = Some (case hash_view E k st of VWrong \<Rightarrow> Err ''WRONGTYPE'' | v \<Rightarrow> Ok (f \<in> dom (view_map v)))"
  unfolding hexists_def
  by (subst hashes.read_rel [where g = "\<lambda>m. f \<in> dom m"]) (simp_all add: hash_contains_key_law split: view.split)

lemma hash_view_finite: "store_ok st \<Longrightarrow> hash_view E k st = VHas m \<Longrightarrow> finite (dom m)"
  by (rule hashes.viewE [of st E k]) (auto simp: hash.fin_law)

text \<open>C31. A field set with HSET is read back by HGET and HEXISTS with the last value given for it, every other field
  of the hash is read as before, and HLEN grows by the reply of HSET.\<close>

theorem hset_hget:
  assumes "store_ok st" "hash_view E k st \<noteq> VWrong"
  shows "\<exists>n st'. hset E k fvs st = Some (Ok n, st')
    \<and> hget E k f st' = (case map_of (rev fvs) f of Some v \<Rightarrow> Some (Ok (Some v)) | None \<Rightarrow> hget E k f st)
    \<and> hexists E k f st' = (if f \<in> fst ` set fvs then Some (Ok True) else hexists E k f st)
    \<and> (\<forall>l. hlen E k st = Some (Ok l) \<longrightarrow> hlen E k st' = Some (Ok (l + n)))"
proof -
  let ?m = "view_map (hash_view E k st)" and ?n = "card (fst ` set fvs - dom (view_map (hash_view E k st)))"
  from hset_spec [OF assms(1), of E k fvs] obtain st' where st': "hset E k fvs st = Some (Ok ?n, st')" "store_ok st'"
    "hash_view E k st' = VHas (?m ++ map_of (rev fvs))" using assms(2) by (cases "hash_view E k st") (auto simp: tafter_def)
  have fin: "finite (dom ?m)" using hash_view_finite [OF assms(1)] by (cases "hash_view E k st") auto
  have dom: "dom (?m ++ map_of (rev fvs)) = dom ?m \<union> (fst ` set fvs - dom ?m)" by (auto simp: dom_map_of_conv_image_fst)
  have card: "card (dom (?m ++ map_of (rev fvs))) = card (dom ?m) + ?n"
    unfolding dom using fin by (intro card_Un_disjoint) auto
  have in_dom: "f \<in> dom (?m ++ map_of (rev fvs)) \<longleftrightarrow> f \<in> fst ` set fvs \<or> f \<in> dom ?m" using dom by auto
  have "hget E k f st' = (case map_of (rev fvs) f of Some v \<Rightarrow> Some (Ok (Some v)) | None \<Rightarrow> hget E k f st)"
    using st'(3) assms(2) by (simp add: hget_spec [OF st'(2)] hget_spec [OF assms(1)] map_add_def split: view.split option.split)
  moreover have "hexists E k f st' = (if f \<in> fst ` set fvs then Some (Ok True) else hexists E k f st)"
    using st'(3) assms(2) in_dom
    by (simp only: hexists_spec [OF st'(2)] hexists_spec [OF assms(1)] view.case view_of.simps) (simp split: view.split)
  moreover have "hlen E k st' = Some (Ok (l + ?n))" if "hlen E k st = Some (Ok l)" for l
    using that st'(3) assms(2) card
    by (simp only: hlen_spec [OF st'(2)] hlen_spec [OF assms(1)] view.case view_of.simps) (auto split: view.splits)
  ultimately show ?thesis using st'(1) by blast
qed

theorem hset_hget_witness:
  "\<exists>st'. hset env0 [107] [([1], [2])] (store_new 1 :: (unit, unit) store) = Some (Ok 1, st')
     \<and> hget env0 [107] [1] st' = Some (Ok (Some [2]))"
proof -
  have "hash_view env0 [107] (store_new 1 :: (unit, unit) store) \<noteq> VWrong" by (simp add: tview_missing)
  from hset_hget [where st = "store_new 1 :: (unit, unit) store" and fvs = "[([1], [2])]" and f = "[1]", OF _ this]
  show ?thesis using hset_spec [where st = "store_new 1 :: (unit, unit) store" and E = env0 and k = "[107]" and fvs = "[([1], [2])]"]
    by (auto simp: tview_missing)
qed

text \<open>C34. The form of HSET on byte values replies on a missing or expired key with the length of its list, also
  when a field occurs twice in it: the reply then exceeds the number of fields that the hash has.\<close>

theorem hset_bytes_counts_duplicates:
  assumes "store_ok st" "hash_view E k st = VMissing"
  shows "\<exists>st'. hset_bytes E k fvs st = Some (Ok (length fvs), st')
    \<and> hlen E k st' = Some (Ok (card (fst ` set fvs)))"
proof -
  have "\<exists>st'. hset_bytes E k fvs st =
      Some (put_reply Map.empty (\<lambda>m. Ok (if m = Map.empty then length fvs else card (fst ` set fvs - dom m))) (hash_view E k st), st')
    \<and> hash_after E k (put_view Map.empty (\<lambda>m. m ++ map_of (rev fvs)) (hash_view E k st)) st st'" if
    "hash_view E k st = VMissing"
  proof -
    obtain n h where h: "insert_count hash_insert_field fvs (hash_with_capacity (length fvs)) = Some (n, h)" "hash_inv h"
      "hash_abs h = map_of (rev fvs)"
      using hash.insert_all [where h = "hash_with_capacity (length fvs)" and kvs = fvs] hash_with_capacity_law by auto
    let ?fr = "do { (_, h) \<leftarrow> insert_count hash_insert_bytes fvs (hash_with_capacity (length fvs)); Some (length fvs, h) }"
    let ?f = "\<lambda>h. reply_ok (insert_count hash_insert_bytes fvs h)"
    from hashes.put_rel [where fr = ?fr and f = ?f and E = E and k = k and N = "\<lambda>a m. a = length fvs \<and> m = map_of (rev fvs)"
        and R = "\<lambda>_ _ _. True", OF assms(1)] h hash.insert_all [where kvs = fvs]
    show ?thesis using that unfolding hset_bytes_def by (fastforce simp: insert_refs)
  qed
  with assms(2) obtain st' where st': "hset_bytes E k fvs st = Some (Ok (length fvs), st')" "store_ok st'"
    "hash_view E k st' = VHas (map_of (rev fvs))" by (auto simp: tafter_def)
  then show ?thesis by (simp add: hlen_spec dom_map_of_conv_image_fst)
qed

theorem hset_bytes_counts_duplicates_witness:
  "\<exists>st'. hset_bytes env0 [107] [([1], [2]), ([1], [3])] (store_new 1 :: (unit, unit) store) = Some (Ok 2, st')
     \<and> hlen env0 [107] st' = Some (Ok 1)"
  using hset_bytes_counts_duplicates [where st = "store_new 1 :: (unit, unit) store" and E = env0 and k = "[107]"
      and fvs = "[([1], [2]), ([1], [3])]"]
  by (auto simp: tview_missing)

lemma hset_added_flags_spec:
  assumes "store_ok st"
  shows "\<exists>st'. hset_added_flags E k fvs st = Some (put_reply Map.empty (\<lambda>m. Ok (added_flags m fvs)) (hash_view E k st), st')
    \<and> hash_after E k (put_view Map.empty (\<lambda>m. m ++ map_of (rev fvs)) (hash_view E k st)) st st'"
  unfolding hset_added_flags_def insert_refs
  by (rule hashes.put_spec [OF assms]) (use insert_flags_law [of hash_new fvs] hash_new_law insert_flags_law in fastforce)+

lemma hset_bytes_added_flags_eq: "hset_bytes_added_flags = hset_added_flags"
  by (simp add: fun_eq_iff hset_bytes_added_flags_def hset_added_flags_def insert_refs)

lemma hsetnx_spec:
  assumes "store_ok st"
  shows "\<exists>st'. hsetnx E k f v st = Some (put_reply Map.empty (\<lambda>m. Ok (m f = None)) (hash_view E k st), st')
    \<and> hash_after E k (put_view Map.empty (\<lambda>m. if m f = None then m(f \<mapsto> v) else m) (hash_view E k st)) st st'"
  unfolding hsetnx_def insert_refs
proof (rule hashes.put_spec [OF assms])
  fix x assume x: "hash_inv x"
  from hash_insert_field_law [OF x, of f v]
  show "\<exists>x'. do { present \<leftarrow> hash_contains_key x f;
          if present then Some (Ok False, x)
          else do { (_, h1) \<leftarrow> hash_insert_field x f v; Some (Ok True, h1) } } = Some (Ok (hash_abs x f = None), x')
      \<and> hash_inv x' \<and> hash_abs x' = (if hash_abs x f = None then (hash_abs x)(f \<mapsto> v) else hash_abs x)"
    using x by (auto simp: hash_contains_key_law domIff)
qed (use hash_insert_field_law [of "hash_with_capacity 1" f v] hash_with_capacity_law in auto)

lemma hdel_spec:
  assumes "store_ok st"
  shows "\<exists>st'. hdel E k fs st = Some (put_reply Map.empty (\<lambda>m. Ok (card (set fs \<inter> dom m))) (hash_view E k st), st')
    \<and> hash_after E k (write_view (\<lambda>m. m |` (- set fs)) (hash_view E k st)) st st'"
  unfolding hdel_def by (rule hashes.write_spec [OF assms]) (use hash.remove_all [of _ fs] in fastforce)+

section \<open>Listing a hash\<close>

interpretation hash_lists: typed_value as_hash FHash hash_inv hash_pairs
  by unfold_locales (simp_all add: hashes.proj_law)

lemma hash_listing_view:
  assumes "store_ok st"
  shows "(hash_listing E k st = VWrong) = (hash_view E k st = VWrong)"
    and "map_of (view_of [] (hash_listing E k st)) = view_map (hash_view E k st)"
    and "distinct (map fst (view_of [] (hash_listing E k st)))"
  by (rule hashes.viewE [OF assms, of E k]; simp add: tview_def live_at_def hash_abs_def hash_pairs_distinct)+

text \<open>C32. HGETALL lists every field of the hash once, with its value, and HKEYS and HVALS list the fields and the values in
  the same order; HMGET looks its fields up one by one, and a missing or expired key has no fields.\<close>

theorem hgetall_correct:
  assumes "store_ok st"
  shows "\<exists>fvs. distinct (map fst fvs) \<and> map_of fvs = view_map (hash_view E k st)
    \<and> hgetall E k st = Some (if hash_view E k st = VWrong then Err ''WRONGTYPE'' else Ok fvs)
    \<and> hkeys E k st = Some (if hash_view E k st = VWrong then Err ''WRONGTYPE'' else Ok (map fst fvs))
    \<and> hvals E k st = Some (if hash_view E k st = VWrong then Err ''WRONGTYPE'' else Ok (map snd fvs))
    \<and> hmget E k fs st = Some (if hash_view E k st = VWrong then Err ''WRONGTYPE'' else Ok (map (map_of fvs) fs))"
proof -
  let ?l = "view_of [] (hash_listing E k st)"
  have those: "those (map (hash_get h) fs) = Some (map (map_of (hash_pairs h)) fs)" if "hash_inv h" for h
    using that by (induction fs) (simp_all add: hash_get_law hash_abs_def)
  note l = hash_listing_view [OF assms, of E k]
  have "hgetall E k st = Some (if hash_listing E k st = VWrong then Err ''WRONGTYPE'' else Ok ?l)"
    unfolding hgetall_def
    by (subst hash_lists.read_rel [OF assms, where g = "\<lambda>l. l"]) (auto simp: hash_iter_pairs split: view.split)
  moreover have "hkeys E k st = Some (if hash_listing E k st = VWrong then Err ''WRONGTYPE'' else Ok (map fst ?l))"
    unfolding hkeys_def
    by (subst hash_lists.read_rel [OF assms, where g = "map fst"]) (auto simp: hash_keys_pairs split: view.split)
  moreover have "hvals E k st = Some (if hash_listing E k st = VWrong then Err ''WRONGTYPE'' else Ok (map snd ?l))"
    unfolding hvals_def
    by (subst hash_lists.read_rel [OF assms, where g = "map snd"]) (auto simp: hash_values_pairs split: view.split)
  moreover have "hmget E k fs st = Some (if hash_listing E k st = VWrong then Err ''WRONGTYPE'' else Ok (map (map_of ?l) fs))"
    unfolding hmget_def
    by (subst hash_lists.read_rel [OF assms, where g = "\<lambda>l. map (map_of l) fs"])
      (auto simp: those map_replicate_const split: view.split)
  ultimately show ?thesis using l by (intro exI [of _ ?l]) simp
qed

theorem hgetall_correct_witness:
  "hgetall env0 [107] (store_new 1 :: (unit, unit) store) = Some (Ok [])"
  using hgetall_correct [where st = "store_new 1 :: (unit, unit) store" and E = env0 and k = "[107]" and fs = "[]"]
  by (auto simp: tview_missing)

section \<open>Replies written into the buffer\<close>

lemma hash_iter_all: "hash_inv h \<Longrightarrow> hash_len h = length (hash_pairs h) \<and> hash_iter h = Some (hash_pairs h)"
  using hash.iter_length [OF _ hash_iter_pairs] by (simp add: hash_iter_pairs)

text \<open>C25. The HGETALL, HKEYS and HVALS that write their reply into the output buffer append the array that
  HGETALL, HKEYS and HVALS would return, as RESP bulk strings, when every string to write is one that
  \<^verbatim>\<open>write_resp\<close> renders well.\<close>

theorem hash_reply_correct:
  assumes "store_ok st" "ob_ok out"
    and "length (view_of [] (hash_listing E k st)) < 2 ^ 63"
    and "\<forall>x\<in>set (view_of [] (hash_listing E k st)). renders (fst x) \<and> renders (snd x)"
    and "hash_view E k st \<noteq> VWrong"
  shows "\<exists>fvs out1 out2 out3. hgetall E k st = Some (Ok fvs)
    \<and> hgetall_to_buf E k out st = Some (Ok (length fvs), out1)
    \<and> ob_bytes out1 = ob_bytes out @ resp_array_header (length fvs * 2) @ concat (map (\<lambda>(f, v). resp_bulk f @ resp_bulk v) fvs)
    \<and> hkeys_to_buf E k out st = Some (Ok (length fvs), out2)
    \<and> ob_bytes out2 = ob_bytes out @ resp_array_header (length fvs) @ concat (map (\<lambda>(f, v). resp_bulk f) fvs)
    \<and> hvals_to_buf E k out st = Some (Ok (length fvs), out3)
    \<and> ob_bytes out3 = ob_bytes out @ resp_array_header (length fvs) @ concat (map (\<lambda>(f, v). resp_bulk v) fvs)"
proof -
  let ?l = "view_of [] (hash_listing E k st)"
  have g: "hgetall E k st = Some (Ok ?l)"
    unfolding hgetall_def using assms(5) hash_listing_view(1) [OF assms(1), of E k]
    by (subst hash_lists.read_rel [OF assms(1), where g = "\<lambda>l. l"]) (auto simp: hash_iter_pairs split: view.split)
  have "\<forall>x\<in>set ?l. emits (\<lambda>out. case x of (f, v) \<Rightarrow> do { out1 \<leftarrow> write_str out f; write_str out1 v }) (case x of (f, v) \<Rightarrow> resp_bulk f @ resp_bulk v)"
    "\<forall>x\<in>set ?l. emits (\<lambda>out. case x of (f, v) \<Rightarrow> write_str out f) (case x of (f, v) \<Rightarrow> resp_bulk f)"
    "\<forall>x\<in>set ?l. emits (\<lambda>out. case x of (f, v) \<Rightarrow> write_str out v) (case x of (f, v) \<Rightarrow> resp_bulk v)"
    using assms(4) by (auto intro!: emits_seq emits_renders)
  note e = this
  show ?thesis
    using hash_lists.to_buf_spec [where el = "\<lambda>l. l" and d = "[]", OF assms(1,2) hash_iter_all _ _ e(1), of 2 32]
      hash_lists.to_buf_spec [where el = "\<lambda>l. l" and d = "[]", OF assms(1,2) hash_iter_all _ _ e(2), of 1 20]
      hash_lists.to_buf_spec [where el = "\<lambda>l. l" and d = "[]", OF assms(1,2) hash_iter_all _ _ e(3), of 1 20] assms(3,5) g
      hash_listing_view(1) [OF assms(1), of E k]
    unfolding hgetall_to_buf_def hkeys_to_buf_def hvals_to_buf_def by auto
qed

theorem hash_reply_correct_witness:
  "\<exists>out1. hgetall_to_buf env0 [107] \<lparr>ob_mem = [], ob_len = 0\<rparr> (store_new 1 :: (unit, unit) store) = Some (Ok 0, out1)
     \<and> ob_bytes out1 = resp_array_header 0"
  using hash_reply_correct [where st = "store_new 1 :: (unit, unit) store" and E = env0 and k = "[107]"
      and out = "\<lparr>ob_mem = [], ob_len = 0\<rparr>"]
    hgetall_to_buf_def
  by (auto simp: tview_missing ob_ok_def ob_bytes_def hgetall_def typed_read_def)

lemma emits_nils: "length fs < 2 ^ 64 \<Longrightarrow> emits (\<lambda>out. write_nils out fs) (resp_array_header (length fs) @ concat (map (\<lambda>_. resp_nil) fs))"
  unfolding write_nils_def
  by (intro emits_seq emits_write_array_header emits_write_each) (auto simp: emits_write_nil)

lemma emits_write_field:
  assumes "hash_inv h" "\<forall>v\<in>ran (hash_abs h). renders v"
  shows "emits (\<lambda>out. write_field h out f) (resp_opt (hash_abs h f))"
  using assms
  by (cases "hash_abs h f") (auto simp: write_field_def hash_get_law resp_opt_def emits_write_nil intro!: emits_renders ranI)

lemma hmget_to_buf_spec:
  assumes ok: "store_ok st" "ob_ok out" and n: "length fs < 2 ^ 64"
    and w: "\<forall>v\<in>ran (view_map (hash_view E k st)). renders v"
  shows "\<exists>out'. hmget_to_buf E k fs out st = Some (if hash_view E k st = VWrong then Err ''WRONGTYPE'' else Ok (), out')
    \<and> ob_bytes out' = ob_bytes out @ (if hash_view E k st = VWrong then []
        else resp_array_header (length fs) @ concat (map (\<lambda>f. resp_opt (view_map (hash_view E k st) f)) fs))"
proof -
  obtain out1 where out1: "write_nils out fs = Some out1"
    "ob_bytes out1 = ob_bytes out @ resp_array_header (length fs) @ concat (map (\<lambda>_. resp_nil) fs)"
    using emitsE [OF emits_nils [OF n] ok(2)] by auto
  show ?thesis
  proof (rule hashes.viewE [OF ok(1), of E k])
    assume "hash_view E k st = VMissing" "live_at E k st = None"
    with out1 show ?thesis by (auto simp: hmget_to_buf_def Let_def ob_truncate_self live_at_None resp_opt_def split: option.split)
  next
    fix v h assume v: "hash_view E k st = VHas (hash_abs h)" "entries st k = Some v" "\<not> is_expired E v"
      "as_hash (sv_value v) = Some h" "hash_inv h"
    have e: "\<forall>f\<in>set fs. emits (\<lambda>out. write_field h out f) (resp_opt (hash_abs h f))"
      using emits_write_field [OF v(5)] w v(1) by auto
    from emitsE [OF emits_headed [OF n e] ok(2)]
    obtain out2 where "write_array_header (ob_reserve out (length fs * 32)) (length fs)
        \<bind> (\<lambda>out1. write_each (write_field h) out1 fs) = Some out2"
      "ob_bytes out2 = ob_bytes out @ resp_array_header (length fs) @ concat (map (\<lambda>f. resp_opt (hash_abs h f)) fs)"
      by blast
    with v show ?thesis by (auto simp: hmget_to_buf_def Let_def ob_truncate_self bind_eq_Some_conv)
  qed (auto simp: hmget_to_buf_def Let_def ob_truncate_self)
qed

lemma hget_to_buf_spec:
  assumes ok: "store_ok st" "ob_ok out" and w: "\<And>v. view_map (hash_view E k st) f = Some v \<Longrightarrow> renders v"
  shows "\<exists>out'. hget_to_buf E k f out st = Some (if hash_view E k st = VWrong then Err ''WRONGTYPE''
        else Ok (view_map (hash_view E k st) f \<noteq> None), out')
    \<and> ob_bytes out' = ob_bytes out @ (case view_map (hash_view E k st) f of Some v \<Rightarrow> resp_bulk v | None \<Rightarrow> [])"
proof (rule hashes.viewE [OF ok(1), of E k])
  assume "hash_view E k st = VMissing" "live_at E k st = None"
  then show ?thesis by (simp add: hget_to_buf_def live_at_None split: option.split)
next
  fix v assume "hash_view E k st = VWrong" "entries st k = Some v" "\<not> is_expired E v" "as_hash (sv_value v) = None"
  then show ?thesis by (simp add: hget_to_buf_def)
next
  fix v h assume v: "hash_view E k st = VHas (hash_abs h)" "entries st k = Some v" "\<not> is_expired E v"
      "as_hash (sv_value v) = Some h" "hash_inv h"
  show ?thesis
  proof (cases "hash_abs h f")
    case (Some s)
    with w v(1) have "renders s" by simp
    from emitsE [OF emits_renders [OF this] ok(2)] obtain out' where
      "write_str out s = Some out'" "ob_bytes out' = ob_bytes out @ resp_bulk s" by auto
    with Some v show ?thesis by (simp add: hget_to_buf_def hash_get_law)
  qed (use v in \<open>simp add: hget_to_buf_def hash_get_law\<close>)
qed

section \<open>Counters\<close>

lemma hash_single: "hash_inv (HCompact [f, s])" "hash_abs (HCompact [f, s]) = [f \<mapsto> s]"
  by (simp_all add: COMPACT_THRESHOLD_def)

text \<open>C33. HINCRBY adds to the integer of a field, a missing field or key counting as zero, stores the decimal
  rendering of the sum and replies with it.  A value that is not a 64-bit integer and a sum that leaves the
  64-bit range are errors that change nothing.\<close>

theorem hincrby_correct:
  assumes "store_ok st" "in_i64 d"
  shows "\<exists>st'. hincrby E k f d st = Some (put_reply Map.empty (\<lambda>m. incr_reply (m f) d) (hash_view E k st), st')
    \<and> hash_after E k (put_view Map.empty (\<lambda>m. case incr_reply (m f) d of Ok n \<Rightarrow> m(f \<mapsto> idec n) | Err _ \<Rightarrow> m) (hash_view E k st)) st st'"
  unfolding hincrby_def insert_refs
proof (rule hashes.put_loop_spec [OF assms(1)])
  show "\<exists>a x. do { s \<leftarrow> write_int_to (replicate 20 0) d; Some (d, HCompact [f, s]) } = Some (a, x) \<and> hash_inv x
     \<and> incr_reply (Map.empty f) d = Ok a
     \<and> hash_abs x = (case incr_reply (Map.empty f) d of Ok n \<Rightarrow> [f \<mapsto> idec n] | Err _ \<Rightarrow> Map.empty)"
    using assms(2) write_int_to_idec [OF assms(2) length_replicate] hash_single [of f "idec d"] by (simp add: incr_reply_def)
next
  fix x assume x: "hash_inv x"
  have zero: "parse_i64 (ascii ''0'') = Some 0" by code_simp
  show "\<exists>x'. do {
          r \<leftarrow> hash_get x f;
          (case parse_i64 (case r of Some v \<Rightarrow> v | None \<Rightarrow> ascii ''0'') of
             Some n \<Rightarrow>
               (case checked_add_i64 n d of
                  None \<Rightarrow> Some (Err ''increment or decrement would overflow'', x)
                | Some new \<Rightarrow> do {
                    rendered \<leftarrow> write_int_to (replicate 20 0) new;
                    (_, h1) \<leftarrow> hash_insert_field x f rendered;
                    Some (Ok new, h1) })
           | None \<Rightarrow> Some (Err ''value is not an integer or out of range'', x)) }
      = Some (incr_reply (hash_abs x f) d, x') \<and> hash_inv x'
      \<and> hash_abs x' = (case incr_reply (hash_abs x f) d of Ok n \<Rightarrow> (hash_abs x)(f \<mapsto> idec n) | Err _ \<Rightarrow> hash_abs x)"
  proof (cases "incr_reply (hash_abs x f) d")
    case (Inl e)
    then show ?thesis using x by (auto simp: hash_get_law incr_reply_def zero checked_add_i64_def split: option.splits if_splits)
  next
    case (Inr n)
    then have "in_i64 n" by (auto simp: incr_reply_def split: option.splits if_splits)
    then have "write_int_to (replicate 20 0) n = Some (idec n)" by (rule write_int_to_idec) simp
    with Inr x hash_insert_field_law [OF x, of f "idec n"] show ?thesis
      by (auto simp: hash_get_law incr_reply_def zero checked_add_i64_def split: option.splits if_splits)
  qed
qed

theorem hincrby_correct_witness:
  "\<exists>st'. hincrby env0 [107] [1] (-7) (store_new 1 :: (unit, unit) store) = Some (Ok (-7), st')
     \<and> hash_view env0 [107] st' = VHas [[1] \<mapsto> idec (-7)]"
  using hincrby_correct [where st = "store_new 1 :: (unit, unit) store" and E = env0 and k = "[107]" and f = "[1]" and d = "-7"]
  by (auto simp: tview_missing tafter_def incr_reply_def in_i64_def i64_min_def i64_max_def)

lemma hincrbyfloat_spec:
  assumes "store_ok st" "fl_parse F (ascii ''0'') = Some z" "fl_add F z d = d"
  shows "\<exists>st'. hincrbyfloat F E k f d st = Some (put_reply Map.empty (\<lambda>m.
        case fl_parse F (case m f of Some v \<Rightarrow> v | None \<Rightarrow> ascii ''0'') of
          Some n \<Rightarrow> Ok (fl_add F n d) | None \<Rightarrow> Err ''value is not a valid float'') (hash_view E k st), st')
    \<and> hash_after E k (put_view Map.empty (\<lambda>m. case fl_parse F (case m f of Some v \<Rightarrow> v | None \<Rightarrow> ascii ''0'') of
          Some n \<Rightarrow> m(f \<mapsto> fl_format F (fl_add F n d)) | None \<Rightarrow> m) (hash_view E k st)) st st'"
  unfolding hincrbyfloat_def insert_refs
proof (rule hashes.put_spec [OF assms(1)])
  show "\<exists>a x. Some (d, HCompact [f, fl_format F d]) = Some (a, x) \<and> hash_inv x
     \<and> (case fl_parse F (case Map.empty f of Some v \<Rightarrow> v | None \<Rightarrow> ascii ''0'') of
          Some n \<Rightarrow> Ok (fl_add F n d) | None \<Rightarrow> Err ''value is not a valid float'') = Ok a
     \<and> hash_abs x = (case fl_parse F (case Map.empty f of Some v \<Rightarrow> v | None \<Rightarrow> ascii ''0'') of
          Some n \<Rightarrow> [f \<mapsto> fl_format F (fl_add F n d)] | None \<Rightarrow> Map.empty)"
    using assms(2,3) hash_single [of f "fl_format F d"] by simp
next
  fix x assume x: "hash_inv x"
  show "\<exists>x'. do {
          r \<leftarrow> hash_get x f;
          (case fl_parse F (case r of Some v \<Rightarrow> v | None \<Rightarrow> ascii ''0'') of
             Some n \<Rightarrow> do {
               (_, h1) \<leftarrow> hash_insert_field x f (fl_format F (fl_add F n d));
               Some (Ok (fl_add F n d), h1) }
           | None \<Rightarrow> Some (Err ''value is not a valid float'', x)) }
      = Some (case fl_parse F (case hash_abs x f of Some v \<Rightarrow> v | None \<Rightarrow> ascii ''0'') of
          Some n \<Rightarrow> Ok (fl_add F n d) | None \<Rightarrow> Err ''value is not a valid float'', x')
      \<and> hash_inv x' \<and> hash_abs x' = (case fl_parse F (case hash_abs x f of Some v \<Rightarrow> v | None \<Rightarrow> ascii ''0'') of
          Some n \<Rightarrow> (hash_abs x)(f \<mapsto> fl_format F (fl_add F n d)) | None \<Rightarrow> hash_abs x)"
  proof (cases "fl_parse F (case hash_abs x f of Some v \<Rightarrow> v | None \<Rightarrow> ascii ''0'')")
    case None
    then show ?thesis using x by (simp add: hash_get_law)
  next
    case (Some n)
    with hash_insert_field_law [OF x, of f "fl_format F (fl_add F n d)"] x show ?thesis
      by (auto simp: hash_get_law)
  qed
qed

end
