(* ===== verification/SetCmds.thy ===== *)
theory SetCmds
  imports TypedCmd
begin

text \<open>
  The set commands of \<^verbatim>\<open>src/storage/set.rs\<close>: SADD, SREM, SISMEMBER, SMISMEMBER, SMEMBERS, SCARD, SPOP,
  SRANDMEMBER, SMOVE, and the set algebra with its storing forms.  A \<^verbatim>\<open>HashSet\<close> that a command
  builds is a list without duplicates; its order stands for the iteration order, and no property depends on it.
\<close>

section \<open>Adding and removing\<close>

fun insert_members :: "bytes list \<Rightarrow> set_inner \<Rightarrow> (bool list \<times> set_inner) option" where
  "insert_members [] s = Some ([], s)"
| "insert_members (m # ms) s = do {
     (b, s1) \<leftarrow> set_insert_str s m;
     (bs, s2) \<leftarrow> insert_members ms s1;
     Some (b # bs, s2) }"

definition sadd_added_flags :: "env \<Rightarrow> key \<Rightarrow> bytes list \<Rightarrow> ('z, 't) store \<Rightarrow> ('z, 't, bool list) outcome" where
  "sadd_added_flags E k members =
     typed_put as_set FSet E k (insert_members members set_new) (\<lambda>s. reply_ok (insert_members members s))"

definition sadd :: "env \<Rightarrow> key \<Rightarrow> bytes list \<Rightarrow> ('z, 't) store \<Rightarrow> ('z, 't, nat) outcome" where
  "sadd E k members =
     typed_put as_set FSet E k (member_count set_insert_str members set_new)
       (\<lambda>s. reply_ok (member_count set_insert_str members s))"

definition srem :: "env \<Rightarrow> key \<Rightarrow> bytes list \<Rightarrow> ('z, 't) store \<Rightarrow> ('z, 't, nat) outcome" where
  "srem E k members = typed_write as_set FSet 0 E k (\<lambda>s. reply_ok (member_count set_remove members s))"

fun spop_loop :: "nat \<Rightarrow> set_inner \<Rightarrow> (bytes list \<times> set_inner) option" where
  "spop_loop 0 s = Some ([], s)"
| "spop_loop (Suc n) s =
     (case map member_to_string (set_iter s) of
        m # _ \<Rightarrow> do {
          (_, s1) \<leftarrow> set_remove s m;
          (ms, s2) \<leftarrow> spop_loop n s1;
          Some (m # ms, s2) }
      | [] \<Rightarrow> spop_loop n s)"

definition spop :: "env \<Rightarrow> key \<Rightarrow> nat \<Rightarrow> ('z, 't) store \<Rightarrow> ('z, 't, bytes list) outcome" where
  "spop E k count = typed_write as_set FSet [] E k (\<lambda>s. reply_ok (spop_loop (min count (set_len s)) s))"

section \<open>Reading\<close>

definition sismember :: "env \<Rightarrow> key \<Rightarrow> bytes \<Rightarrow> ('z, 't) store \<Rightarrow> (err + bool) option" where
  "sismember E k member = typed_read as_set (Some False) E k (\<lambda>s. set_contains s member)"

definition smismember :: "env \<Rightarrow> key \<Rightarrow> bytes list \<Rightarrow> ('z, 't) store \<Rightarrow> (err + bool list) option" where
  "smismember E k members =
     typed_read as_set (Some (replicate (length members) False)) E k (\<lambda>s. those (map (set_contains s) members))"

definition write_zeros :: "outbuf \<Rightarrow> bytes list \<Rightarrow> outbuf option" where
  "write_zeros out members = do {
     out1 \<leftarrow> write_array_header out (length members);
     write_each (\<lambda>o1 _. write_integer o1 0) out1 members }"

definition write_contains :: "set_inner \<Rightarrow> outbuf \<Rightarrow> bytes \<Rightarrow> outbuf option" where
  "write_contains s out m = do { b \<leftarrow> set_contains s m; write_integer out (if b then 1 else 0) }"

definition smismember_to_buf :: "env \<Rightarrow> key \<Rightarrow> bytes list \<Rightarrow> outbuf \<Rightarrow> ('z, 't) store \<Rightarrow> ((err + unit) \<times> outbuf) option" where
  "smismember_to_buf E k members out st =
     (let start_len = ob_len out in
      case entries st k of
        None \<Rightarrow> do { out1 \<leftarrow> write_zeros out members; Some (Ok (), out1) }
      | Some val \<Rightarrow>
          (let out0 = ob_truncate out start_len in
           if is_expired E val then do { out1 \<leftarrow> write_zeros out0 members; Some (Ok (), out1) }
           else
             (case as_set (sv_value val) of
                Some s \<Rightarrow> do {
                  out1 \<leftarrow> write_array_header out0 (length members);
                  out2 \<leftarrow> write_each (write_contains s) out1 members;
                  Some (Ok (), out2) }
              | None \<Rightarrow> Some (Err ''WRONGTYPE'', out0))))"

definition smembers :: "env \<Rightarrow> key \<Rightarrow> ('z, 't) store \<Rightarrow> (err + bytes list) option" where
  "smembers E k = typed_read as_set (Some []) E k (\<lambda>s. Some (map member_to_string (set_iter s)))"

definition write_bulk_to :: "outbuf \<Rightarrow> set_member_ref \<Rightarrow> outbuf option" where
  "write_bulk_to out m =
     (case m of
        MString s \<Rightarrow> write_str out s
      | MInteger n \<Rightarrow> do { s \<leftarrow> write_int_to (replicate 20 0) n; write_bulk out s })"

definition smembers_to_buf :: "env \<Rightarrow> key \<Rightarrow> outbuf \<Rightarrow> ('z, 't) store \<Rightarrow> ((err + nat) \<times> outbuf) option" where
  "smembers_to_buf = typed_to_buf as_set set_len (\<lambda>s. Some (set_iter s)) 20 1 write_bulk_to"

definition scard :: "env \<Rightarrow> key \<Rightarrow> ('z, 't) store \<Rightarrow> (err + nat) option" where
  "scard E k = typed_read as_set (Some 0) E k (\<lambda>s. Some (set_len s))"

text \<open>
  Random picks.  The seed is the clock; the picks of a negative count are the multiples of a 64-bit constant, reduced to an index.
  Asking for room for more than \<^verbatim>\<open>isize::MAX\<close> bytes panics.
\<close>

definition isize_max :: nat where
  "isize_max = 2 ^ 63 - 1"

definition neg_count :: "int \<Rightarrow> nat" where
  "neg_count count = nat ((- count) mod 2 ^ 64)"

definition pick :: "nat \<Rightarrow> nat \<Rightarrow> nat \<Rightarrow> nat" where
  "pick seed len i = unat (((of_nat seed :: 64 word) + of_nat i) * 0x9e3779b97f4a7c15) mod len"

definition srandmember :: "env \<Rightarrow> key \<Rightarrow> int \<Rightarrow> ('z, 't) store \<Rightarrow> (err + bytes list) option" where
  "srandmember E k count =
     typed_read as_set (Some []) E k (\<lambda>s.
       if set_is_empty s then Some []
       else
         (let members = map member_to_string (set_iter s) in
          if count \<ge> 0 then Some (take (min (nat count) (length members)) members)
          else
            (let n = neg_count count in
             if n * 24 > isize_max then None
             else those (map (\<lambda>i. vget members (pick (now_ms E) (length members) i)) [0..<n]))))"

definition write_none :: "bool \<Rightarrow> outbuf \<Rightarrow> outbuf option" where
  "write_none single out = (if single then write_nil out else write_array_header out 0)"

definition reserve_panics :: "outbuf \<Rightarrow> nat \<Rightarrow> bool" where
  "reserve_panics out n \<longleftrightarrow> ob_len out + n > isize_max"

definition srandmember_to_buf ::
    "env \<Rightarrow> key \<Rightarrow> int \<Rightarrow> bool \<Rightarrow> outbuf \<Rightarrow> ('z, 't) store \<Rightarrow> ((err + unit) \<times> outbuf) option" where
  "srandmember_to_buf E k count single out st =
     (case entries st k of
        None \<Rightarrow> map_option (Pair (Ok ())) (write_none single out)
      | Some e \<Rightarrow>
          if is_expired E e then map_option (Pair (Ok ())) (write_none single out)
          else
            (case as_set (sv_value e) of
               None \<Rightarrow> Some (Err ''WRONGTYPE'', out)
             | Some s \<Rightarrow>
                 if set_is_empty s then map_option (Pair (Ok ())) (write_none single out)
                 else if single then
                   (let idx = now_ms E mod set_len s in
                    if idx < length (set_iter s) then map_option (Pair (Ok ())) (write_bulk_to out (set_iter s ! idx))
                    else Some (Ok (), out))
                 else if count \<ge> 0 then
                   (let n = min (nat count) (set_len s) in do {
                      out1 \<leftarrow> write_array_header (ob_reserve out (n * 20)) n;
                      map_option (Pair (Ok ())) (write_each write_bulk_to out1 (take n (set_iter s))) })
                 else
                   (let n = neg_count count; room = (n * 20) mod 2 ^ 64; members = set_iter s in
                    if reserve_panics out room then None
                    else do {
                      out1 \<leftarrow> write_array_header (ob_reserve out room) n;
                      map_option (Pair (Ok ())) (write_each (\<lambda>o1 i. do {
                        m \<leftarrow> vget members (pick (now_ms E) (length members) i);
                        write_bulk_to o1 m }) out1 [0..<n]) })))"

section \<open>Moving a member\<close>

definition smove :: "env \<Rightarrow> key \<Rightarrow> key \<Rightarrow> bytes \<Rightarrow> ('z, 't) store \<Rightarrow> ('z, 't, bool) outcome" where
  "smove E src dst member st = do {
     (removed, st1) \<leftarrow> typed_write as_set FSet False E src (\<lambda>s. reply_ok (set_remove s member)) st;
     (case removed of
        Err e \<Rightarrow> Some (Err e, st1)
      | Ok False \<Rightarrow> Some (Ok False, st1)
      | Ok True \<Rightarrow>
          typed_put as_set FSet E dst
            (do { (_, s) \<leftarrow> set_insert set_new member; Some (True, s) })
            (\<lambda>s. do { (_, s1) \<leftarrow> set_insert s member; Some (Ok True, s1) }) st1) }"

section \<open>Set algebra\<close>

definition hs_insert :: "bytes \<Rightarrow> bytes list \<Rightarrow> bytes list" where
  "hs_insert m result = (if m \<in> set result then result else result @ [m])"

fun retain_if :: "('a \<Rightarrow> bool option) \<Rightarrow> 'a list \<Rightarrow> 'a list option" where
  "retain_if p [] = Some []"
| "retain_if p (x # xs) = do { b \<leftarrow> p x; ys \<leftarrow> retain_if p xs; Some (if b then x # ys else ys) }"

fun sunion_loop :: "env \<Rightarrow> ('z, 't) store \<Rightarrow> key list \<Rightarrow> bytes list \<Rightarrow> err + bytes list" where
  "sunion_loop E st [] result = Ok result"
| "sunion_loop E st (k # ks) result =
     (case entries st k of
        None \<Rightarrow> sunion_loop E st ks result
      | Some e \<Rightarrow>
          if is_expired E e then sunion_loop E st ks result
          else
            (case as_set (sv_value e) of
               Some s \<Rightarrow> sunion_loop E st ks (fold hs_insert (map member_to_string (set_iter s)) result)
             | None \<Rightarrow> Err ''WRONGTYPE''))"

definition sunion :: "env \<Rightarrow> key list \<Rightarrow> ('z, 't) store \<Rightarrow> (err + bytes list) option" where
  "sunion E keys st = Some (sunion_loop E st keys [])"

fun sinter_loop :: "env \<Rightarrow> ('z, 't) store \<Rightarrow> key list \<Rightarrow> bytes list \<Rightarrow> (err + bytes list) option" where
  "sinter_loop E st [] result = Some (Ok result)"
| "sinter_loop E st (k # ks) result =
     (case entries st k of
        None \<Rightarrow> Some (Ok [])
      | Some e \<Rightarrow>
          if is_expired E e then Some (Ok [])
          else
            (case as_set (sv_value e) of
               Some s \<Rightarrow> do {
                 result1 \<leftarrow> retain_if (set_contains s) result;
                 if result1 = [] then Some (Ok result1) else sinter_loop E st ks result1 }
             | None \<Rightarrow> Some (Err ''WRONGTYPE'')))"

definition sinter :: "env \<Rightarrow> key list \<Rightarrow> ('z, 't) store \<Rightarrow> (err + bytes list) option" where
  "sinter E keys st =
     (case keys of
        [] \<Rightarrow> Some (Ok [])
      | k # ks \<Rightarrow>
          (case entries st k of
             None \<Rightarrow> Some (Ok [])
           | Some e \<Rightarrow>
               if is_expired E e then Some (Ok [])
               else
                 (case as_set (sv_value e) of
                    Some s \<Rightarrow> sinter_loop E st ks (fold hs_insert (map member_to_string (set_iter s)) [])
                  | None \<Rightarrow> Some (Err ''WRONGTYPE''))))"

fun sdiff_loop :: "env \<Rightarrow> ('z, 't) store \<Rightarrow> key list \<Rightarrow> bytes list \<Rightarrow> (err + bytes list) option" where
  "sdiff_loop E st [] result = Some (Ok result)"
| "sdiff_loop E st (k # ks) result =
     (case entries st k of
        None \<Rightarrow> sdiff_loop E st ks result
      | Some e \<Rightarrow>
          if is_expired E e then sdiff_loop E st ks result
          else
            (case as_set (sv_value e) of
               Some s \<Rightarrow> do {
                 result1 \<leftarrow> retain_if (\<lambda>m. map_option Not (set_contains s m)) result;
                 sdiff_loop E st ks result1 }
             | None \<Rightarrow> Some (Err ''WRONGTYPE'')))"

definition sdiff :: "env \<Rightarrow> key list \<Rightarrow> ('z, 't) store \<Rightarrow> (err + bytes list) option" where
  "sdiff E keys st =
     (case keys of
        [] \<Rightarrow> Some (Ok [])
      | k # ks \<Rightarrow>
          (case entries st k of
             None \<Rightarrow> Some (Ok [])
           | Some e \<Rightarrow>
               if is_expired E e then Some (Ok [])
               else
                 (case as_set (sv_value e) of
                    Some s \<Rightarrow> sdiff_loop E st ks (fold hs_insert (map member_to_string (set_iter s)) [])
                  | None \<Rightarrow> Some (Err ''WRONGTYPE''))))"

definition store_members ::
    "key \<Rightarrow> (err + bytes list) option \<Rightarrow> ('z, 't) store \<Rightarrow> ('z, 't, nat) outcome" where
  "store_members dst result st = do {
     r \<leftarrow> result;
     (case r of
        Err e \<Rightarrow> Some (Err e, st)
      | Ok members \<Rightarrow> do {
          s \<leftarrow> set_from_strings (fold hs_insert members []);
          Some (Ok (length members), st_insert dst (sv_of (FSet s)) st) }) }"

definition sunionstore :: "env \<Rightarrow> key \<Rightarrow> key list \<Rightarrow> ('z, 't) store \<Rightarrow> ('z, 't, nat) outcome" where
  "sunionstore E dst keys st = store_members dst (sunion E keys st) st"

definition sinterstore :: "env \<Rightarrow> key \<Rightarrow> key list \<Rightarrow> ('z, 't) store \<Rightarrow> ('z, 't, nat) outcome" where
  "sinterstore E dst keys st = store_members dst (sinter E keys st) st"

definition sdiffstore :: "env \<Rightarrow> key \<Rightarrow> key list \<Rightarrow> ('z, 't) store \<Rightarrow> ('z, 't, nat) outcome" where
  "sdiffstore E dst keys st = store_members dst (sdiff E keys st) st"

definition sintercard :: "env \<Rightarrow> key list \<Rightarrow> nat \<Rightarrow> ('z, 't) store \<Rightarrow> (err + nat) option" where
  "sintercard E keys limit st = do {
     r \<leftarrow> sinter E keys st;
     Some (case r of
             Err e \<Rightarrow> Err e
           | Ok members \<Rightarrow> Ok (if limit > 0 then min (length members) limit else length members)) }"

section \<open>What a client sees of a set\<close>

abbreviation set_view :: "env \<Rightarrow> key \<Rightarrow> ('z, 't) store \<Rightarrow> bytes set view" where
  "set_view \<equiv> tview as_set set_abs"

abbreviation set_after :: "env \<Rightarrow> key \<Rightarrow> bytes set view \<Rightarrow> ('z, 't) store \<Rightarrow> ('z, 't) store \<Rightarrow> bool" where
  "set_after \<equiv> tafter as_set set_abs"

text \<open>The members of a key, a missing one having none.\<close>

abbreviation members_of :: "env \<Rightarrow> ('z, 't) store \<Rightarrow> key \<Rightarrow> bytes set" where
  "members_of E st k \<equiv> view_of {} (set_view E k st)"

fun fresh_flags :: "bytes set \<Rightarrow> bytes list \<Rightarrow> bool list" where
  "fresh_flags A [] = []"
| "fresh_flags A (m # ms) = (m \<notin> A) # fresh_flags (insert m A) ms"

section \<open>Adding, removing and reading\<close>

lemma set_inserts: "set_insert_str = set_insert_small" "set_insert = set_insert_small"
  by (simp_all add: fun_eq_iff set_insert_str_def set_insert_def)

lemma set_new_law: "set_inv set_new" "set_abs set_new = {}"
  using sets.new_law by simp_all

lemma sadd_spec:
  assumes "store_ok st"
  shows "\<exists>st'. sadd E k ms st = Some (put_reply {} (\<lambda>A. Ok (card (set ms - A))) (set_view E k st), st')
    \<and> set_after E k (put_view {} (\<lambda>A. A \<union> set ms) (set_view E k st)) st st'"
  unfolding sadd_def set_inserts
  by (rule setvals.put_spec [OF assms]) (use sets.add_all [of set_new ms] set_new_law sets.add_all [of _ ms] in fastforce)+

lemma insert_members_law:
  "set_inv s \<Longrightarrow> \<exists>s'. insert_members ms s = Some (fresh_flags (set_abs s) ms, s') \<and> set_inv s' \<and> set_abs s' = set_abs s \<union> set ms"
proof (induction ms arbitrary: s)
  case (Cons m ms)
  obtain s1 where s1: "set_insert_small s m = Some (m \<notin> set_abs s, s1)" "set_inv s1" "set_abs s1 = insert m (set_abs s)"
    using set_insert_law [OF Cons.prems] by blast
  from Cons.IH [OF s1(2)] s1 show ?case by (auto simp: set_inserts)
qed simp

lemma sadd_added_flags_spec:
  assumes "store_ok st"
  shows "\<exists>st'. sadd_added_flags E k ms st = Some (put_reply {} (\<lambda>A. Ok (fresh_flags A ms)) (set_view E k st), st')
    \<and> set_after E k (put_view {} (\<lambda>A. A \<union> set ms) (set_view E k st)) st st'"
  unfolding sadd_added_flags_def
  by (rule setvals.put_spec [OF assms]) (use insert_members_law [of set_new ms] set_new_law insert_members_law [of _ ms] in fastforce)+

lemma srem_spec:
  assumes "store_ok st"
  shows "\<exists>st'. srem E k ms st = Some (put_reply {} (\<lambda>A. Ok (card (set ms \<inter> A))) (set_view E k st), st')
    \<and> set_after E k (write_view (\<lambda>A. A - set ms) (set_view E k st)) st st'"
  unfolding srem_def by (rule setvals.write_spec [OF assms]) (use sets.remove_all [of _ ms] in fastforce)+

lemma sismember_spec:
  "store_ok st \<Longrightarrow> sismember E k m st = Some (put_reply {} (\<lambda>A. Ok (m \<in> A)) (set_view E k st))"
  unfolding sismember_def by (rule setvals.read_spec) (simp_all add: set_contains_law)

lemma scard_spec: "store_ok st \<Longrightarrow> scard E k st = Some (put_reply {} (\<lambda>A. Ok (card A)) (set_view E k st))"
  unfolding scard_def by (rule setvals.read_spec) (simp_all add: set_len_law)

lemma those_contains: "set_inv s \<Longrightarrow> those (map (set_contains s) ms) = Some (map (\<lambda>m. m \<in> set_abs s) ms)"
  by (induction ms) (simp_all add: set_contains_law)

lemma smismember_spec:
  "store_ok st \<Longrightarrow> smismember E k ms st = Some (put_reply {} (\<lambda>A. Ok (map (\<lambda>m. m \<in> A) ms)) (set_view E k st))"
  unfolding smismember_def by (rule setvals.read_spec) (simp_all add: those_contains map_replicate_const)

text \<open>SADD and SREM change exactly the members they name and reply with how many that were, and SISMEMBER and SCARD
  answer for the set afterwards; a missing key is an empty set and a value of another type is refused.\<close>

theorem sadd_srem_correct:
  assumes "store_ok st"
  shows "\<exists>st1 st2. sadd E k ms st = Some (put_reply {} (\<lambda>A. Ok (card (set ms - A))) (set_view E k st), st1)
    \<and> set_after E k (put_view {} (\<lambda>A. A \<union> set ms) (set_view E k st)) st st1
    \<and> sismember E k m st1 = Some (put_reply {} (\<lambda>A. Ok (m \<in> A \<or> m \<in> set ms)) (set_view E k st))
    \<and> srem E k rs st1 = Some (put_reply {} (\<lambda>A. Ok (card (set rs \<inter> (A \<union> set ms)))) (set_view E k st), st2)
    \<and> set_after E k (put_view {} (\<lambda>A. (A \<union> set ms) - set rs) (set_view E k st)) st1 st2
    \<and> scard E k st2 = Some (put_reply {} (\<lambda>A. Ok (card ((A \<union> set ms) - set rs))) (set_view E k st))"
proof -
  obtain st1 where st1: "sadd E k ms st = Some (put_reply {} (\<lambda>A. Ok (card (set ms - A))) (set_view E k st), st1)"
    "set_after E k (put_view {} (\<lambda>A. A \<union> set ms) (set_view E k st)) st st1" using sadd_spec [OF assms] by blast
  then have ok1: "store_ok st1" and v1: "set_view E k st1 = put_view {} (\<lambda>A. A \<union> set ms) (set_view E k st)"
    by (auto simp: tafter_def)
  obtain st2 where st2: "srem E k rs st1 = Some (put_reply {} (\<lambda>A. Ok (card (set rs \<inter> A))) (set_view E k st1), st2)"
    "set_after E k (write_view (\<lambda>A. A - set rs) (set_view E k st1)) st1 st2" using srem_spec [OF ok1] by blast
  then have ok2: "store_ok st2" and v2: "set_view E k st2 = write_view (\<lambda>A. A - set rs) (set_view E k st1)"
    by (auto simp: tafter_def)
  show ?thesis
    using st1 st2 v1 v2 sismember_spec [OF ok1, of E k m] scard_spec [OF ok2, of E k]
    by (cases "set_view E k st") (auto simp: Int_Un_distrib)
qed

theorem sadd_srem_correct_witness:
  "\<exists>st1 st2. sadd env0 [107] [[1], [2]] (store_new 1 :: (unit, unit) store) = Some (Ok 2, st1)
     \<and> srem env0 [107] [[1]] st1 = Some (Ok 1, st2) \<and> scard env0 [107] st2 = Some (Ok 1)"
  using sadd_srem_correct [where st = "store_new 1 :: (unit, unit) store" and E = env0 and k = "[107]"
      and ms = "[[1], [2]]" and rs = "[[1]]" and m = "[1]"]
  by (auto simp: tview_missing)

section \<open>Taking members\<close>

lemma spop_loop_law:
  "set_inv s \<Longrightarrow> n \<le> card (set_abs s) \<Longrightarrow>
   \<exists>ms s'. spop_loop n s = Some (ms, s') \<and> set_inv s' \<and> length ms = n \<and> distinct ms \<and> set ms \<subseteq> set_abs s
     \<and> set_abs s' = set_abs s - set ms"
proof (induction n arbitrary: s)
  case (Suc n)
  have l: "distinct (set_members s)" "set (set_members s) = set_abs s" using set_members_law [OF Suc.prems(1)] by auto
  then obtain m ms where m: "map member_to_string (set_iter s) = m # ms"
    using Suc.prems(2) by (cases "set_members s") (auto simp: set_members_def)
  then have mem: "m \<in> set_abs s" using l(2) by (auto simp: set_members_def)
  obtain s1 where s1: "set_remove s m = Some (m \<in> set_abs s, s1)" "set_inv s1" "set_abs s1 = set_abs s - {m}"
    using set_remove_law [OF Suc.prems(1)] by blast
  have "n \<le> card (set_abs s1)" using Suc.prems mem s1(3) sets.fin_law [OF Suc.prems(1)] by simp
  from Suc.IH [OF s1(2) this] obtain ns s2 where ns: "spop_loop n s1 = Some (ns, s2)" "set_inv s2" "length ns = n" "distinct ns"
    "set ns \<subseteq> set_abs s1" "set_abs s2 = set_abs s1 - set ns" by blast
  show ?case using m mem s1 ns by (intro exI [of _ "m # ns"] exI [of _ s2]) auto
qed simp

text \<open>SPOP takes as many distinct members as its count asks for and the set has, and leaves the others; a missing or
  expired key gives nothing and a value of another type is refused.\<close>

theorem spop_correct:
  assumes "store_ok st" "set_view E k st \<noteq> VWrong"
  shows "\<exists>ms st'. spop E k count st = Some (Ok ms, st')
    \<and> distinct ms \<and> set ms \<subseteq> members_of E st k \<and> length ms = min count (card (members_of E st k))
    \<and> set_after E k (write_view (\<lambda>A. A - set ms) (set_view E k st)) st st'"
proof -
  let ?R = "\<lambda>A r A'. \<exists>ms. r = Ok ms \<and> distinct ms \<and> set ms \<subseteq> A \<and> length ms = min count (card A) \<and> A' = A - set ms"
  have "\<exists>r x'. reply_ok (spop_loop (min count (set_len x)) x) = Some (r, x') \<and> set_inv x' \<and> ?R (set_abs x) r (set_abs x')"
    if "set_inv x" for x
    using spop_loop_law [OF that, of "min count (set_len x)"] set_len_law [OF that] by auto
  then have "\<exists>r w st'. spop E k count st = Some (r, st') \<and> set_after E k w st st'
     \<and> (case set_view E k st of
          VMissing \<Rightarrow> r = Ok [] \<and> w = VMissing
        | VWrong \<Rightarrow> r = Err ''WRONGTYPE'' \<and> w = VWrong
        | VHas x \<Rightarrow> (\<exists>y. w = VHas y \<and> ?R x r y))"
    unfolding spop_def by (intro setvals.write_rel [OF assms(1), where R = ?R])
  with assms(2) show ?thesis by (cases "set_view E k st") fastforce+
qed

theorem spop_correct_witness:
  "\<exists>ms st'. spop env0 [107] 3 (one_key (FSet (SCompact [[97], [98]])) :: (unit, unit) store) = Some (Ok ms, st')
     \<and> length ms = 2 \<and> distinct ms \<and> set ms \<subseteq> {[97], [98]}"
proof -
  have "[97::byte] < [98]" by code_simp
  then have ok: "store_ok (one_key (FSet (SCompact [[97], [98]])) :: (unit, unit) store)" by simp
  have "set_view env0 [107] (one_key (FSet (SCompact [[97], [98]])) :: (unit, unit) store) \<noteq> VWrong" by simp
  from spop_correct [where st = "one_key (FSet (SCompact [[97], [98]])) :: (unit, unit) store" and count = 3, OF ok this]
  show ?thesis by auto
qed

section \<open>Moving a member\<close>

text \<open>Where a key holds no set, taking a member out of it changes nothing, and neither does putting one into a value of another type.\<close>

lemma no_set_idle:
  assumes "set_view E k st = VMissing \<or> set_view E k st = VWrong" "typed_write as_set FSet d E k f st = Some (r, st')"
  shows "entries st' = entries st"
  using assms
  by (auto simp: typed_write_def tview_def live_at_def st_update_with_def cm_update_with_def cm_put_def cm_touched_def fun_eq_iff
      split: option.splits bind_splits if_splits)

lemma wrong_put_idle:
  assumes "set_view E k st = VWrong" "typed_put as_set FSet E k fr f st = Some (r, st')"
  shows "entries st' = entries st"
  using assms
  by (auto simp: typed_put_def typed_closure_def tview_def live_at_def st_update_with_def cm_update_with_def cm_put_def cm_touched_def fun_eq_iff
      split: option.splits bind_splits if_splits)

text \<open>C40. SMOVE takes the member out of the source and puts it into the destination, which may be the same key, missing
  or expired, and says whether the source had it.  When it refuses because the source holds another type or lacks the member, the
  members of the source and every other key, the destination among them, stay as they were; a source that holds no set is left alone
  altogether.  When the destination holds a value of another type, that value stays, but the member has already left the source: the
  command fails with WRONGTYPE and the member is in neither key.\<close>

theorem smove_correct:
  assumes "store_ok st"
  shows "\<exists>st'. smove E src dst m st =
      Some (case set_view E src st of
              VWrong \<Rightarrow> Err ''WRONGTYPE''
            | v \<Rightarrow> if m \<notin> view_of {} v then Ok False
                 else if set_view E dst st = VWrong then Err ''WRONGTYPE'' else Ok True, st')
    \<and> store_ok st'
    \<and> (set_view E src st \<noteq> VWrong \<and> m \<in> members_of E st src \<longrightarrow>
        (if dst = src then set_view E src st' = set_view E src st
         else set_view E src st' = VHas (members_of E st src - {m})
           \<and> set_view E dst st' = put_view {} (insert m) (set_view E dst st)))
    \<and> (set_view E src st = VWrong \<or> m \<notin> members_of E st src \<longrightarrow>
        set_view E src st' = set_view E src st \<and> (\<forall>j. j \<noteq> src \<longrightarrow> entries st' j = entries st j))
    \<and> (set_view E src st = VWrong \<or> set_view E src st = VMissing \<longrightarrow> entries st' = entries st)
    \<and> (set_view E dst st = VWrong \<longrightarrow> entries st' dst = entries st dst)
    \<and> (\<forall>j. j \<noteq> src \<and> j \<noteq> dst \<longrightarrow> entries st' j = entries st j)"
proof -
  let ?A = "members_of E st src"
  have w: "\<exists>st1. typed_write as_set FSet False E src (\<lambda>s. reply_ok (set_remove s m)) st =
        Some (put_reply {} (\<lambda>A. Ok (m \<in> A)) (set_view E src st), st1)
      \<and> set_after E src (write_view (\<lambda>A. A - {m}) (set_view E src st)) st st1"
    by (rule setvals.write_spec [OF assms]) (use set_remove_law [of _ m] in fastforce)+
  then obtain st1 where st1: "typed_write as_set FSet False E src (\<lambda>s. reply_ok (set_remove s m)) st =
        Some (put_reply {} (\<lambda>A. Ok (m \<in> A)) (set_view E src st), st1)"
    "set_after E src (write_view (\<lambda>A. A - {m}) (set_view E src st)) st st1" by blast
  then have ok1: "store_ok st1" and v1: "set_view E src st1 = write_view (\<lambda>A. A - {m}) (set_view E src st)"
    and o1: "\<And>j. j \<noteq> src \<Longrightarrow> entries st1 j = entries st j" by (auto simp: tafter_def)
  have o1v: "set_view E j st1 = set_view E j st" if "j \<noteq> src" for j using tview_other [OF st1(2) that] .
  have idle: "entries st1 = entries st" if "set_view E src st = VMissing \<or> set_view E src st = VWrong"
    using no_set_idle [OF that st1(1)] .
  show ?thesis
  proof (cases "set_view E src st")
    case VMissing
    then show ?thesis using st1(1) ok1 v1 idle by (simp add: smove_def)
  next
    case VWrong
    then show ?thesis using st1(1) ok1 v1 idle by (simp add: smove_def)
  next
    case B: (VHas B)
    show ?thesis
    proof (cases "m \<in> B")
      case False
      have "entries st1 dst = entries st dst" if "set_view E dst st = VWrong" using that B o1 by (cases "dst = src") auto
      then show ?thesis using st1(1) ok1 v1 o1 B False by (simp add: smove_def)
    next
      case True
      have p: "\<exists>st'. typed_put as_set FSet E dst
              (do { (_, s) \<leftarrow> set_insert set_new m; Some (True, s) })
              (\<lambda>s. do { (_, s1) \<leftarrow> set_insert s m; Some (Ok True, s1) }) st1
          = Some (put_reply {} (\<lambda>_. Ok True) (set_view E dst st1), st')
        \<and> set_after E dst (put_view {} (insert m) (set_view E dst st1)) st1 st'"
        unfolding set_inserts
        by (rule setvals.put_spec [OF ok1]) (use set_insert_law [of _ m] set_insert_law [of set_new m] set_new_law in fastforce)+
      then obtain st' where st': "smove E src dst m st = Some (put_reply {} (\<lambda>_. Ok True) (set_view E dst st1), st')"
        "set_after E dst (put_view {} (insert m) (set_view E dst st1)) st1 st'"
        "set_view E dst st1 = VWrong \<Longrightarrow> entries st' = entries st1"
        using st1(1) B True wrong_put_idle by (auto simp: smove_def) blast
      then have ok': "store_ok st'" and v': "set_view E dst st' = put_view {} (insert m) (set_view E dst st1)"
        and o': "\<And>j. j \<noteq> dst \<Longrightarrow> entries st' j = entries st1 j" by (auto simp: tafter_def)
      have o'v: "set_view E j st' = set_view E j st1" if "j \<noteq> dst" for j using tview_other [OF st'(2) that] .
      show ?thesis
      proof (cases "dst = src")
        case True
        then show ?thesis using st'(1) ok' v' v1 B \<open>m \<in> B\<close> o' o1 by (auto simp: insert_absorb)
      next
        case False
        then show ?thesis using st'(1,3) ok' v' v1 B \<open>m \<in> B\<close> o' o1 o'v [of src] o1v [of dst]
          by (cases "set_view E dst st") auto
      qed
    qed
  qed
qed

theorem smove_correct_witness:
  "\<exists>st' st''. smove env0 [107] [108] [98] (one_key (FSet (SCompact [[97], [98]])) :: (unit, unit) store) = Some (Ok True, st')
     \<and> set_view env0 [107] st' = VHas {[97]} \<and> set_view env0 [108] st' = VHas {[98]}
     \<and> smove env0 [107] [108] [99] (one_key (FSet (SCompact [[97], [98]])) :: (unit, unit) store) = Some (Ok False, st'')
     \<and> set_view env0 [107] st'' = VHas {[97], [98]} \<and> entries st'' [108] = None"
proof -
  let ?st = "one_key (FSet (SCompact [[97], [98]])) :: (unit, unit) store"
  have "[97::byte] < [98]" by code_simp
  then have ok: "store_ok ?st" by simp
  have d: "set_view env0 [108] ?st = VMissing" by (simp add: tview_missing)
  have e: "entries ?st [108] = None" by simp
  have "\<exists>st'. smove env0 [107] [108] [98] ?st = Some (Ok True, st') \<and> set_view env0 [107] st' = VHas {[97]} \<and> set_view env0 [108] st' = VHas {[98]}"
    using smove_correct [OF ok, of env0 "[107]" "[108]" "[98]"] d by auto
  moreover have "\<exists>st''. smove env0 [107] [108] [99] ?st = Some (Ok False, st'') \<and> set_view env0 [107] st'' = VHas {[97], [98]} \<and> entries st'' [108] = None"
    using smove_correct [OF ok, of env0 "[107]" "[108]" "[99]"] e by auto
  ultimately show ?thesis by blast
qed

section \<open>Set algebra\<close>

lemma fold_hs_insert: "distinct r \<Longrightarrow> distinct (fold hs_insert xs r) \<and> set (fold hs_insert xs r) = set r \<union> set xs"
  by (induction xs arbitrary: r) (auto simp: hs_insert_def)

lemma fold_members: "set_inv s \<Longrightarrow> distinct r \<Longrightarrow>
    distinct (fold hs_insert (map member_to_string (set_iter s)) r)
  \<and> set (fold hs_insert (map member_to_string (set_iter s)) r) = set r \<union> set_abs s"
  using fold_hs_insert [of r "set_members s"] set_members_law [of s] by (simp add: set_members_def)

lemma retain_if_filter: "(\<And>x. x \<in> set xs \<Longrightarrow> p x = Some (q x)) \<Longrightarrow> retain_if p xs = Some (filter q xs)"
  by (induction xs) auto

lemma sunion_loop_law:
  assumes "store_ok st"
  shows "distinct r \<Longrightarrow> (case sunion_loop E st ks r of
      Err e \<Rightarrow> e = ''WRONGTYPE'' \<and> (\<exists>k\<in>set ks. set_view E k st = VWrong)
    | Ok u \<Rightarrow> distinct u \<and> set u = set r \<union> (\<Union>k\<in>set ks. members_of E st k) \<and> (\<forall>k\<in>set ks. set_view E k st \<noteq> VWrong))"
proof (induction ks arbitrary: r)
  case (Cons k ks)
  show ?case
  proof (rule setvals.viewE [OF assms, of E k])
    assume "set_view E k st = VMissing" "live_at E k st = None"
    then show ?thesis using Cons.IH [OF Cons.prems] by (auto simp: live_at_None split: option.split sum.splits)
  next
    fix v assume "set_view E k st = VWrong" "entries st k = Some v" "\<not> is_expired E v" "as_set (sv_value v) = None"
    then show ?thesis by simp
  next
    fix v s assume v: "set_view E k st = VHas (set_abs s)" "entries st k = Some v" "\<not> is_expired E v"
      "as_set (sv_value v) = Some s" "set_inv s"
    note f = fold_members [OF v(5) Cons.prems]
    from Cons.IH [OF conjunct1 [OF f]] v f show ?thesis by (auto split: sum.splits)
  qed
qed simp

lemma sinter_loop_law:
  assumes "store_ok st" "\<forall>k\<in>set ks. set_view E k st \<noteq> VWrong"
  shows "distinct r \<Longrightarrow> \<exists>u. sinter_loop E st ks r = Some (Ok u) \<and> distinct u \<and> set u = set r \<inter> (\<Inter>k\<in>set ks. members_of E st k)"
  using assms(2)
proof (induction ks arbitrary: r)
  case (Cons k ks)
  show ?case
  proof (rule setvals.viewE [OF assms(1), of E k])
    assume "set_view E k st = VMissing" "live_at E k st = None"
    then show ?thesis by (auto simp: live_at_None split: option.split)
  next
    fix v assume "set_view E k st = VWrong"
    with Cons.prems show ?thesis by simp
  next
    fix v s assume v: "set_view E k st = VHas (set_abs s)" "entries st k = Some v" "\<not> is_expired E v"
      "as_set (sv_value v) = Some s" "set_inv s"
    let ?r = "filter (\<lambda>m. m \<in> set_abs s) r"
    have r: "retain_if (set_contains s) r = Some ?r" by (rule retain_if_filter) (simp add: set_contains_law [OF v(5)])
    have "distinct ?r" using Cons.prems(1) by simp
    from Cons.IH [OF this] Cons.prems(2) obtain u where
      u: "sinter_loop E st ks ?r = Some (Ok u)" "distinct u" "set u = set ?r \<inter> (\<Inter>k\<in>set ks. members_of E st k)" by auto
    show ?thesis
    proof (cases "?r = []")
      case True
      then have "set r \<inter> set_abs s = {}" by (auto simp: filter_empty_conv)
      with True r v show ?thesis by auto
    next
      case False
      with u r v show ?thesis by auto
    qed
  qed
qed simp

lemma sdiff_loop_law:
  assumes "store_ok st" "\<forall>k\<in>set ks. set_view E k st \<noteq> VWrong"
  shows "distinct r \<Longrightarrow> \<exists>u. sdiff_loop E st ks r = Some (Ok u) \<and> distinct u \<and> set u = set r - (\<Union>k\<in>set ks. members_of E st k)"
  using assms(2)
proof (induction ks arbitrary: r)
  case (Cons k ks)
  show ?case
  proof (rule setvals.viewE [OF assms(1), of E k])
    assume "set_view E k st = VMissing" "live_at E k st = None"
    with Cons show ?thesis by (auto simp: live_at_None split: option.split)
  next
    fix v assume "set_view E k st = VWrong"
    with Cons.prems show ?thesis by simp
  next
    fix v s assume v: "set_view E k st = VHas (set_abs s)" "entries st k = Some v" "\<not> is_expired E v"
      "as_set (sv_value v) = Some s" "set_inv s"
    let ?r = "filter (\<lambda>m. m \<notin> set_abs s) r"
    have r: "retain_if (\<lambda>m. map_option Not (set_contains s m)) r = Some ?r"
      by (rule retain_if_filter) (simp add: set_contains_law [OF v(5)])
    have "distinct ?r" using Cons.prems(1) by simp
    from Cons.IH [OF this] Cons.prems(2) r v show ?thesis by auto
  qed
qed simp

text \<open>The first key of an intersection or a difference.\<close>

lemma first_members:
  assumes "store_ok st" "set_view E k st \<noteq> VWrong"
  obtains (missing) "members_of E st k = {}" "entries st k = None \<or> (\<exists>e. entries st k = Some e \<and> is_expired E e)"
  | (has) e s where "entries st k = Some e" "\<not> is_expired E e" "as_set (sv_value e) = Some s" "set_inv s"
      "members_of E st k = set_abs s"
proof (rule setvals.viewE [OF assms(1), of E k])
  assume "set_view E k st = VMissing" "live_at E k st = None"
  then show thesis by (intro missing) (cases "entries st k"; auto simp: live_at_None)+
qed (use assms(2) has in auto)

lemma sunion_members:
  assumes "store_ok st" "\<forall>k\<in>set keys. set_view E k st \<noteq> VWrong"
  shows "\<exists>u. sunion E keys st = Some (Ok u) \<and> distinct u \<and> set u = (\<Union>k\<in>set keys. members_of E st k)"
  using sunion_loop_law [where r = "[]" and E = E and ks = keys, OF assms(1)] assms(2) by (auto simp: sunion_def split: sum.splits)

lemma sinter_members:
  assumes "store_ok st" "\<forall>k\<in>set keys. set_view E k st \<noteq> VWrong" "keys \<noteq> []"
  shows "\<exists>u. sinter E keys st = Some (Ok u) \<and> distinct u \<and> set u = (\<Inter>k\<in>set keys. members_of E st k)"
proof -
  obtain k ks where keys: "keys = k # ks" using assms(3) by (cases keys) auto
  then have "set_view E k st \<noteq> VWrong" using assms(2) by simp
  with assms(1) show ?thesis
  proof (cases rule: first_members)
    case missing
    then show ?thesis using keys by (auto simp: sinter_def split: option.split)
  next
    case (has e s)
    let ?r = "fold hs_insert (map member_to_string (set_iter s)) []"
    have r: "distinct ?r" "set ?r = set_abs s" using fold_members [OF has(4), of "[]"] by auto
    from sinter_loop_law [OF assms(1) _ r(1), of ks E] r(2) assms(2) has keys show ?thesis by (auto simp: sinter_def)
  qed
qed

lemma sdiff_members:
  assumes "store_ok st" "\<forall>k\<in>set (k # ks). set_view E k st \<noteq> VWrong"
  shows "\<exists>u. sdiff E (k # ks) st = Some (Ok u) \<and> distinct u
    \<and> set u = members_of E st k - (\<Union>k\<in>set ks. members_of E st k)"
proof -
  have "set_view E k st \<noteq> VWrong" using assms(2) by simp
  with assms(1) show ?thesis
  proof (cases rule: first_members)
    case missing
    then show ?thesis by (auto simp: sdiff_def split: option.split)
  next
    case (has e s)
    let ?r = "fold hs_insert (map member_to_string (set_iter s)) []"
    have r: "distinct ?r" "set ?r = set_abs s" using fold_members [OF has(4), of "[]"] by auto
    from sdiff_loop_law [OF assms(1) _ r(1), of ks E] r(2) assms(2) has show ?thesis by (auto simp: sdiff_def)
  qed
qed

text \<open>C39. SUNION, SINTER and SDIFF of keys that hold sets or are missing list each member of the union, the intersection and
  the difference once.\<close>

theorem set_algebra_correct:
  assumes "store_ok st" "\<forall>j\<in>set (k # ks). set_view E j st \<noteq> VWrong"
  shows "\<exists>u i d. sunion E (k # ks) st = Some (Ok u) \<and> distinct u \<and> set u = (\<Union>j\<in>set (k # ks). members_of E st j)
    \<and> sinter E (k # ks) st = Some (Ok i) \<and> distinct i \<and> set i = (\<Inter>j\<in>set (k # ks). members_of E st j)
    \<and> sdiff E (k # ks) st = Some (Ok d) \<and> distinct d \<and> set d = members_of E st k - (\<Union>j\<in>set ks. members_of E st j)
    \<and> sintercard E (k # ks) limit st = Some (Ok (if limit = 0 then card (set i) else min limit (card (set i))))"
proof -
  obtain i where i: "sinter E (k # ks) st = Some (Ok i)" "distinct i" "set i = (\<Inter>j\<in>set (k # ks). members_of E st j)"
    using sinter_members [OF assms(1,2)] by blast
  then have "sintercard E (k # ks) limit st = Some (Ok (if limit = 0 then card (set i) else min limit (card (set i))))"
    unfolding distinct_card [OF i(2)] by (simp add: sintercard_def min.commute)
  moreover obtain u where "sunion E (k # ks) st = Some (Ok u)" "distinct u" "set u = (\<Union>j\<in>set (k # ks). members_of E st j)"
    using sunion_members [OF assms] by blast
  moreover obtain d where "sdiff E (k # ks) st = Some (Ok d)" "distinct d"
    "set d = members_of E st k - (\<Union>j\<in>set ks. members_of E st j)" using sdiff_members [OF assms] by blast
  ultimately show ?thesis using i by (intro exI [of _ u] exI [of _ i] exI [of _ d] conjI)
qed

theorem set_algebra_correct_witness:
  "\<exists>i. sinter env0 [[107], [108]] (one_key (FSet (SCompact [[97]])) :: (unit, unit) store) = Some (Ok i) \<and> i = []"
proof -
  let ?st = "one_key (FSet (SCompact [[97]])) :: (unit, unit) store"
  have m: "set_view env0 [108] ?st = VMissing" by (simp add: tview_missing)
  have "\<forall>j\<in>set [[107], [108]]. set_view env0 j ?st \<noteq> VWrong" using m by simp
  from set_algebra_correct [OF _ this, of 0] show ?thesis using m by auto
qed

text \<open>The storing forms replace the destination, whatever it held, by a set of exactly those members without an expiry, and
  reply with their number.\<close>

theorem set_store_correct:
  assumes "store_ok st" "\<forall>j\<in>set (k # ks). set_view E j st \<noteq> VWrong"
  shows "(\<exists>st'. sunionstore E dst (k # ks) st = Some (Ok (card (\<Union>j\<in>set (k # ks). members_of E st j)), st')
      \<and> set_after E dst (VHas (\<Union>j\<in>set (k # ks). members_of E st j)) st st')
    \<and> (\<exists>st'. sinterstore E dst (k # ks) st = Some (Ok (card (\<Inter>j\<in>set (k # ks). members_of E st j)), st')
      \<and> set_after E dst (VHas (\<Inter>j\<in>set (k # ks). members_of E st j)) st st')
    \<and> (\<exists>st'. sdiffstore E dst (k # ks) st = Some (Ok (card (members_of E st k - (\<Union>j\<in>set ks. members_of E st j))), st')
      \<and> set_after E dst (VHas (members_of E st k - (\<Union>j\<in>set ks. members_of E st j))) st st')"
proof -
  have store: "\<exists>st'. store_members dst (Some (Ok u)) st = Some (Ok (card A), st') \<and> set_after E dst (VHas A) st st'"
    if u: "distinct u" "set u = A" for u A
  proof -
    obtain s where s: "set_from_strings (fold hs_insert u []) = Some s" "set_inv s" "set_abs s = A"
      using set_from_strings_abs [of "fold hs_insert u []"] fold_hs_insert [of "[]" u] u by auto
    have "set_after E dst (VHas A) st (st_insert dst (sv_of (FSet s)) st)"
      using setvals.after_changes [OF assms(1) st_insert_changes, of E "sv_of (FSet s)" s] s by (simp add: sv_of_def is_expired_def)
    with s u distinct_card [OF u(1)] show ?thesis by (auto simp: store_members_def)
  qed
  have stored: "\<exists>st'. store_members dst r st = Some (Ok (card A), st') \<and> set_after E dst (VHas A) st st'"
    if "\<exists>u. r = Some (Ok u) \<and> distinct u \<and> set u = A" for r A
    using that store by blast
  show ?thesis
    unfolding sunionstore_def sinterstore_def sdiffstore_def
    by (intro conjI stored sunion_members [OF assms] sinter_members [OF assms] sdiff_members [OF assms]) simp
qed

theorem set_store_correct_witness:
  "\<exists>st'. sdiffstore env0 [108] [[107], [109]] (one_key (FSet (SCompact [[97]])) :: (unit, unit) store) = Some (Ok 1, st')
     \<and> set_view env0 [108] st' = VHas {[97]}"
proof -
  let ?st = "one_key (FSet (SCompact [[97]])) :: (unit, unit) store"
  have m: "set_view env0 [109] ?st = VMissing" by (simp add: tview_missing)
  have "\<forall>j\<in>set [[107], [109]]. set_view env0 j ?st \<noteq> VWrong" using m by simp
  from set_store_correct [OF _ this, of "[108]"] show ?thesis using m by (auto simp: tafter_def)
qed

section \<open>Listings and random picks\<close>

interpretation set_lists: typed_value as_set FSet set_inv set_iter
  by unfold_locales (simp_all add: setvals.proj_law)

lemma smembers_spec:
  assumes "store_ok st"
  shows "\<exists>ms. distinct ms \<and> set ms = members_of E st k
    \<and> smembers E k st = Some (if set_view E k st = VWrong then Err ''WRONGTYPE'' else Ok ms)"
proof (rule setvals.viewE [OF assms, of E k])
  fix v s assume v: "set_view E k st = VHas (set_abs s)" "entries st k = Some v" "\<not> is_expired E v"
      "as_set (sv_value v) = Some s" "set_inv s"
  then show ?thesis using set_members_law [OF v(5)]
    by (intro exI [of _ "set_members s"]) (simp add: smembers_def typed_read_def set_members_def)
qed (auto simp: smembers_def typed_read_def live_at_None split: option.split)

lemma emits_write_bulk_to:
  assumes "case m of MInteger n \<Rightarrow> in_i64 n | MString s \<Rightarrow> renders s"
  shows "emits (\<lambda>out. write_bulk_to out m) (resp_bulk (member_to_string m))"
proof (cases m)
  case (MInteger n)
  then have n: "in_i64 n" using assms by simp
  have "length (idec n) \<le> 20"
    using length_dec_i64 [of "nat \<bar>n\<bar>"] n by (auto simp: idec_def in_i64_def i64_min_def i64_max_def nat_le_iff)
  then have "emits (\<lambda>out. write_bulk out (idec n)) (resp_bulk (idec n))" by (intro emits_write_bulk) simp
  then show ?thesis using MInteger write_int_to_idec [OF n length_replicate] by (simp add: write_bulk_to_def member_to_string_def)
next
  case (MString s)
  then show ?thesis using assms by (simp add: write_bulk_to_def member_to_string_def emits_renders)
qed

text \<open>C40. SMEMBERS written into the reply buffer is the RESP array of the members, each once, when every member that is
  kept as a string is one that \<^verbatim>\<open>write_resp\<close> renders well.\<close>

theorem smembers_to_buf_correct:
  assumes "store_ok st" "ob_ok out" "card (members_of E st k) < 2 ^ 64" "set_view E k st \<noteq> VWrong"
    and "\<forall>m\<in>members_of E st k. renders m"
  shows "\<exists>ms out'. smembers_to_buf E k out st = Some (Ok (length ms), out') \<and> distinct ms \<and> set ms = members_of E st k
    \<and> ob_bytes out' = ob_bytes out @ resp_array_header (length ms) @ concat (map resp_bulk ms)"
proof -
  let ?v = "tview as_set set_iter E k st"
  let ?ms = "map member_to_string (view_of [] ?v)"
  have it: "set_len s = length (set_iter s) \<and> Some (set_iter s) = Some (set_iter s)" for s
    by (cases s) (simp_all add: set_len_def set_iter_def)
  have v: "?v \<noteq> VWrong" and ms: "distinct ?ms \<and> set ?ms = members_of E st k"
    and ints: "\<forall>m\<in>set (view_of [] ?v). case m of MInteger n \<Rightarrow> in_i64 n | MString s \<Rightarrow> renders s"
  proof -
    have "?v \<noteq> VWrong \<and> (distinct ?ms \<and> set ?ms = members_of E st k)
       \<and> (\<forall>m\<in>set (view_of [] ?v). case m of MInteger n \<Rightarrow> in_i64 n | MString s \<Rightarrow> renders s)"
    proof (rule setvals.viewE [OF assms(1), of E k])
      fix v s assume v: "set_view E k st = VHas (set_abs s)" "entries st k = Some v" "\<not> is_expired E v"
        "as_set (sv_value v) = Some s" "set_inv s"
      moreover have "\<forall>m\<in>set (set_iter s). case m of MInteger n \<Rightarrow> in_i64 n | MString s \<Rightarrow> renders s"
        using v(1,5) assms(5) by (cases s) (auto simp: set_iter_def)
      ultimately show ?thesis using set_members_law [OF v(5)] by (simp add: tview_def live_at_def set_members_def)
    qed (use assms(4) in \<open>simp_all add: tview_def\<close>)
    then show "?v \<noteq> VWrong" "distinct ?ms \<and> set ?ms = members_of E st k"
      "\<forall>m\<in>set (view_of [] ?v). case m of MInteger n \<Rightarrow> in_i64 n | MString s \<Rightarrow> renders s" by blast+
  qed
  have e: "\<forall>m\<in>set (view_of [] ?v). emits (\<lambda>out. write_bulk_to out m) (resp_bulk (member_to_string m))"
    using ints emits_write_bulk_to by blast
  have n: "length (view_of [] ?v) * 1 < 2 ^ 64" using ms assms(3) distinct_card [of ?ms] by simp
  from set_lists.to_buf_spec [where el = "\<lambda>l. l" and d = "[]", OF assms(1,2) it refl n e, of 20] v ms
  show ?thesis unfolding smembers_to_buf_def by (intro exI [of _ ?ms]) (auto simp: comp_def)
qed

theorem smembers_to_buf_correct_witness:
  "\<exists>out'. smembers_to_buf env0 [107] \<lparr>ob_mem = [], ob_len = 0\<rparr> (one_key (FSet (SIntegers [5])) :: (unit, unit) store) = Some (Ok 1, out')
     \<and> ob_bytes out' = resp_array_header 1 @ resp_bulk (idec 5)"
proof -
  let ?st = "one_key (FSet (SIntegers [5])) :: (unit, unit) store"
  have ok: "store_ok ?st" "ob_ok \<lparr>ob_mem = [], ob_len = 0\<rparr>" by (simp_all add: in_i64_def i64_min_def i64_max_def ob_ok_def)
  have m: "members_of env0 ?st [107] = {idec 5}" by simp
  have r: "renders (idec 5)" by (simp add: renders_def idec_def dec_less)
  have "\<exists>ms out'. smembers_to_buf env0 [107] \<lparr>ob_mem = [], ob_len = 0\<rparr> ?st = Some (Ok (length ms), out') \<and> distinct ms
      \<and> set ms = members_of env0 ?st [107]
      \<and> ob_bytes out' = ob_bytes \<lparr>ob_mem = [], ob_len = 0\<rparr> @ resp_array_header (length ms) @ concat (map resp_bulk ms)"
    by (rule smembers_to_buf_correct [OF ok]) (use m r in auto)
  then obtain ms out' where ms: "smembers_to_buf env0 [107] \<lparr>ob_mem = [], ob_len = 0\<rparr> ?st = Some (Ok (length ms), out')"
    "distinct ms" "set ms = {idec 5}" "ob_bytes out' = resp_array_header (length ms) @ concat (map resp_bulk ms)"
    using m by (auto simp: ob_bytes_def)
  then have "length ms = 1" using distinct_card [OF ms(2)] by simp
  then have "ms = [idec 5]" using ms(3) by (cases ms) auto
  with ms show ?thesis by auto
qed

lemma vget_pick:
  assumes "xs \<noteq> []"
  shows "\<exists>ys. those (map (\<lambda>i. vget xs (pick seed (length xs) i)) is) = Some ys \<and> length ys = length is \<and> set ys \<subseteq> set xs"
proof (induction "is")
  case (Cons i js)
  have "pick seed (length xs) i < length xs" using assms by (simp add: pick_def)
  with Cons show ?case by (auto simp: vget_def)
qed simp

lemma srandmember_spec:
  assumes "store_ok st" "set_view E k st \<noteq> VWrong" "in_i64 count" "- count < 2 ^ 58"
  shows "\<exists>ms. srandmember E k count st = Some (Ok ms) \<and> set ms \<subseteq> members_of E st k
    \<and> (if count \<ge> 0 then distinct ms \<and> length ms = min (nat count) (card (members_of E st k))
       else members_of E st k \<noteq> {} \<longrightarrow> length ms = nat (- count))"
proof (rule setvals.viewE [OF assms(1), of E k])
  fix v s assume v: "set_view E k st = VHas (set_abs s)" "entries st k = Some v" "\<not> is_expired E v"
      "as_set (sv_value v) = Some s" "set_inv s"
  note m = set_members_law [OF v(5)] set_len_law [OF v(5)]
  have len: "length (set_members s) = card (set_abs s)" using m distinct_card [of "set_members s"] by simp
  show ?thesis
  proof (cases "set_len s = 0")
    case True
    then have "set_members s = []" using len m by simp
    then have "set_abs s = {}" using m by auto
    then show ?thesis using v True by (simp add: srandmember_def typed_read_def set_is_empty_def)
  next
    case False
    then have ne: "set_members s \<noteq> []" using len m by auto
    show ?thesis
    proof (cases "count \<ge> 0")
      case True
      then show ?thesis using v False m len
        by (auto simp: srandmember_def typed_read_def set_is_empty_def set_members_def [symmetric] dest: in_set_takeD)
    next
      case neg: False
      have n: "neg_count count = nat (- count)" using neg assms(3)
        by (simp add: neg_count_def in_i64_def i64_min_def i64_max_def)
      have "\<not> nat (- count) * 24 > isize_max" using assms(4) by (simp add: isize_max_def)
      with vget_pick [OF ne, of "now_ms E" "[0..<nat (- count)]"] n neg v False m show ?thesis
        by (auto simp: srandmember_def typed_read_def set_is_empty_def set_members_def [symmetric] Let_def)
    qed
  qed
qed (use assms(2) in \<open>auto simp: srandmember_def typed_read_def live_at_None split: option.split\<close>)

end
