(* ===== verification/EntryState.thy ===== *)
theory EntryState
  imports Prelude
begin

text \<open>
  The 64-bit words of the concurrent map (\<^verbatim>\<open>crates/customhash/src/shard.rs\<close>): the state word of an entry, with its
  lock bit, occupied bit, sequence number, snapshot bit and the low half of the hash, and the slot
  word that packs an entry pointer with a tag of the hash.
\<close>

unbundle bit_operations_syntax

section \<open>The state word\<close>

definition STATE_LOCK :: "64 word" where "STATE_LOCK = 1"

definition STATE_OCCUPIED :: "64 word" where "STATE_OCCUPIED = push_bit 1 1"

definition STATE_SEQ_ONE :: "64 word" where "STATE_SEQ_ONE = push_bit 2 1"

definition STATE_SEQ_MASK :: "64 word" where "STATE_SEQ_MASK = push_bit 2 (push_bit 29 1 - 1)"

definition STATE_SNAP :: "64 word" where "STATE_SNAP = push_bit 31 1"

definition STATE_MATCH_MASK :: "64 word" where
  "STATE_MATCH_MASK = 0xFFFFFFFF00000000 OR STATE_OCCUPIED OR STATE_LOCK"

definition hash_bits :: "64 word \<Rightarrow> 64 word" where
  "hash_bits hash = push_bit 32 (ucast (ucast hash :: 32 word))"

definition stored_hash :: "64 word \<Rightarrow> 64 word" where
  "stored_hash state = drop_bit 32 state"

definition state_seq :: "64 word \<Rightarrow> 32 word" where
  "state_seq state = ucast (drop_bit 2 (state AND STATE_SEQ_MASK))"

definition bump_seq :: "64 word \<Rightarrow> 64 word" where
  "bump_seq state = (state AND NOT STATE_SEQ_MASK) OR ((state + STATE_SEQ_ONE) AND STATE_SEQ_MASK)"

definition state_occupied :: "64 word \<Rightarrow> bool" where
  "state_occupied state \<longleftrightarrow> state AND STATE_OCCUPIED \<noteq> 0"

definition state_set_occupied :: "64 word \<Rightarrow> bool \<Rightarrow> 64 word" where
  "state_set_occupied state occupied = (if occupied then state OR STATE_OCCUPIED else state AND NOT STATE_OCCUPIED)"

text \<open>A thread that finds the lock taken waits for it; with no other thread to release it the wait does not end.\<close>

definition state_lock :: "64 word \<Rightarrow> 64 word option" where
  "state_lock state = (if state AND STATE_LOCK \<noteq> 0 then None else Some (state OR STATE_LOCK))"

definition state_unlock :: "64 word \<Rightarrow> 64 word" where
  "state_unlock state = state AND NOT STATE_LOCK"

definition write_begin :: "64 word \<Rightarrow> 64 word" where
  "write_begin state = bump_seq state"

definition write_end :: "64 word \<Rightarrow> bool \<Rightarrow> 64 word" where
  "write_end state occupied =
     (let next = bump_seq state AND NOT STATE_LOCK in
      if occupied then next OR STATE_OCCUPIED else next AND NOT STATE_OCCUPIED)"

definition unlock_write :: "64 word \<Rightarrow> bool \<Rightarrow> 64 word" where
  "unlock_write locked occupied =
     (if occupied then (bump_seq locked AND NOT STATE_LOCK) OR STATE_OCCUPIED
      else (bump_seq locked AND NOT STATE_LOCK) AND NOT STATE_OCCUPIED)"

section \<open>The slot word\<close>

definition TAG_FLAG :: "64 word" where "TAG_FLAG = push_bit 63 1"

definition TAG_BITS :: nat where "TAG_BITS = 14"

definition TAG_SHIFT :: nat where "TAG_SHIFT = 49"

definition TAG_MAX :: "64 word" where "TAG_MAX = push_bit TAG_BITS 1 - 1"

definition TAG_MASK :: "64 word" where "TAG_MASK = push_bit TAG_SHIFT TAG_MAX"

definition RESERVED_MASK :: "64 word" where "RESERVED_MASK = TAG_MASK OR TAG_FLAG"

definition PTR_MASK :: "64 word" where "PTR_MASK = NOT RESERVED_MASK"

definition hash_tag :: "64 word \<Rightarrow> 64 word" where
  "hash_tag hash = drop_bit 18 hash AND TAG_MAX"

definition encode :: "64 word \<Rightarrow> 64 word \<Rightarrow> 64 word" where
  "encode addr hash =
     (if addr AND RESERVED_MASK \<noteq> 0 then addr
      else addr OR TAG_FLAG OR push_bit TAG_SHIFT (hash_tag hash))"

definition decode :: "64 word \<Rightarrow> 64 word" where
  "decode word = (if word AND TAG_FLAG \<noteq> 0 then word AND PTR_MASK else word)"

definition load_if_tag_matches :: "64 word \<Rightarrow> 64 word \<Rightarrow> 64 word option" where
  "load_if_tag_matches word hash =
     (if word = 0 then Some 0
      else if word AND TAG_FLAG \<noteq> 0 then
        (let expected_tag = push_bit TAG_SHIFT (hash_tag hash) OR TAG_FLAG in
         if word AND RESERVED_MASK \<noteq> expected_tag then None else Some (word AND PTR_MASK))
      else Some word)"

text \<open>What a probe compares: the tag and the flag, read from the top bits of the slot word.\<close>

definition expected_hi :: "64 word \<Rightarrow> 16 word" where
  "expected_hi hash = ucast (hash_tag hash OR push_bit TAG_BITS 1)"

definition word_hi :: "64 word \<Rightarrow> 16 word" where
  "word_hi word = ucast (drop_bit TAG_SHIFT word)"

definition expected_match :: "64 word \<Rightarrow> 64 word" where
  "expected_match hash = hash_bits hash OR STATE_OCCUPIED"

section \<open>Table sizes\<close>

definition LOAD_NUM :: nat where "LOAD_NUM = 2"

definition LOAD_DEN :: nat where "LOAD_DEN = 3"

definition INITIAL_SHARD_CAPACITY :: nat where "INITIAL_SHARD_CAPACITY = 16384"

text \<open>\<^verbatim>\<open>usize::next_power_of_two\<close>: the smallest power of two that is not below the argument.\<close>

function pow2_from :: "nat \<Rightarrow> nat \<Rightarrow> nat" where
  "pow2_from p n = (if p = 0 \<or> n \<le> p then p else pow2_from (2 * p) n)"
  by pat_completeness auto

termination pow2_from by (relation "measure (\<lambda>(p, n). n - p)") auto

declare pow2_from.simps [simp del]

definition next_power_of_two :: "nat \<Rightarrow> nat" where
  "next_power_of_two n = pow2_from 1 n"

definition capacity_for :: "nat \<Rightarrow> nat" where
  "capacity_for live = max (next_power_of_two ((live + 1) * LOAD_DEN div LOAD_NUM + 1)) 8"

definition dead_estimate :: "nat \<Rightarrow> nat \<Rightarrow> nat" where
  "dead_estimate len live = len - live"

abbreviation low_hash :: "64 word \<Rightarrow> 64 word" where
  "low_hash h \<equiv> ucast (ucast h :: 32 word)"

section \<open>Bits of the constants\<close>

lemma bit_consts:
  "bit STATE_LOCK n \<longleftrightarrow> n = 0"
  "bit STATE_OCCUPIED n \<longleftrightarrow> n = 1"
  "bit STATE_SNAP n \<longleftrightarrow> n = 31"
  "bit TAG_FLAG n \<longleftrightarrow> n = 63"
  unfolding STATE_LOCK_def STATE_OCCUPIED_def STATE_SNAP_def TAG_FLAG_def bit_push_bit_iff bit_1_iff possible_bit_word
  by auto

lemma bit_SEQ_MASK: "bit STATE_SEQ_MASK n \<longleftrightarrow> 2 \<le> n \<and> n < 31"
proof -
  have m: "push_bit 29 1 - 1 = (mask 29 :: 64 word)" by (simp add: mask_eq_exp_minus_1 push_bit_eq_mult)
  show ?thesis unfolding STATE_SEQ_MASK_def m bit_push_bit_iff bit_mask_iff possible_bit_word by auto
qed

lemma bit_TAG_MAX: "bit TAG_MAX n \<longleftrightarrow> n < 14"
proof -
  have m: "TAG_MAX = mask 14" by (simp add: TAG_MAX_def TAG_BITS_def mask_eq_exp_minus_1 push_bit_eq_mult)
  show ?thesis unfolding m bit_mask_iff possible_bit_word by auto
qed

lemma bit_RESERVED_MASK: "bit RESERVED_MASK n \<longleftrightarrow> 49 \<le> n \<and> n < 64"
  by (auto simp: RESERVED_MASK_def TAG_MASK_def bit_simps bit_TAG_MAX bit_consts TAG_SHIFT_def)

lemma bit_MATCH_MASK: "bit STATE_MATCH_MASK n \<longleftrightarrow> n = 0 \<or> n = 1 \<or> (32 \<le> n \<and> n < 64)"
proof -
  have m: "(0xFFFFFFFF00000000 :: 64 word) = push_bit 32 (mask 32)" by (simp add: mask_eq_exp_minus_1 push_bit_eq_mult)
  have "bit (0xFFFFFFFF00000000 :: 64 word) n \<longleftrightarrow> 32 \<le> n \<and> n < 64" unfolding m bit_push_bit_iff bit_mask_iff possible_bit_word by auto
  then show ?thesis by (auto simp: STATE_MATCH_MASK_def bit_simps bit_consts)
qed

lemma word64_eq_iff: "(a :: 64 word) = b \<longleftrightarrow> (\<forall>n. bit a n = bit b n)"
  by (auto intro: bit_word_eqI)

lemma word16_eq_iff: "(a :: 16 word) = b \<longleftrightarrow> (\<forall>n. bit a n = bit b n)"
  by (auto intro: bit_word_eqI)

lemma and_single_bit: "w AND c \<noteq> 0 \<longleftrightarrow> bit w n" if "\<And>m. bit c m \<longleftrightarrow> m = n" for w c :: "64 word"
  using that by (auto simp: word64_eq_iff bit_and_iff)

lemma state_occupied_bit: "state_occupied s \<longleftrightarrow> bit s 1"
  unfolding state_occupied_def by (rule and_single_bit) (simp add: bit_consts)

lemma lock_bit: "s AND STATE_LOCK \<noteq> 0 \<longleftrightarrow> bit s 0"
  by (rule and_single_bit) (simp add: bit_consts)

lemma snap_bit: "s AND STATE_SNAP \<noteq> 0 \<longleftrightarrow> bit s 31"
  by (rule and_single_bit) (simp add: bit_consts)

lemma flag_bit: "w AND TAG_FLAG \<noteq> 0 \<longleftrightarrow> bit w 63"
  by (rule and_single_bit) (simp add: bit_consts)

lemma snap_eq: "s AND STATE_SNAP = p \<longleftrightarrow> (bit s 31 \<longleftrightarrow> bit p 31)" if "p = 0 \<or> p = STATE_SNAP"
proof -
  have "s AND STATE_SNAP = (if bit s 31 then STATE_SNAP else 0)"
    by (rule bit_word_eqI) (auto simp: bit_and_iff bit_consts)
  moreover have "STATE_SNAP \<noteq> 0" using bit_consts(3) [of 31] by auto
  ultimately show ?thesis using that by (auto simp: bit_consts)
qed

text \<open>The bits of a state word after each operation; the sequence number is bits 2 to 30.\<close>

lemma bit_bump_seq: "n < 2 \<or> 31 \<le> n \<Longrightarrow> bit (bump_seq s) n = bit s n"
  by (auto simp: bump_seq_def bit_or_iff bit_and_iff bit_not_iff bit_SEQ_MASK dest: bit_imp_le_length)

lemma bit_write_end:
  "n < 2 \<or> 31 \<le> n \<Longrightarrow> bit (write_end s occ) n = (if n = 0 then False else if n = 1 then occ else bit s n)"
  by (auto simp: write_end_def Let_def bit_or_iff bit_and_iff bit_not_iff bit_consts bit_bump_seq dest: bit_imp_le_length)

text \<open>The lowest bit of the sequence number tells a write in progress.\<close>

lemma bit_add_4: "bit (s + 4) 2 \<longleftrightarrow> \<not> bit s 2" for s :: "64 word"
proof -
  have b: "bit w 2 \<longleftrightarrow> bit (unat w) 2" for w :: "64 word"
    using bit_unsigned_iff [of w 2, where 'a = nat] bit_imp_le_length [of w 2] by auto
  have "unat (s + 4) = take_bit 64 (unat s + 4)" by (simp add: unat_word_ariths take_bit_eq_mod)
  moreover have "bit (n + 4) 2 \<longleftrightarrow> \<not> bit n 2" for n :: nat by (simp add: bit_iff_odd) presburger
  ultimately show ?thesis unfolding b by (simp add: bit_take_bit_iff)
qed

lemma bit_bump_2: "bit (bump_seq s) 2 \<longleftrightarrow> \<not> bit s 2"
proof -
  have e: "STATE_SEQ_ONE = 4" by (simp add: STATE_SEQ_ONE_def push_bit_eq_mult)
  show ?thesis unfolding bump_seq_def e by (simp add: bit_or_iff bit_and_iff bit_not_iff bit_SEQ_MASK bit_add_4)
qed

lemma bit_write_end_2: "bit (write_end s occ) 2 \<longleftrightarrow> \<not> bit s 2"
  using bit_bump_2 [of s] by (auto simp: write_end_def Let_def bit_or_iff bit_and_iff bit_not_iff bit_consts)

lemma unlock_write_end: "unlock_write s occ = write_end s occ"
  by (simp add: unlock_write_def write_end_def Let_def)

lemma bit_state_lock: "state_lock s = Some s' \<Longrightarrow> bit s' n = (n = 0 \<or> bit s n)"
  by (auto simp: state_lock_def bit_or_iff bit_consts split: if_splits)

lemma state_lock_free: "\<not> bit s 0 \<Longrightarrow> state_lock s = Some (s OR STATE_LOCK)"
  by (simp add: state_lock_def lock_bit)

lemma state_lock_taken: "bit s 0 \<Longrightarrow> state_lock s = None"
  using lock_bit [of s] by (simp add: state_lock_def)

lemma bit_stored_hash: "bit (stored_hash s) n = bit s (n + 32)"
  by (simp add: stored_hash_def bit_drop_bit_eq add.commute)

lemma low_hash_bit: "bit (ucast (ucast (h :: 64 word) :: 32 word) :: 64 word) n \<longleftrightarrow> n < 32 \<and> bit h n"
  by (auto simp: bit_ucast_iff dest: bit_imp_le_length)

lemma hash_bits_bit: "bit (hash_bits h) n \<longleftrightarrow> 32 \<le> n \<and> n < 64 \<and> bit h (n - 32)"
  by (auto simp: hash_bits_def bit_push_bit_iff low_hash_bit)

lemma match_iff:
  "s AND STATE_MATCH_MASK = expected_match h \<longleftrightarrow> stored_hash s = low_hash h \<and> bit s 1 \<and> \<not> bit s 0"
proof -
  have "s AND STATE_MATCH_MASK = expected_match h \<longleftrightarrow>
      (\<forall>n. (bit s n \<and> (n = 0 \<or> n = 1 \<or> 32 \<le> n \<and> n < 64)) = ((32 \<le> n \<and> n < 64 \<and> bit h (n - 32)) \<or> n = 1))"
    by (auto simp: word64_eq_iff bit_and_iff bit_or_iff bit_MATCH_MASK expected_match_def hash_bits_bit bit_consts)
  also have "\<dots> \<longleftrightarrow> (\<forall>n < 32. bit s (n + 32) = bit h n) \<and> bit s 1 \<and> \<not> bit s 0"
  proof (rule iffI; intro conjI allI impI)
    assume a: "\<forall>n. (bit s n \<and> (n = 0 \<or> n = 1 \<or> 32 \<le> n \<and> n < 64)) = ((32 \<le> n \<and> n < 64 \<and> bit h (n - 32)) \<or> n = 1)"
    show "bit s (n + 32) = bit h n" if "n < 32" for n using a [rule_format, of "n + 32"] that by auto
    show "bit s 1" using a [rule_format, of 1] by auto
    show "\<not> bit s 0" using a [rule_format, of 0] by auto
  next
    fix n assume a: "(\<forall>n < 32. bit s (n + 32) = bit h n) \<and> bit s 1 \<and> \<not> bit s 0"
    show "(bit s n \<and> (n = 0 \<or> n = 1 \<or> 32 \<le> n \<and> n < 64)) = ((32 \<le> n \<and> n < 64 \<and> bit h (n - 32)) \<or> n = 1)"
    proof (cases "32 \<le> n \<and> n < 64")
      case True
      then have "bit s (n - 32 + 32) = bit h (n - 32)" using a by (intro a [THEN conjunct1, rule_format]) auto
      then show ?thesis using True by auto
    next
      case False
      then show ?thesis using a by (metis zero_neq_one)
    qed
  qed
  also have "(\<forall>n < 32. bit s (n + 32) = bit h n) \<longleftrightarrow> stored_hash s = low_hash h"
    using bit_imp_le_length [of s] by (fastforce simp: word64_eq_iff bit_stored_hash low_hash_bit)
  finally show ?thesis .
qed

lemma stored_hash_cong: "(\<And>n. 32 \<le> n \<Longrightarrow> bit s n = bit s' n) \<Longrightarrow> stored_hash s = stored_hash s'"
  by (rule bit_word_eqI) (simp add: bit_stored_hash)

section \<open>Slot words\<close>

text \<open>A pointer whose reserved bits are clear comes back from its tagged word.\<close>

lemma bit_hash_tag: "bit (hash_tag h) n \<longleftrightarrow> n < 14 \<and> bit h (n + 18)"
  by (auto simp: hash_tag_def bit_and_iff bit_drop_bit_eq bit_TAG_MAX add.commute)

lemma plain_ptr: "a AND RESERVED_MASK = 0 \<longleftrightarrow> (\<forall>n \<ge> 49. \<not> bit a n)"
proof -
  have "a AND RESERVED_MASK = 0 \<longleftrightarrow> (\<forall>n. \<not> (bit a n \<and> 49 \<le> n \<and> n < 64))"
    by (simp add: word64_eq_iff bit_and_iff bit_RESERVED_MASK)
  also have "\<dots> \<longleftrightarrow> (\<forall>n \<ge> 49. \<not> bit a n)" using bit_imp_le_length [of a] by auto
  finally show ?thesis .
qed

lemma bit_encode:
  "a AND RESERVED_MASK = 0 \<Longrightarrow> bit (encode a h) n \<longleftrightarrow> n = 63 \<or> (49 \<le> n \<and> n < 63 \<and> bit h (n - 31)) \<or> bit a n"
  by (auto simp: encode_def bit_or_iff bit_consts bit_push_bit_iff bit_hash_tag TAG_SHIFT_def)

lemma bit_PTR_MASK: "bit PTR_MASK n \<longleftrightarrow> n < 49"
  by (auto simp: PTR_MASK_def bit_not_iff bit_RESERVED_MASK)

lemma encode_ptr: "a AND RESERVED_MASK = 0 \<Longrightarrow> encode a h AND PTR_MASK = a"
  by (rule bit_word_eqI) (auto simp: bit_and_iff bit_PTR_MASK bit_encode plain_ptr not_le)

lemma encode_nonzero: "a AND RESERVED_MASK = 0 \<Longrightarrow> encode a h \<noteq> 0"
  using bit_encode [of a h 63] by auto

lemma decode_encode: "decode (encode a h) = (if a AND RESERVED_MASK = 0 then a else decode a)"
proof (cases "a AND RESERVED_MASK = 0")
  case True
  then have "encode a h AND TAG_FLAG \<noteq> 0" by (simp add: flag_bit bit_encode)
  then show ?thesis using True by (simp add: decode_def encode_ptr)
qed (simp add: encode_def)

lemma hi_eq: "word_hi w = expected_hi h \<longleftrightarrow> bit w 63 \<and> (\<forall>m. 49 \<le> m \<and> m < 63 \<longrightarrow> bit w m = bit h (m - 31))"
proof -
  have hi: "bit (word_hi w) n \<longleftrightarrow> n < 16 \<and> bit w (49 + n)" for n
    by (auto simp: word_hi_def bit_ucast_iff bit_drop_bit_eq TAG_SHIFT_def)
  have p: "bit (push_bit TAG_BITS 1 :: 64 word) n \<longleftrightarrow> n = 14" for n
    unfolding TAG_BITS_def bit_push_bit_iff bit_1_iff possible_bit_word by auto
  have ex: "bit (expected_hi h) n \<longleftrightarrow> n < 14 \<and> bit h (n + 18) \<or> n = 14" for n
    unfolding expected_hi_def bit_ucast_iff bit_or_iff bit_hash_tag p possible_bit_word by auto
  show ?thesis
  proof
    assume a: "word_hi w = expected_hi h"
    have "bit w 63" using hi [of 14] ex [of 14] a by simp
    moreover have "bit w m = bit h (m - 31)" if "49 \<le> m" "m < 63" for m
    proof -
      have m: "m - 49 + 18 = m - 31" "49 + (m - 49) = m" "m - 49 < 14" "m - 49 < 16" "m - 49 \<noteq> 14" using that by auto
      show ?thesis using hi [of "m - 49"] ex [of "m - 49"] a m(3-5) unfolding m(1,2) by simp
    qed
    ultimately show "bit w 63 \<and> (\<forall>m. 49 \<le> m \<and> m < 63 \<longrightarrow> bit w m = bit h (m - 31))" by blast
  next
    assume a: "bit w 63 \<and> (\<forall>m. 49 \<le> m \<and> m < 63 \<longrightarrow> bit w m = bit h (m - 31))"
    have "\<not> bit w 64" using bit_imp_le_length [of w 64] by auto
    have "bit (word_hi w) n = bit (expected_hi h) n" for n
    proof -
      consider "n < 14" | "n = 14" | "n = 15" | "16 \<le> n" by linarith
      then show ?thesis
      proof cases
        case 1
        then have "bit w (49 + n) = bit h (49 + n - 31)" using a by auto
        moreover have "49 + n - 31 = n + 18" by simp
        ultimately show ?thesis using 1 by (simp only: hi ex) auto
      qed (use a \<open>\<not> bit w 64\<close> in \<open>simp_all add: hi ex\<close>)
    qed
    then show "word_hi w = expected_hi h" unfolding word16_eq_iff by blast
  qed
qed

lemma reserved_eq:
  "w AND RESERVED_MASK = TAG_FLAG OR push_bit TAG_SHIFT (hash_tag h) \<longleftrightarrow> word_hi w = expected_hi h"
proof -
  have l: "bit (w AND RESERVED_MASK) n \<longleftrightarrow> bit w n \<and> 49 \<le> n \<and> n < 64" for n
    by (simp add: bit_and_iff bit_RESERVED_MASK)
  have r: "bit (TAG_FLAG OR push_bit TAG_SHIFT (hash_tag h)) n \<longleftrightarrow> n = 63 \<or> (49 \<le> n \<and> n < 63 \<and> bit h (n - 31))" for n
    by (auto simp: bit_or_iff bit_consts bit_push_bit_iff bit_hash_tag TAG_SHIFT_def)
  have c: "n < 49 \<or> 49 \<le> n \<and> n < 63 \<or> n = 63 \<or> 64 \<le> n" for n :: nat by linarith
  have "w AND RESERVED_MASK = TAG_FLAG OR push_bit TAG_SHIFT (hash_tag h)
      \<longleftrightarrow> (\<forall>n. (bit w n \<and> 49 \<le> n \<and> n < 64) = (n = 63 \<or> (49 \<le> n \<and> n < 63 \<and> bit h (n - 31))))"
    unfolding word64_eq_iff l r ..
  also have "\<dots> \<longleftrightarrow> bit w 63 \<and> (\<forall>m. 49 \<le> m \<and> m < 63 \<longrightarrow> bit w m = bit h (m - 31))"
  proof
    assume a: "\<forall>n. (bit w n \<and> 49 \<le> n \<and> n < 64) = (n = 63 \<or> (49 \<le> n \<and> n < 63 \<and> bit h (n - 31)))"
    have "bit w 63" using a [rule_format, of 63] by simp
    moreover have "bit w m = bit h (m - 31)" if "49 \<le> m" "m < 63" for m using a [rule_format, of m] that by auto
    ultimately show "bit w 63 \<and> (\<forall>m. 49 \<le> m \<and> m < 63 \<longrightarrow> bit w m = bit h (m - 31))" by blast
  next
    assume a: "bit w 63 \<and> (\<forall>m. 49 \<le> m \<and> m < 63 \<longrightarrow> bit w m = bit h (m - 31))"
    have "(bit w n \<and> 49 \<le> n \<and> n < 64) = (n = 63 \<or> (49 \<le> n \<and> n < 63 \<and> bit h (n - 31)))" for n
      using c [of n] a by (elim disjE) auto
    then show "\<forall>n. (bit w n \<and> 49 \<le> n \<and> n < 64) = (n = 63 \<or> (49 \<le> n \<and> n < 63 \<and> bit h (n - 31)))" by blast
  qed
  finally show ?thesis by (simp only: hi_eq)
qed

lemma encode_hi: "a AND RESERVED_MASK = 0 \<Longrightarrow> word_hi (encode a h) = expected_hi h"
  by (auto simp: hi_eq bit_encode plain_ptr)

section \<open>The sequence number\<close>

lemma unat_state_seq: "unat (state_seq s) = unat s div 4 mod 2 ^ 29"
proof -
  have "drop_bit 2 (s AND STATE_SEQ_MASK) = take_bit 29 (drop_bit 2 s)"
    by (auto simp: word64_eq_iff bit_drop_bit_eq bit_and_iff bit_SEQ_MASK bit_take_bit_iff)
  then have "unat (state_seq s) = unat (ucast (take_bit 29 (drop_bit 2 s)) :: 32 word)" by (simp add: state_seq_def)
  also have "\<dots> = unat (take_bit 29 (drop_bit 2 s)) mod 2 ^ 32" by (simp add: unsigned_ucast_eq take_bit_eq_mod)
  also have "unat (take_bit 29 (drop_bit 2 s)) = unat (drop_bit 2 s) mod 2 ^ 29"
    unfolding unsigned_take_bit_eq by (rule take_bit_eq_mod)
  also have "unat (drop_bit 2 s) = unat s div 4" by (simp add: drop_bit_eq_div unat_div)
  also have "unat s div 4 mod 2 ^ 29 mod 2 ^ 32 = unat s div 4 mod 2 ^ 29" by simp
  finally show ?thesis .
qed

lemma state_seq_cong: "(\<And>n. 2 \<le> n \<Longrightarrow> n < 31 \<Longrightarrow> bit s n = bit s' n) \<Longrightarrow> state_seq s = state_seq s'"
proof -
  assume a: "\<And>n. 2 \<le> n \<Longrightarrow> n < 31 \<Longrightarrow> bit s n = bit s' n"
  have "s AND STATE_SEQ_MASK = s' AND STATE_SEQ_MASK"
    using a by (auto simp: word64_eq_iff bit_and_iff bit_SEQ_MASK)
  then show ?thesis by (simp add: state_seq_def)
qed

text \<open>A bump adds one to the sequence number, modulo the 29 bits it has.\<close>

lemma state_seq_bump: "unat (state_seq (bump_seq s)) = (unat (state_seq s) + 1) mod 2 ^ 29"
proof -
  have "state_seq (bump_seq s) = state_seq (s + 4)"
    by (rule state_seq_cong)
      (auto simp: bump_seq_def bit_or_iff bit_and_iff bit_not_iff bit_SEQ_MASK STATE_SEQ_ONE_def)
  then have "unat (state_seq (bump_seq s)) = unat (s + 4) div 4 mod 2 ^ 29" by (simp add: unat_state_seq)
  also have "unat (s + 4) = (unat s + 4) mod 2 ^ 64" by (simp add: unat_word_ariths)
  also have "(unat s + 4) mod 2 ^ 64 div 4 mod 2 ^ 29 = (unat s + 4) div 4 mod 2 ^ 29"
  proof -
    have "(unat s + 4) mod (4 * 2 ^ 62) div 4 = (unat s + 4) div 4 mod 2 ^ 62"
      by (subst mod_mult2_eq) simp
    moreover have "n mod 2 ^ 62 mod 2 ^ 29 = n mod 2 ^ 29" for n :: nat by (rule mod_mod_cancel) simp
    ultimately show ?thesis by simp
  qed
  also have "(unat s + 4) div 4 = unat s div 4 + 1" by simp
  also have "(unat s div 4 + 1) mod 2 ^ 29 = (unat (state_seq s) + 1) mod 2 ^ 29"
    by (simp add: unat_state_seq mod_simps)
  finally show ?thesis .
qed

lemma state_seq_lock: "state_lock s = Some s' \<Longrightarrow> state_seq s' = state_seq s"
  by (rule state_seq_cong) (simp add: bit_state_lock)

lemma state_seq_unlock: "state_seq (state_unlock s) = state_seq s"
  by (rule state_seq_cong) (auto simp: state_unlock_def bit_and_iff bit_not_iff bit_consts)

lemma state_seq_write_end: "state_seq (write_end s occ) = state_seq (bump_seq s)"
  by (rule state_seq_cong) (auto simp: write_end_def Let_def bit_and_iff bit_or_iff bit_not_iff bit_consts)

section \<open>Table sizes\<close>

lemma pow2_from_law:
  "0 < p \<Longrightarrow> \<exists>k. pow2_from p n = p * 2 ^ k \<and> n \<le> pow2_from p n \<and> (k = 0 \<or> pow2_from p n < 2 * n)"
proof (induction p n rule: pow2_from.induct)
  case (1 p n)
  show ?case
  proof (cases "n \<le> p")
    case True
    then show ?thesis by (intro exI [of _ 0]) (simp add: pow2_from.simps)
  next
    case False
    with 1(1) [of] 1(2) obtain k where k: "pow2_from (2 * p) n = 2 * p * 2 ^ k" "n \<le> pow2_from (2 * p) n"
      "k = 0 \<or> pow2_from (2 * p) n < 2 * n" by (metis nat_0_less_mult_iff less_not_refl zero_less_numeral)
    have "pow2_from p n = pow2_from (2 * p) n" using False 1(2) by (subst pow2_from.simps) simp
    with k False show ?thesis by (intro exI [of _ "Suc k"]) auto
  qed
qed

lemma next_power_of_two_law:
  obtains k where "next_power_of_two n = 2 ^ k" "n \<le> next_power_of_two n" "k = 0 \<or> next_power_of_two n < 2 * n"
proof -
  from pow2_from_law [OF zero_less_one, of n] obtain k where
    "pow2_from 1 n = 1 * 2 ^ k" "n \<le> pow2_from 1 n" "k = 0 \<or> pow2_from 1 n < 2 * n" by blast
  then show thesis by (intro that [of k]) (simp_all only: next_power_of_two_def mult_1)
qed

lemma next_power_of_two_pow: "next_power_of_two (2 ^ k) = 2 ^ k"
proof -
  obtain j where j: "next_power_of_two (2 ^ k) = 2 ^ j" "(2::nat) ^ k \<le> 2 ^ j" "j = 0 \<or> 2 ^ j < 2 * (2::nat) ^ k"
    by (rule next_power_of_two_law [of "2 ^ k"]) metis
  then have "k \<le> j" "j = 0 \<or> j < Suc k" by (auto simp flip: power_Suc)
  then show ?thesis using j(1) by auto
qed

lemma max_pow2: "\<exists>j. max (2 ^ k) (2 ^ i :: nat) = 2 ^ j"
  by (metis max_def)

text \<open>A table of the size computed for some entries takes them all and one more below its threshold.\<close>

lemma capacity_for_law:
  obtains k where "capacity_for live = 2 ^ k" "8 \<le> capacity_for live" "live < capacity_for live * LOAD_NUM div LOAD_DEN"
proof -
  let ?n = "(live + 1) * 3 div 2 + 1"
  obtain k where k: "next_power_of_two ?n = 2 ^ k" "?n \<le> next_power_of_two ?n"
    by (rule next_power_of_two_law)
  obtain j where j: "max (2 ^ k) 8 = (2::nat) ^ j" using max_pow2 [of k 3] by auto
  have c: "capacity_for live = max (2 ^ k) 8" using k(1) by (simp add: capacity_for_def LOAD_DEN_def LOAD_NUM_def)
  moreover have "live < max (2 ^ k) 8 * 2 div 3"
  proof -
    have "?n \<le> max (2 ^ k) 8" using k by simp
    moreover have "(l + 1) * 3 div 2 + 1 \<le> c \<Longrightarrow> l < c * 2 div 3" for l c :: nat by presburger
    ultimately show ?thesis by blast
  qed
  ultimately show thesis using that [of j] j by (simp add: LOAD_DEN_def LOAD_NUM_def)
qed

lemma seq_even: "\<not> bit s 2 \<Longrightarrow> state_seq s AND 1 = 0"
proof -
  assume "\<not> bit s 2"
  then have "\<not> bit (state_seq s) 0"
    by (simp add: state_seq_def bit_ucast_iff bit_drop_bit_eq bit_and_iff)
  then show ?thesis by (simp add: and_one_eq bit_0 even_iff_mod_2_eq_zero)
qed

end
