(* ===== verification/Shard.thy ===== *)
theory Shard
  imports EntryState
begin

text \<open>
  A shard of the concurrent map (\<^verbatim>\<open>crates/customhash/src/shard.rs\<close>, \<^verbatim>\<open>snap.rs\<close>): an open-addressing table of tagged slot
  words over a heap of entries, with linear probing, tombstones, growth and rebuilding, and the snapshot control that
  every write consults.

  The model runs one operation at a time, so a compare-and-swap on a slot succeeds and a lock
  that is taken is never released: \<^verbatim>\<open>None\<close> stands for a wait or a loop that does not end and for an access outside the
  memory the code owns.  A fresh entry goes to an address that is an argument of the operation.
  The copies of the table pointers that a shard keeps for its readers (\<^verbatim>\<open>slots\<close>, \<^verbatim>\<open>mask\<close>,
  \<^verbatim>\<open>threshold\<close>, \<^verbatim>\<open>fast\<close>) are stored together with the table and are the table itself here.
\<close>

section \<open>Entries, tables and shards\<close>

record 'v entry =
  e_key :: bytes
  e_state :: "64 word"
  e_value :: "'v option"

type_synonym 'v entries = "64 word \<rightharpoonup> 'v entry"

record slot_table =
  tb_slots :: "64 word list"
  tb_capacity :: nat
  tb_mask :: nat
  tb_threshold :: nat

record 'v shard =
  sh_table :: slot_table
  sh_len :: nat
  sh_live :: "64 word"
  sh_heap :: "'v entries"
  sh_retired :: "64 word list"
  sh_initial_capacity :: nat

text \<open>The snapshot control; \<^verbatim>\<open>sn_out\<close> collects what the sink was given.\<close>

record 'v snap_ctl =
  sn_active :: bool
  sn_parity :: "64 word"
  sn_sink :: bool
  sn_out :: "(bytes \<times> 'v) list"

definition snap_new :: "'v snap_ctl" where
  "snap_new = \<lparr>sn_active = False, sn_parity = 0, sn_sink = False, sn_out = []\<rparr>"

definition fresh_state :: "'v snap_ctl \<Rightarrow> 64 word" where
  "fresh_state sn = STATE_OCCUPIED OR sn_parity sn"

text \<open>Reading a value that is not there is undefined.\<close>

definition capture :: "'v entry \<Rightarrow> 'v snap_ctl \<Rightarrow> ('v entry \<times> 'v snap_ctl) option" where
  "capture e sn =
     (let parity = sn_parity sn; st = e_state e in
      if st AND STATE_SNAP = parity then Some (e, sn)
      else do {
        sn1 \<leftarrow> (if st AND STATE_OCCUPIED \<noteq> 0 \<and> sn_sink sn
                then map_option (\<lambda>v. sn\<lparr>sn_out := sn_out sn @ [(e_key e, v)]\<rparr>) (e_value e) else Some sn);
        Some (e\<lparr>e_state := (st AND NOT STATE_SNAP) OR parity\<rparr>, sn1) })"

definition before_write :: "'v entry \<Rightarrow> 'v snap_ctl \<Rightarrow> ('v entry \<times> 'v snap_ctl) option" where
  "before_write e sn = (if sn_active sn then capture e sn else Some (e, sn))"

definition snap_begin :: "'v snap_ctl \<Rightarrow> bool \<times> 'v snap_ctl" where
  "snap_begin sn =
     (if sn_active sn then (False, sn)
      else (True, \<lparr>sn_active = True, sn_parity = sn_parity sn XOR STATE_SNAP, sn_sink = True, sn_out = []\<rparr>))"

definition snap_end :: "'v snap_ctl \<Rightarrow> 'v snap_ctl" where
  "snap_end sn = sn\<lparr>sn_active := False, sn_sink := False\<rparr>"

definition table_new :: "nat \<Rightarrow> slot_table" where
  "table_new cap0 =
     (let cap = max (next_power_of_two cap0) 8 in
      \<lparr>tb_slots = replicate (cap + 16) 0, tb_capacity = cap, tb_mask = cap - 1,
       tb_threshold = cap * LOAD_NUM div LOAD_DEN\<rparr>)"

definition shard_new :: "nat \<Rightarrow> 'v shard" where
  "shard_new cap =
     \<lparr>sh_table = table_new cap, sh_len = 0, sh_live = 0, sh_heap = Map.empty, sh_retired = [], sh_initial_capacity = cap\<rparr>"

section \<open>Probing\<close>

text \<open>One step of a search: the entry is here, the chain ends here, or go on.\<close>

datatype probe = Hit "64 word" | Stop | Go

definition is_match :: "'v entries \<Rightarrow> bytes \<Rightarrow> 64 word \<Rightarrow> 64 word \<Rightarrow> probe option" where
  "is_match heap key expected p = do {
     e \<leftarrow> heap p;
     Some (if e_state e AND STATE_MATCH_MASK = expected \<and> e_key e = key then Hit p else Go) }"

definition find_step :: "'v entries \<Rightarrow> bytes \<Rightarrow> 64 word \<Rightarrow> 64 word \<Rightarrow> probe option" where
  "find_step heap key hash w =
     (if word_hi w = expected_hi hash then is_match heap key (expected_match hash) (w AND PTR_MASK)
      else if w = 0 then Some Stop
      else if w AND TAG_FLAG = 0 then is_match heap key (expected_match hash) w
      else Some Go)"

text \<open>
  The wrapping probe loop makes at most as many probes as it is given and tells where it ended; the unrolled probes look at
  consecutive slots.
\<close>

fun scan :: "(64 word \<Rightarrow> probe option) \<Rightarrow> slot_table \<Rightarrow> nat \<Rightarrow> nat \<Rightarrow> (probe \<times> nat) option" where
  "scan step t i 0 = Some (Go, i)"
| "scan step t i (Suc n) = do {
     w \<leftarrow> vget (tb_slots t) i;
     r \<leftarrow> step w;
     (case r of Go \<Rightarrow> scan step t ((i + 1) AND tb_mask t) n | _ \<Rightarrow> Some (r, i)) }"

fun scan_straight :: "(64 word \<Rightarrow> probe option) \<Rightarrow> slot_table \<Rightarrow> nat \<Rightarrow> nat \<Rightarrow> (probe \<times> nat) option" where
  "scan_straight step t i 0 = Some (Go, i)"
| "scan_straight step t i (Suc n) = do {
     w \<leftarrow> vget (tb_slots t) i;
     r \<leftarrow> step w;
     (case r of Go \<Rightarrow> scan_straight step t (i + 1) n | _ \<Rightarrow> Some (r, i)) }"

fun hit :: "probe \<Rightarrow> 64 word option" where
  "hit (Hit p) = Some p"
| "hit _ = None"

definition find_slow :: "bytes \<Rightarrow> 64 word \<Rightarrow> nat \<Rightarrow> 'v shard \<Rightarrow> 64 word option option" where
  "find_slow key hash start_idx sh =
     (let t = sh_table sh; cap = tb_mask t + 1 in
      map_option (hit \<circ> fst) (scan (find_step (sh_heap sh) key hash) t (start_idx AND tb_mask t) cap))"

definition find_fast :: "bytes \<Rightarrow> 64 word \<Rightarrow> 'v shard \<Rightarrow> 64 word option option" where
  "find_fast key hash sh =
     (let t = sh_table sh; base_idx = unat hash AND tb_mask t in
      if base_idx + 16 > tb_mask t + 1 then find_slow key hash base_idx sh
      else do {
        (r, _) \<leftarrow> scan_straight (find_step (sh_heap sh) key hash) t base_idx 16;
        (case r of Go \<Rightarrow> find_slow key hash (base_idx + 16) sh | _ \<Rightarrow> Some (hit r)) })"

definition shard_find :: "bytes \<Rightarrow> 64 word \<Rightarrow> 'v shard \<Rightarrow> 64 word option option" where
  "shard_find key hash sh = find_fast key hash sh"

text \<open>The searches that return the value make the same probes and clone what they find.\<close>

definition entry_value :: "'v shard \<Rightarrow> 64 word \<Rightarrow> 'v option" where
  "entry_value sh p = do { e \<leftarrow> sh_heap sh p; e_value e }"

definition clone_found :: "'v shard \<Rightarrow> 64 word option \<Rightarrow> 'v option option" where
  "clone_found sh r = (case r of None \<Rightarrow> Some None | Some p \<Rightarrow> map_option Some (entry_value sh p))"

definition get_pinned_slow :: "bytes \<Rightarrow> 64 word \<Rightarrow> nat \<Rightarrow> 'v shard \<Rightarrow> 'v option option" where
  "get_pinned_slow key hash start_idx sh =
     (let t = sh_table sh; cap = tb_mask t + 1 in do {
        (r, _) \<leftarrow> scan (find_step (sh_heap sh) key hash) t (start_idx AND tb_mask t) cap;
        clone_found sh (hit r) })"

definition get_pinned_fast :: "bytes \<Rightarrow> 64 word \<Rightarrow> 'v shard \<Rightarrow> 'v option option" where
  "get_pinned_fast key hash sh =
     (let t = sh_table sh; base_idx = unat hash AND tb_mask t in
      if base_idx + 16 > tb_mask t + 1 then get_pinned_slow key hash base_idx sh
      else do {
        (r, _) \<leftarrow> scan_straight (find_step (sh_heap sh) key hash) t base_idx 16;
        (case r of Go \<Rightarrow> get_pinned_slow key hash (base_idx + 16) sh | _ \<Rightarrow> clone_found sh (hit r)) })"

definition shard_get :: "bytes \<Rightarrow> 64 word \<Rightarrow> 'v shard \<Rightarrow> 'v option option" where
  "shard_get key hash sh = get_pinned_fast key hash sh"

text \<open>The tag-only probe used to prefetch: the first slot whose tag fits, whatever its key.\<close>

definition probe_tag :: "64 word \<Rightarrow> 64 word \<Rightarrow> probe option" where
  "probe_tag hash w =
     Some (if word_hi w = expected_hi hash then Hit (w AND PTR_MASK) else if w = 0 then Stop else Go)"

definition probe_from_base :: "slot_table \<Rightarrow> nat \<Rightarrow> 64 word \<Rightarrow> nat \<Rightarrow> 64 word option" where
  "probe_from_base t base hash max_probes = do {
     (r, _) \<leftarrow> scan_straight (probe_tag hash) t base (max 2 max_probes);
     Some (case r of Hit p \<Rightarrow> p | _ \<Rightarrow> 0) }"

section \<open>Growing and rebuilding\<close>

definition place_step :: "64 word \<Rightarrow> probe option" where
  "place_step w = Some (if decode w = 0 then Stop else Go)"

text \<open>The loop that looks for an empty slot of the new table; it does not end when there is none.\<close>

definition place :: "64 word \<Rightarrow> 64 word \<Rightarrow> slot_table \<Rightarrow> slot_table option" where
  "place p h t = do {
     (r, i) \<leftarrow> scan place_step t (unat h AND tb_mask t) (tb_capacity t);
     (case r of
        Stop \<Rightarrow> do { slots \<leftarrow> vset (tb_slots t) i (encode p h); Some (t\<lparr>tb_slots := slots\<rparr>) }
      | _ \<Rightarrow> None) }"

fun rebuild_loop ::
    "64 word list \<Rightarrow> 'v entries \<Rightarrow> slot_table \<Rightarrow> nat \<Rightarrow> 64 word list \<Rightarrow> (slot_table \<times> nat \<times> 64 word list) option" where
  "rebuild_loop [] heap t live retired = Some (t, live, retired)"
| "rebuild_loop (w # ws) heap t live retired =
     (let p = decode w in
      if p = 0 then rebuild_loop ws heap t live retired
      else do {
        e \<leftarrow> heap p;
        if \<not> state_occupied (e_state e) then rebuild_loop ws heap t live (retired @ [p])
        else do {
          t1 \<leftarrow> place p (stored_hash (e_state e)) t;
          rebuild_loop ws heap t1 (live + 1) retired } })"

definition table_slots :: "slot_table \<Rightarrow> 64 word list" where
  "table_slots t = take (tb_capacity t) (tb_slots t)"

definition rebuild_to :: "nat \<Rightarrow> 'v shard \<Rightarrow> 'v shard option" where
  "rebuild_to new_cap sh = do {
     (t, live_count, retired) \<leftarrow>
        rebuild_loop (table_slots (sh_table sh)) (sh_heap sh) (table_new new_cap) 0 (sh_retired sh);
     Some (sh\<lparr>sh_table := t, sh_len := live_count, sh_retired := retired\<rparr>) }"

fun count_live :: "64 word list \<Rightarrow> 'v entries \<Rightarrow> nat option" where
  "count_live [] heap = Some 0"
| "count_live (w # ws) heap =
     (let p = decode w in do {
        b \<leftarrow> (if p = 0 then Some False else map_option (\<lambda>e. state_occupied (e_state e)) (heap p));
        n \<leftarrow> count_live ws heap;
        Some (if b then n + 1 else n) })"

definition rebuild_locked :: "'v shard \<Rightarrow> 'v shard option" where
  "rebuild_locked sh =
     (let old = sh_table sh in do {
        live \<leftarrow> count_live (table_slots old) (sh_heap sh);
        (let new_cap = max (capacity_for live) (tb_capacity old);
             new_cap1 = (if new_cap > tb_capacity old \<and> tb_capacity old < 32768
                         then next_power_of_two (tb_capacity old * 4) else new_cap)
         in rebuild_to new_cap1 sh) })"

definition grow :: "'v shard \<Rightarrow> 'v shard option" where
  "grow sh = (if sh_len sh < tb_threshold (sh_table sh) then Some sh else rebuild_locked sh)"

definition rehash :: "'v shard \<Rightarrow> 'v shard option" where
  "rehash sh = rebuild_locked sh"

section \<open>Inserting and overwriting\<close>

definition key_match :: "'v entries \<Rightarrow> bytes \<Rightarrow> 64 word \<Rightarrow> 64 word \<Rightarrow> probe option" where
  "key_match heap key hash p = do {
     e \<leftarrow> heap p;
     Some (if stored_hash (e_state e) = low_hash hash \<and> e_key e = key then Hit p else Go) }"

definition slot_step :: "'v entries \<Rightarrow> bytes \<Rightarrow> 64 word \<Rightarrow> 64 word \<Rightarrow> probe option" where
  "slot_step heap key hash w =
     (if w = 0 then Some Stop
      else if w AND RESERVED_MASK = TAG_FLAG OR push_bit TAG_SHIFT (hash_tag hash)
      then key_match heap key hash (w AND PTR_MASK)
      else if w AND TAG_FLAG = 0 then key_match heap key hash w
      else Some Go)"

definition put_entry :: "64 word \<Rightarrow> 'v entry \<Rightarrow> 'v shard \<Rightarrow> 'v shard" where
  "put_entry p e sh = sh\<lparr>sh_heap := (sh_heap sh)(p \<mapsto> e)\<rparr>"

text \<open>\<^verbatim>\<open>alloc_entry\<close>, \<^verbatim>\<open>claim\<close> and the count of the insertion, then growth when the threshold is reached.\<close>

definition claim_slot :: "64 word \<Rightarrow> bytes \<Rightarrow> 64 word \<Rightarrow> 'v \<Rightarrow> 'v snap_ctl \<Rightarrow> nat \<Rightarrow> 'v shard \<Rightarrow> 'v shard option" where
  "claim_slot a key hash val sn i sh =
     (let t = sh_table sh;
          e = \<lparr>e_key = key, e_state = fresh_state sn OR hash_bits hash, e_value = Some val\<rparr>
      in do {
        slots \<leftarrow> vset (tb_slots t) i (encode a hash);
        (let sh1 = (put_entry a e sh)\<lparr>sh_table := t\<lparr>tb_slots := slots\<rparr>, sh_len := sh_len sh + 1\<rparr> in
         if sh_len sh1 \<ge> tb_threshold t then grow sh1 else Some sh1) })"

text \<open>The write of an entry under its lock: snapshot, odd sequence number, new value, even sequence number.\<close>

definition write_entry ::
    "'v option \<Rightarrow> bool \<Rightarrow> 'v entry \<Rightarrow> 'v snap_ctl \<Rightarrow> ('v entry \<times> 'v snap_ctl) option" where
  "write_entry val occupied e sn = do {
     (e1, sn1) \<leftarrow> before_write e sn;
     (let e2 = e1\<lparr>e_state := write_begin (e_state e1), e_value := val\<rparr> in
      Some (e2\<lparr>e_state := write_end (e_state e2) occupied\<rparr>, sn1)) }"

partial_function (option) set_loop ::
    "64 word \<Rightarrow> bytes \<Rightarrow> 64 word \<Rightarrow> 'v \<Rightarrow> bool \<Rightarrow> 'v snap_ctl \<Rightarrow> 'v shard \<Rightarrow> (bool \<times> 'v snap_ctl \<times> 'v shard) option" where
  "set_loop a key hash val overwrite sn sh =
     (let t = sh_table sh in
      if sh_len sh \<ge> tb_threshold t then do {
        sh1 \<leftarrow> grow sh;
        set_loop a key hash val overwrite sn sh1 }
      else do {
        (r, i) \<leftarrow> scan (slot_step (sh_heap sh) key hash) t (unat hash AND tb_mask t) (tb_capacity t);
        (case r of
           Go \<Rightarrow> do {
             sh1 \<leftarrow> rehash sh;
             set_loop a key hash val overwrite sn sh1 }
         | Stop \<Rightarrow> do {
             sh1 \<leftarrow> claim_slot a key hash val sn i sh;
             Some (True, sn, sh1) }
         | Hit p \<Rightarrow> do {
             e \<leftarrow> sh_heap sh p;
             st \<leftarrow> state_lock (e_state e);
             if \<not> overwrite \<and> state_occupied st
             then Some (False, sn, put_entry p (e\<lparr>e_state := state_unlock st\<rparr>) sh)
             else do {
               (e1, sn1) \<leftarrow> write_entry (Some val) True (e\<lparr>e_state := st\<rparr>) sn;
               Some (\<not> state_occupied st, sn1,
                     (put_entry p e1 sh)\<lparr>sh_len := sh_len sh + (if state_occupied st then 0 else 1)\<rparr>) } }) })"

definition set_key_with_overwrite ::
    "64 word \<Rightarrow> bytes \<Rightarrow> 64 word \<Rightarrow> 'v \<Rightarrow> bool \<Rightarrow> 'v snap_ctl \<Rightarrow> 'v shard \<Rightarrow> (bool \<times> 'v snap_ctl \<times> 'v shard) option" where
  "set_key_with_overwrite a key hash val overwrite sn sh = set_loop a key hash val overwrite sn sh"

definition set_key ::
    "64 word \<Rightarrow> bytes \<Rightarrow> 64 word \<Rightarrow> 'v \<Rightarrow> 'v snap_ctl \<Rightarrow> 'v shard \<Rightarrow> (bool \<times> 'v snap_ctl \<times> 'v shard) option" where
  "set_key a key hash val sn sh = set_key_with_overwrite a key hash val True sn sh"

definition set_compact_key ::
    "64 word \<Rightarrow> bytes \<Rightarrow> 64 word \<Rightarrow> 'v \<Rightarrow> bool \<Rightarrow> 'v snap_ctl \<Rightarrow> 'v shard \<Rightarrow> (bool \<times> 'v snap_ctl \<times> 'v shard) option" where
  "set_compact_key a key hash val overwrite sn sh = set_loop a key hash val overwrite sn sh"

definition insert_hashed_key ::
    "64 word \<Rightarrow> bytes \<Rightarrow> 'v \<Rightarrow> 64 word \<Rightarrow> 'v snap_ctl \<Rightarrow> 'v shard \<Rightarrow> (bool \<times> 'v snap_ctl \<times> 'v shard) option" where
  "insert_hashed_key a key val hash sn sh = set_compact_key a key hash val True sn sh"

datatype fast_set = Existing "64 word" | Inserted | Retry

definition probe_step :: "'v entries \<Rightarrow> bytes \<Rightarrow> 64 word \<Rightarrow> 64 word \<Rightarrow> probe option" where
  "probe_step heap key hash w =
     (if word_hi w = expected_hi hash then is_match heap key (expected_match hash) (w AND PTR_MASK)
      else if w = 0 then Some Stop
      else Some Go)"

definition probe_or_insert ::
    "64 word \<Rightarrow> 64 word \<Rightarrow> bytes \<Rightarrow> 'v \<Rightarrow> 'v snap_ctl \<Rightarrow> 'v shard \<Rightarrow> (fast_set \<times> 'v shard) option" where
  "probe_or_insert a hash key val sn sh =
     (let t = sh_table sh; base_idx = unat hash AND tb_mask t in do {
        (r, i) \<leftarrow> scan_straight (probe_step (sh_heap sh) key hash) t base_idx 16;
        (case r of
           Hit p \<Rightarrow> Some (Existing p, sh)
         | Go \<Rightarrow> Some (Retry, sh)
         | Stop \<Rightarrow>
             if \<not> i < tb_capacity t then Some (Retry, sh)
             else if sh_len sh \<ge> tb_threshold t then do { sh1 \<leftarrow> grow sh; Some (Retry, sh1) }
             else do {
               sh1 \<leftarrow> claim_slot a key hash val sn (i AND tb_mask t) sh;
               Some (Inserted, sh1) }) })"

fun insert_slot_loop :: "64 word \<Rightarrow> 64 word \<Rightarrow> bytes \<Rightarrow> 'v \<Rightarrow> 'v snap_ctl \<Rightarrow> nat \<Rightarrow> nat \<Rightarrow> 'v shard \<Rightarrow> (bool \<times> 'v shard) option" where
  "insert_slot_loop a hash key val sn i 0 sh = Some (False, sh)"
| "insert_slot_loop a hash key val sn i (Suc n) sh =
     (let t = sh_table sh; j = i AND tb_mask t in do {
        w \<leftarrow> vget (tb_slots t) j;
        if w = 0 then do { sh1 \<leftarrow> claim_slot a key hash val sn j sh; Some (True, sh1) }
        else insert_slot_loop a hash key val sn (i + 1) n sh })"

definition insert_slot_fast ::
    "64 word \<Rightarrow> 64 word \<Rightarrow> bytes \<Rightarrow> 'v \<Rightarrow> 'v snap_ctl \<Rightarrow> 'v shard \<Rightarrow> (bool \<times> 'v shard) option" where
  "insert_slot_fast a hash key val sn sh =
     insert_slot_loop a hash key val sn (unat hash AND tb_mask (sh_table sh)) 4 sh"

end
