(* ===== verification/ShardInv.thy ===== *)
theory ShardInv
  imports Shard
begin

text \<open>
  The invariant of a shard's table and what its operations preserve of it: an empty slot ends every probe chain, each
  key has at most one entry, and the entry of a key is reached from its home slot.  The lemmas relate
  searching, inserting, overwriting and rebuilding to the map that the table stands for.
\<close>

section \<open>The invariant of a table\<close>

definition tb_ok :: "slot_table \<Rightarrow> bool" where
  "tb_ok t \<longleftrightarrow> (\<exists>k. tb_capacity t = 2 ^ k) \<and> 8 \<le> tb_capacity t \<and> tb_capacity t \<le> 2 ^ 32
     \<and> tb_mask t = tb_capacity t - 1 \<and> tb_threshold t = tb_capacity t * LOAD_NUM div LOAD_DEN
     \<and> length (tb_slots t) = tb_capacity t + 16
     \<and> (\<forall>i. tb_capacity t \<le> i \<and> i < tb_capacity t + 16 \<longrightarrow> tb_slots t ! i = 0)"

definition entry_ok :: "(bytes \<Rightarrow> 64 word) \<Rightarrow> 'v entry \<Rightarrow> bool" where
  "entry_ok H e \<longleftrightarrow> stored_hash (e_state e) = low_hash (H (e_key e)) \<and> \<not> bit (e_state e) 0
     \<and> (bit (e_state e) 1 \<longleftrightarrow> e_value e \<noteq> None) \<and> \<not> bit (e_state e) 2"

text \<open>A pointer that the tag bits leave alone.\<close>

definition ptr_ok :: "64 word \<Rightarrow> bool" where
  "ptr_ok p \<longleftrightarrow> p \<noteq> 0 \<and> p AND RESERVED_MASK = 0"

definition used :: "slot_table \<Rightarrow> nat set" where
  "used t = {i. i < tb_capacity t \<and> tb_slots t ! i \<noteq> 0}"

text \<open>A slot holds an entry of the heap, tagged with the hash of its key.\<close>

definition holds :: "(bytes \<Rightarrow> 64 word) \<Rightarrow> 'v entries \<Rightarrow> slot_table \<Rightarrow> nat \<Rightarrow> 64 word \<Rightarrow> 'v entry \<Rightarrow> bool" where
  "holds H heap t i p e \<longleftrightarrow> i < tb_capacity t \<and> tb_slots t ! i = encode p (H (e_key e)) \<and> ptr_ok p \<and> heap p = Some e
     \<and> entry_ok H e"

definition home :: "(bytes \<Rightarrow> 64 word) \<Rightarrow> slot_table \<Rightarrow> bytes \<Rightarrow> nat" where
  "home H t k = unat (H k) mod tb_capacity t"

text \<open>How many probes lead from the home slot of a key to a slot.\<close>

definition dist :: "slot_table \<Rightarrow> nat \<Rightarrow> nat \<Rightarrow> nat" where
  "dist t h i = (i + tb_capacity t - h) mod tb_capacity t"

definition table_inv :: "(bytes \<Rightarrow> 64 word) \<Rightarrow> 'v entries \<Rightarrow> slot_table \<Rightarrow> bool" where
  "table_inv H heap t \<longleftrightarrow> tb_ok t
     \<and> (\<forall>i\<in>used t. \<exists>p e. holds H heap t i p e)
     \<and> (\<forall>i j p q e f. holds H heap t i p e \<and> holds H heap t j q f \<and> e_key e = e_key f \<longrightarrow> i = j)
     \<and> (\<forall>i p e. holds H heap t i p e \<longrightarrow>
          (\<forall>n < dist t (home H t (e_key e)) i. (home H t (e_key e) + n) mod tb_capacity t \<in> used t))"

definition shard_inv :: "(bytes \<Rightarrow> 64 word) \<Rightarrow> 'v shard \<Rightarrow> bool" where
  "shard_inv H sh \<longleftrightarrow> table_inv H (sh_heap sh) (sh_table sh) \<and> card (used (sh_table sh)) \<le> sh_len sh"

text \<open>The entry of a key, live or dead, and the map that a shard stands for.\<close>

definition table_entries :: "'v entries \<Rightarrow> slot_table \<Rightarrow> 'v entry list" where
  "table_entries heap t = List.map_filter (\<lambda>w. if w = 0 then None else heap (decode w)) (table_slots t)"

definition entry_at :: "'v entries \<Rightarrow> slot_table \<Rightarrow> bytes \<Rightarrow> 'v entry option" where
  "entry_at heap t k = map_of (map (\<lambda>e. (e_key e, e)) (table_entries heap t)) k"

definition shard_map :: "'v shard \<Rightarrow> bytes \<rightharpoonup> 'v" where
  "shard_map sh k = entry_at (sh_heap sh) (sh_table sh) k \<bind> e_value"

text \<open>The entries that a rebuild keeps, and the words it can read.\<close>

definition live_of :: "'v entries \<Rightarrow> 64 word \<Rightarrow> 'v entry option" where
  "live_of heap w =
     (if decode w = 0 then None
      else case heap (decode w) of None \<Rightarrow> None | Some e \<Rightarrow> if state_occupied (e_state e) then Some e else None)"

definition lives :: "'v entries \<Rightarrow> 64 word list \<Rightarrow> 'v entry list" where
  "lives heap ws = List.map_filter (live_of heap) ws"

definition good_word :: "(bytes \<Rightarrow> 64 word) \<Rightarrow> 'v entries \<Rightarrow> 64 word \<Rightarrow> bool" where
  "good_word H heap w \<longleftrightarrow>
     decode w = 0 \<or> (\<exists>e. ptr_ok (decode w) \<and> heap (decode w) = Some e \<and> entry_ok H e)"

text \<open>A rebuild keeps the live entries and drops the others.\<close>

definition live_entry :: "'v entry option \<Rightarrow> 'v entry option" where
  "live_entry x = (case x of None \<Rightarrow> None | Some e \<Rightarrow> if e_value e = None then None else Some e)"

definition live_count :: "'v shard \<Rightarrow> nat" where
  "live_count sh = length (lives (sh_heap sh) (table_slots (sh_table sh)))"

definition shard_live :: "'v shard \<Rightarrow> bytes \<rightharpoonup> 'v entry" where
  "shard_live sh k = live_entry (entry_at (sh_heap sh) (sh_table sh) k)"

section \<open>Writing an entry\<close>

definition snap_ok :: "'v snap_ctl \<Rightarrow> bool" where
  "snap_ok sn \<longleftrightarrow> sn_parity sn = 0 \<or> sn_parity sn = STATE_SNAP"

text \<open>What a write hands to the snapshot: the value it is about to replace, unless the snapshot has it already.\<close>

definition captured :: "'v snap_ctl \<Rightarrow> 'v entry \<Rightarrow> (bytes \<times> 'v) list" where
  "captured sn e =
     (if sn_active sn \<and> sn_sink sn \<and> (bit (e_state e) 31 \<longleftrightarrow> \<not> bit (sn_parity sn) 31)
      then case e_value e of None \<Rightarrow> [] | Some v \<Rightarrow> [(e_key e, v)] else [])"

text \<open>The locked write of an entry that is in order leaves one that is in order, stamped by the active snapshot.\<close>

definition written :: "'v snap_ctl \<Rightarrow> 'v entry \<Rightarrow> 'v option \<Rightarrow> 'v entry \<Rightarrow> bool" where
  "written sn e val e' \<longleftrightarrow> e_key e' = e_key e \<and> e_value e' = val
     \<and> (bit (e_state e') 31 \<longleftrightarrow> (if sn_active sn then bit (sn_parity sn) 31 else bit (e_state e) 31))"

text \<open>What a set leaves: nothing changed, or the key bound to a stamped entry with the value.\<close>

definition set_result ::
    "bytes \<Rightarrow> 'v \<Rightarrow> bool \<Rightarrow> 'v snap_ctl \<Rightarrow> 'v shard \<Rightarrow> 'v snap_ctl \<Rightarrow> 'v shard \<Rightarrow> bool" where
  "set_result k v ow sn sh sn' sh' \<longleftrightarrow>
     (if ow \<or> shard_live sh k = None
      then (\<exists>e'. shard_live sh' = (shard_live sh)(k \<mapsto> e') \<and> e_key e' = k \<and> e_value e' = Some v
              \<and> (sn_active sn \<longrightarrow> bit (e_state e') 31 = bit (sn_parity sn) 31)
              \<and> sn' = sn\<lparr>sn_out := sn_out sn @ (case shard_live sh k of None \<Rightarrow> [] | Some e \<Rightarrow> captured sn e)\<rparr>)
      else shard_live sh' = shard_live sh \<and> sn' = sn)"

section \<open>Indices\<close>

lemma nat_and_mask: "cap = 2 ^ k \<Longrightarrow> i AND (cap - 1) = i mod cap" for i cap :: nat
  using take_bit_eq_mask [of k i] by (simp add: take_bit_eq_mod mask_eq_exp_minus_1)

lemma tb_okD:
  assumes "tb_ok t"
  shows "0 < tb_capacity t" "i AND tb_mask t = i mod tb_capacity t" "length (tb_slots t) = tb_capacity t + 16"
    "i < tb_capacity t \<Longrightarrow> vget (tb_slots t) i = Some (tb_slots t ! i)" "tb_mask t + 1 = tb_capacity t"
  using assms by (auto simp: tb_ok_def vget_def nat_and_mask [OF refl, simplified])

lemma dist_lt: "0 < tb_capacity t \<Longrightarrow> dist t h i < tb_capacity t"
  by (simp add: dist_def)

lemma dist_step: "h < tb_capacity t \<Longrightarrow> i < tb_capacity t \<Longrightarrow> (h + dist t h i) mod tb_capacity t = i"
proof -
  assume a: "h < tb_capacity t" "i < tb_capacity t"
  have "(h + dist t h i) mod tb_capacity t = (h + (i + tb_capacity t - h)) mod tb_capacity t"
    by (simp add: dist_def mod_simps)
  also have "h + (i + tb_capacity t - h) = i + tb_capacity t" using a by simp
  finally show ?thesis using a by simp
qed

lemma dist_of: "h < tb_capacity t \<Longrightarrow> n < tb_capacity t \<Longrightarrow> dist t h ((h + n) mod tb_capacity t) = n"
proof -
  assume a: "h < tb_capacity t" "n < tb_capacity t"
  let ?c = "tb_capacity t"
  show ?thesis
  proof (cases "h + n < ?c")
    case True
    then have "(h + n + ?c - h) = n + ?c" by simp
    then show ?thesis using True a by (simp add: dist_def)
  next
    case False
    then have "(h + n) mod ?c = h + n - ?c" using a by (simp add: le_mod_geq)
    moreover have "h + n - ?c + ?c - h = n" using False by simp
    ultimately show ?thesis using a by (simp add: dist_def)
  qed
qed

lemma home_lt: "tb_ok t \<Longrightarrow> home H t k < tb_capacity t"
  using tb_okD(1) by (simp add: home_def)

section \<open>Probe loops\<close>

lemma scan_skip:
  assumes t: "tb_ok t"
  shows "i < tb_capacity t \<Longrightarrow> d \<le> n \<Longrightarrow> (\<And>m. m < d \<Longrightarrow> step (tb_slots t ! ((i + m) mod tb_capacity t)) = Some Go) \<Longrightarrow>
    scan step t i n = scan step t ((i + d) mod tb_capacity t) (n - d)"
proof (induction d arbitrary: i n)
  case (Suc d)
  then obtain n' where n: "n = Suc n'" by (cases n) auto
  let ?i = "(i + 1) mod tb_capacity t"
  have s: "step (tb_slots t ! i) = Some Go" using Suc.prems(3) [of 0] Suc.prems(1) by simp
  have "scan step t i n = scan step t ?i n'" using s Suc.prems(1) n by (simp add: tb_okD [OF t])
  also have "\<dots> = scan step t ((?i + d) mod tb_capacity t) (n' - d)"
  proof (rule Suc.IH)
    show "?i < tb_capacity t" using tb_okD(1) [OF t] by simp
    show "d \<le> n'" using Suc.prems(2) n by simp
    show "step (tb_slots t ! ((?i + m) mod tb_capacity t)) = Some Go" if "m < d" for m
      using Suc.prems(3) [of "Suc m"] that by (simp add: mod_simps)
  qed
  also have "(?i + d) mod tb_capacity t = (i + Suc d) mod tb_capacity t" by (simp add: mod_simps)
  finally show ?case using n by simp
qed simp

lemma scan_at:
  "tb_ok t \<Longrightarrow> i < tb_capacity t \<Longrightarrow> step (tb_slots t ! i) = Some r \<Longrightarrow> r \<noteq> Go \<Longrightarrow> 0 < n \<Longrightarrow> scan step t i n = Some (r, i)"
  by (cases n; cases r) (simp_all add: tb_okD)

lemma scan_finds:
  assumes "tb_ok t" "h < tb_capacity t" "d < n" "\<And>m. m < d \<Longrightarrow> step (tb_slots t ! ((h + m) mod tb_capacity t)) = Some Go"
    and "step (tb_slots t ! ((h + d) mod tb_capacity t)) = Some r" "r \<noteq> Go"
  shows "scan step t h n = Some (r, (h + d) mod tb_capacity t)"
proof -
  have "scan step t h n = scan step t ((h + d) mod tb_capacity t) (n - d)"
    using assms by (intro scan_skip) auto
  also have "\<dots> = Some (r, (h + d) mod tb_capacity t)"
    using assms tb_okD(1) by (intro scan_at) auto
  finally show ?thesis .
qed

lemma scan_misses:
  assumes t: "tb_ok t" and s: "\<And>i. i < tb_capacity t \<Longrightarrow> step (tb_slots t ! i) = Some Go \<or> step (tb_slots t ! i) = Some Stop"
  shows "i < tb_capacity t \<Longrightarrow> \<exists>r j. scan step t i n = Some (r, j) \<and> (r = Go \<or> r = Stop)"
proof (induction n arbitrary: i)
  case (Suc n)
  have "(i + 1) mod tb_capacity t < tb_capacity t" using tb_okD(1) [OF t] by simp
  from Suc.IH [OF this] s [OF Suc.prems] Suc.prems show ?case by (auto simp: tb_okD [OF t])
qed simp

lemma straight_skip:
  "i + n \<le> length (tb_slots t) \<Longrightarrow> d \<le> n \<Longrightarrow> (\<And>m. m < d \<Longrightarrow> step (tb_slots t ! (i + m)) = Some Go) \<Longrightarrow>
    scan_straight step t i n = scan_straight step t (i + d) (n - d)"
proof (induction d arbitrary: i n)
  case (Suc d)
  then obtain n' where n: "n = Suc n'" by (cases n) auto
  have s: "step (tb_slots t ! i) = Some Go" using Suc.prems(3) [of 0] by simp
  have "scan_straight step t i n = scan_straight step t (i + 1) n'" using s n Suc.prems(1) by (simp add: vget_def)
  also have "\<dots> = scan_straight step t (i + 1 + d) (n' - d)"
  proof (rule Suc.IH)
    show "step (tb_slots t ! (i + 1 + m)) = Some Go" if "m < d" for m using Suc.prems(3) [of "Suc m"] that by simp
  qed (use Suc.prems n in auto)
  finally show ?case using n by simp
qed simp

lemma straight_at:
  "i < length (tb_slots t) \<Longrightarrow> step (tb_slots t ! i) = Some r \<Longrightarrow> r \<noteq> Go \<Longrightarrow> 0 < n \<Longrightarrow> scan_straight step t i n = Some (r, i)"
  by (cases n; cases r) (simp_all add: vget_def)

lemma straight_finds:
  assumes "i + n \<le> length (tb_slots t)" "d < n" "\<And>m. m < d \<Longrightarrow> step (tb_slots t ! (i + m)) = Some Go"
    and "step (tb_slots t ! (i + d)) = Some r" "r \<noteq> Go"
  shows "scan_straight step t i n = Some (r, i + d)"
  using straight_skip [of i n t d step] straight_at [of "i + d" t step r "n - d"] assms by simp

lemma straight_misses:
  assumes "\<And>j. j < length (tb_slots t) \<Longrightarrow> step (tb_slots t ! j) = Some Go \<or> step (tb_slots t ! j) = Some Stop"
  shows "i + n \<le> length (tb_slots t) \<Longrightarrow> \<exists>r j. scan_straight step t i n = Some (r, j) \<and> (r = Go \<or> r = Stop)"
proof (induction n arbitrary: i)
  case (Suc n)
  from Suc.IH [of "i + 1"] assms [of i] Suc.prems show ?case by (auto simp: vget_def)
qed simp

section \<open>Slots and entries\<close>

declare scan.simps [simp del] scan_straight.simps [simp del]

lemma holds_unique: "holds H heap t i p e \<Longrightarrow> holds H heap t i q f \<Longrightarrow> p = q \<and> e = f"
proof -
  assume a: "holds H heap t i p e" "holds H heap t i q f"
  have "tb_slots t ! i AND PTR_MASK = p" using a(1) by (simp add: holds_def ptr_ok_def encode_ptr)
  moreover have "tb_slots t ! i AND PTR_MASK = q" using a(2) by (simp add: holds_def ptr_ok_def encode_ptr)
  ultimately show ?thesis using a by (simp add: holds_def)
qed

lemma holds_used: "holds H heap t i p e \<Longrightarrow> i \<in> used t"
  by (auto simp: holds_def used_def ptr_ok_def dest: encode_nonzero)

lemma inv_used: "table_inv H heap t \<Longrightarrow> i \<in> used t \<Longrightarrow> \<exists>p e. holds H heap t i p e"
  by (auto simp: table_inv_def)

lemma inv_tb_ok: "table_inv H heap t \<Longrightarrow> tb_ok t"
  by (simp add: table_inv_def)

lemma inv_key: "table_inv H heap t \<Longrightarrow> holds H heap t i p e \<Longrightarrow> holds H heap t j q f \<Longrightarrow> e_key e = e_key f \<Longrightarrow> i = j"
  unfolding table_inv_def by blast

lemma inv_chain:
  "table_inv H heap t \<Longrightarrow> holds H heap t i p e \<Longrightarrow> n < dist t (home H t (e_key e)) i \<Longrightarrow>
    (home H t (e_key e) + n) mod tb_capacity t \<in> used t"
  unfolding table_inv_def by blast

lemma holds_decode: "holds H heap t i p e \<Longrightarrow> decode (tb_slots t ! i) = p"
  by (auto simp: holds_def ptr_ok_def decode_encode)

text \<open>The entry of a key in the list of entries is the one its slot holds.\<close>

lemma table_entries_set: "table_inv H heap t \<Longrightarrow> set (table_entries heap t) = {e. \<exists>i p. holds H heap t i p e}"
proof -
  assume inv: "table_inv H heap t"
  have "e \<in> set (table_entries heap t) \<longleftrightarrow> (\<exists>i < tb_capacity t. tb_slots t ! i \<noteq> 0 \<and> heap (decode (tb_slots t ! i)) = Some e)" for e
    using tb_okD(3) [OF inv_tb_ok [OF inv]]
    by (force simp: table_entries_def table_slots_def List.map_filter_def in_set_conv_nth split: if_splits)
  also have "\<dots> e \<longleftrightarrow> (\<exists>i p. holds H heap t i p e)" for e
  proof
    assume "\<exists>i < tb_capacity t. tb_slots t ! i \<noteq> 0 \<and> heap (decode (tb_slots t ! i)) = Some e"
    then obtain i where i: "i \<in> used t" "heap (decode (tb_slots t ! i)) = Some e" by (auto simp: used_def)
    from inv_used [OF inv i(1)] obtain p f where h: "holds H heap t i p f" by blast
    with holds_decode [OF h] i(2) have "f = e" by (auto simp: holds_def)
    with h show "\<exists>i p. holds H heap t i p e" by blast
  next
    assume "\<exists>i p. holds H heap t i p e"
    then obtain i p where h: "holds H heap t i p e" by blast
    with holds_used [OF h] holds_decode [OF h] show
      "\<exists>i < tb_capacity t. tb_slots t ! i \<noteq> 0 \<and> heap (decode (tb_slots t ! i)) = Some e"
      by (intro exI [of _ i]) (auto simp: used_def holds_def)
  qed
  finally show ?thesis by blast
qed

lemma entry_at_iff:
  assumes inv: "table_inv H heap t"
  shows "entry_at heap t k = Some e \<longleftrightarrow> (\<exists>i p. holds H heap t i p e) \<and> e_key e = k"
proof -
  have uniq: "e = f" if "e \<in> set (table_entries heap t)" "f \<in> set (table_entries heap t)" "e_key e = e_key f" for e f
    using that holds_unique inv_key [OF inv] unfolding table_entries_set [OF inv] by blast
  have m: "map_of (map (\<lambda>e. (e_key e, e)) es) k = Some e \<longleftrightarrow> e \<in> set es \<and> e_key e = k"
    if "\<And>e f. e \<in> set es \<Longrightarrow> f \<in> set es \<Longrightarrow> e_key e = e_key f \<Longrightarrow> e = f" for es and e :: "'a entry"
    using that
  proof (induction es)
    case (Cons a es)
    then have "map_of (map (\<lambda>e. (e_key e, e)) es) k = Some e \<longleftrightarrow> e \<in> set es \<and> e_key e = k" by simp
    with Cons.prems [of e a] Cons.prems [of a e] show ?case by auto
  qed simp
  show ?thesis unfolding entry_at_def using m [where es = "table_entries heap t" and e = e] uniq table_entries_set [OF inv] by auto
qed

lemma entry_at_None:
  "table_inv H heap t \<Longrightarrow> entry_at heap t k = None \<longleftrightarrow> (\<forall>i p e. holds H heap t i p e \<longrightarrow> e_key e \<noteq> k)"
  using entry_at_iff [of H heap t k] by (metis not_None_eq)

section \<open>Searching\<close>

lemma find_step_other:
  "holds H heap t i p e \<Longrightarrow> e_key e \<noteq> k \<Longrightarrow> find_step heap k (H k) (tb_slots t ! i) = Some Go"
  using flag_bit [of "encode p (H (e_key e))"] bit_encode [of p "H (e_key e)" 63] encode_nonzero [of p "H (e_key e)"]
  by (auto simp: find_step_def holds_def ptr_ok_def encode_ptr is_match_def)

lemma find_step_own:
  "holds H heap t i p e \<Longrightarrow> e_key e = k \<Longrightarrow>
    find_step heap k (H k) (tb_slots t ! i) = Some (if e_value e = None then Go else Hit p)"
  by (auto simp: find_step_def holds_def ptr_ok_def encode_hi encode_ptr is_match_def match_iff entry_ok_def)

lemma find_step_zero: "find_step heap k h 0 = Some Stop"
proof -
  have "word_hi 0 \<noteq> expected_hi h" by (simp add: hi_eq)
  then show ?thesis by (simp add: find_step_def)
qed

text \<open>When no live entry has the key, no step of the search is a hit.\<close>

lemma find_step_dead:
  assumes inv: "table_inv H heap t" and k: "\<And>e. entry_at heap t k = Some e \<Longrightarrow> e_value e = None"
    and i: "i < length (tb_slots t)"
  shows "find_step heap k (H k) (tb_slots t ! i) = Some Go \<or> find_step heap k (H k) (tb_slots t ! i) = Some Stop"
proof (cases "i \<in> used t")
  case True
  then obtain p e where h: "holds H heap t i p e" using inv_used [OF inv] by blast
  show ?thesis
  proof (cases "e_key e = k")
    case True
    then have "e_value e = None" using k entry_at_iff [OF inv] h by blast
    then show ?thesis using find_step_own [OF h True] by simp
  qed (use find_step_other [OF h] in simp)
next
  case False
  then have "tb_slots t ! i = 0" using i inv_tb_ok [OF inv] by (auto simp: used_def tb_ok_def)
  then show ?thesis by (simp add: find_step_zero)
qed

lemma find_step_before:
  assumes inv: "table_inv H heap t" and h: "holds H heap t i p e" and n: "n < dist t (home H t (e_key e)) i"
  shows "find_step heap (e_key e) (H (e_key e)) (tb_slots t ! ((home H t (e_key e) + n) mod tb_capacity t)) = Some Go"
proof -
  let ?h = "home H t (e_key e)" and ?c = "tb_capacity t"
  note t = inv_tb_ok [OF inv]
  obtain q f where f: "holds H heap t ((?h + n) mod ?c) q f" using inv_used [OF inv inv_chain [OF inv h n]] by blast
  have "e_key f \<noteq> e_key e"
  proof
    assume "e_key f = e_key e"
    then have "(?h + n) mod ?c = i" using inv_key [OF inv f h] by simp
    moreover have "n < ?c" using n dist_lt [OF tb_okD(1) [OF t]] by (meson less_trans)
    ultimately have "dist t ?h i = n" using dist_of [OF home_lt [OF t], of n H "e_key e"] by simp
    with n show False by simp
  qed
  with find_step_other [OF f] show ?thesis by simp
qed

lemma home_and: "tb_ok t \<Longrightarrow> unat (H k) AND tb_mask t = home H t k"
  by (simp add: home_def tb_okD)

lemma find_fast_home:
  assumes t: "tb_ok (sh_table sh)"
  shows "find_fast k (H k) sh =
      (if home H (sh_table sh) k + 16 > tb_capacity (sh_table sh)
       then map_option (hit \<circ> fst)
         (scan (find_step (sh_heap sh) k (H k)) (sh_table sh) (home H (sh_table sh) k) (tb_capacity (sh_table sh)))
       else scan_straight (find_step (sh_heap sh) k (H k)) (sh_table sh) (home H (sh_table sh) k) 16 \<bind> (\<lambda>(r, _).
         case r of Go \<Rightarrow> map_option (hit \<circ> fst) (scan (find_step (sh_heap sh) k (H k)) (sh_table sh)
             ((home H (sh_table sh) k + 16) mod tb_capacity (sh_table sh)) (tb_capacity (sh_table sh)))
         | _ \<Rightarrow> Some (hit r)))"
  unfolding find_fast_def find_slow_def Let_def tb_okD(5) [OF t] tb_okD(2) [OF t] home_def by simp

lemma get_pinned_find: "get_pinned_fast k h sh = find_fast k h sh \<bind> clone_found sh"
  by (auto simp: get_pinned_fast_def find_fast_def get_pinned_slow_def find_slow_def Let_def clone_found_def
      split: Option.bind_split probe.split)

text \<open>A search returns the live entry of the key, and nothing when there is none.\<close>

lemma find_slow_live:
  assumes inv: "table_inv H (sh_heap sh) (sh_table sh)" and h: "holds H (sh_heap sh) (sh_table sh) i p e" "e_key e = k"
    and v: "e_value e \<noteq> None" and m: "m \<le> dist (sh_table sh) (home H (sh_table sh) k) i"
  shows "scan (find_step (sh_heap sh) k (H k)) (sh_table sh)
      ((home H (sh_table sh) k + m) mod tb_capacity (sh_table sh)) (tb_capacity (sh_table sh)) = Some (Hit p, i)"
proof -
  let ?t = "sh_table sh" and ?h = "home H (sh_table sh) k" and ?c = "tb_capacity (sh_table sh)"
  note t = inv_tb_ok [OF inv]
  have i: "i < ?c" using h by (simp add: holds_def)
  let ?d = "dist ?t ?h i - m"
  have e: "((?h + m) mod ?c + n) mod ?c = (?h + (m + n)) mod ?c" for n by (simp add: mod_simps add.assoc)
  have end_: "((?h + m) mod ?c + ?d) mod ?c = i"
    using e [of ?d] m dist_step [OF home_lt [OF t] i, of H k] by simp
  have "scan (find_step (sh_heap sh) k (H k)) ?t ((?h + m) mod ?c) ?c = Some (Hit p, ((?h + m) mod ?c + ?d) mod ?c)"
  proof (rule scan_finds [OF t])
    show "(?h + m) mod ?c < ?c" using tb_okD(1) [OF t] by simp
    show "?d < ?c" using dist_lt [OF tb_okD(1) [OF t], of ?h i] by simp
    show "find_step (sh_heap sh) k (H k) (tb_slots ?t ! (((?h + m) mod ?c + n) mod ?c)) = Some Go" if "n < ?d" for n
      using find_step_before [OF inv h(1), of "m + n"] that h(2) unfolding e by simp
    show "find_step (sh_heap sh) k (H k) (tb_slots ?t ! (((?h + m) mod ?c + ?d) mod ?c)) = Some (Hit p)"
      unfolding end_ using find_step_own [OF h] v by simp
  qed simp
  then show ?thesis unfolding end_ .
qed

lemma find_fast_live:
  assumes inv: "shard_inv H sh" and h: "holds H (sh_heap sh) (sh_table sh) i p e" "e_key e = k" and v: "e_value e \<noteq> None"
  shows "find_fast k (H k) sh = Some (Some p)" "get_pinned_fast k (H k) sh = Some (e_value e)"
proof -
  let ?t = "sh_table sh" and ?h = "home H (sh_table sh) k" and ?c = "tb_capacity (sh_table sh)"
  let ?step = "find_step (sh_heap sh) k (H k)"
  have inv: "table_inv H (sh_heap sh) ?t" using inv by (simp add: shard_inv_def)
  note t = inv_tb_ok [OF inv]
  have i: "i < ?c" using h by (simp add: holds_def)
  have p: "sh_heap sh p = Some e" using h by (simp add: holds_def)
  have slow: "scan ?step ?t ((?h + m) mod ?c) ?c = Some (Hit p, i)" if "m \<le> dist ?t ?h i" for m
    using find_slow_live [OF inv h v that] .
  have slow0: "scan ?step ?t ?h ?c = Some (Hit p, i)" using slow [of 0] home_lt [OF t, of H k] by simp
  have fast: "\<exists>j. scan_straight ?step ?t ?h 16 = Some (Hit p, j) \<or>
      (scan_straight ?step ?t ?h 16 = Some (Go, j) \<and> 16 \<le> dist ?t ?h i)" if b: "?h + 16 \<le> ?c"
  proof -
    have step: "?step (tb_slots ?t ! (?h + n)) = Some Go" if "n < dist ?t ?h i" "n < 16" for n
      using find_step_before [OF inv h(1), of n] that h(2) b by simp
    show ?thesis
    proof (cases "dist ?t ?h i < 16")
      case True
      have "?h + dist ?t ?h i = i" using dist_step [OF home_lt [OF t] i, of H k] True b by simp
      then have "?step (tb_slots ?t ! (?h + dist ?t ?h i)) = Some (Hit p)" using find_step_own [OF h] v by simp
      with straight_finds [of ?h 16 ?t "dist ?t ?h i" ?step "Hit p"] True step b tb_okD(3) [OF t] show ?thesis by auto
    next
      case False
      with straight_skip [of ?h 16 ?t 16 ?step] step b tb_okD(3) [OF t] show ?thesis by (auto simp: scan_straight.simps)
    qed
  qed
  show f: "find_fast k (H k) sh = Some (Some p)"
  proof (cases "?h + 16 > ?c")
    case True
    then show ?thesis using slow0 by (simp add: find_fast_home [OF t])
  next
    case False
    with fast slow [of 16] show ?thesis by (auto simp: find_fast_home [OF t])
  qed
  show "get_pinned_fast k (H k) sh = Some (e_value e)"
    using p v by (auto simp: get_pinned_find f clone_found_def entry_value_def)
qed

lemma find_fast_dead:
  assumes inv: "shard_inv H sh" and k: "shard_map sh k = None"
  shows "find_fast k (H k) sh = Some None" "get_pinned_fast k (H k) sh = Some None"
proof -
  let ?t = "sh_table sh" and ?h = "home H (sh_table sh) k" and ?c = "tb_capacity (sh_table sh)"
  let ?step = "find_step (sh_heap sh) k (H k)"
  have inv: "table_inv H (sh_heap sh) ?t" using inv by (simp add: shard_inv_def)
  note t = inv_tb_ok [OF inv]
  have "e_value e = None" if "entry_at (sh_heap sh) ?t k = Some e" for e using that k by (simp add: shard_map_def)
  note s = find_step_dead [OF inv this]
  have slow: "\<exists>r j. scan ?step ?t (m mod ?c) ?c = Some (r, j) \<and> (r = Go \<or> r = Stop)" for m
  proof -
    have "m mod ?c < ?c" using tb_okD(1) [OF t] by simp
    with scan_misses [OF t, of ?step "m mod ?c" ?c] s tb_okD(3) [OF t] show ?thesis by auto
  qed
  have slow0: "\<exists>r j. scan ?step ?t ?h ?c = Some (r, j) \<and> (r = Go \<or> r = Stop)"
    using slow [of ?h] home_lt [OF t, of H k] by simp
  have fast: "\<exists>r j. scan_straight ?step ?t ?h 16 = Some (r, j) \<and> (r = Go \<or> r = Stop)" if "?h + 16 \<le> ?c"
    using straight_misses [of ?t ?step ?h 16] s that tb_okD(3) [OF t] by auto
  show f: "find_fast k (H k) sh = Some None"
  proof (cases "?h + 16 > ?c")
    case True
    then show ?thesis using slow0 by (auto simp: find_fast_home [OF t])
  next
    case False
    with fast slow [of "?h + 16"] show ?thesis by (auto simp: find_fast_home [OF t])
  qed
  show "get_pinned_fast k (H k) sh = Some None" by (simp add: get_pinned_find f clone_found_def)
qed

section \<open>Free slots\<close>

lemma slot_step_other:
  "holds H heap t i p e \<Longrightarrow> e_key e \<noteq> k \<Longrightarrow> slot_step heap k (H k) (tb_slots t ! i) = Some Go"
  using flag_bit [of "encode p (H (e_key e))"] bit_encode [of p "H (e_key e)" 63] encode_nonzero [of p "H (e_key e)"]
  by (auto simp: slot_step_def holds_def ptr_ok_def encode_ptr key_match_def)

lemma slot_step_own: "holds H heap t i p e \<Longrightarrow> e_key e = k \<Longrightarrow> slot_step heap k (H k) (tb_slots t ! i) = Some (Hit p)"
  using encode_nonzero [of p "H k"]
  by (auto simp: slot_step_def holds_def ptr_ok_def encode_ptr key_match_def entry_ok_def reserved_eq encode_hi)

lemma finite_used [simp]: "finite (used t)"
  by (auto simp: used_def)

lemma free_slot:
  assumes t: "tb_ok t" and u: "card (used t) < tb_capacity t" and h: "h < tb_capacity t"
  obtains d where "d < tb_capacity t" "(h + d) mod tb_capacity t \<notin> used t" "\<And>m. m < d \<Longrightarrow> (h + m) mod tb_capacity t \<in> used t"
proof -
  let ?P = "\<lambda>d. (h + d) mod tb_capacity t \<notin> used t"
  have "\<not> {..<tb_capacity t} \<subseteq> used t" using u card_mono [of "used t" "{..<tb_capacity t}"] by auto
  then obtain i where i: "i < tb_capacity t" "i \<notin> used t" by auto
  then have "?P (dist t h i)" using dist_step [OF h i(1)] by simp
  then have l: "?P (LEAST d. ?P d)" "(LEAST d. ?P d) \<le> dist t h i" by (rule LeastI [of ?P], rule Least_le [of ?P])
  show thesis
  proof (rule that)
    show "(LEAST d. ?P d) < tb_capacity t" using l(2) dist_lt [OF tb_okD(1) [OF t], of h i] by linarith
    show "?P (LEAST d. ?P d)" by (rule l(1))
    show "(h + m) mod tb_capacity t \<in> used t" if "m < (LEAST d. ?P d)" for m using not_less_Least [OF that] by simp
  qed
qed

lemma unused_zero: "i < tb_capacity t \<Longrightarrow> i \<notin> used t \<Longrightarrow> tb_slots t ! i = 0"
  by (simp add: used_def)

text \<open>Where the probe loop of an insertion ends: at the entry of the key, or at the first free slot of its chain.\<close>

lemma set_scan_hit:
  assumes inv: "table_inv H heap t" and h: "holds H heap t i p e" "e_key e = k"
  shows "scan (slot_step heap k (H k)) t (home H t k) (tb_capacity t) = Some (Hit p, i)"
proof -
  note t = inv_tb_ok [OF inv]
  let ?h = "home H t k" and ?d = "dist t (home H t k) i" and ?c = "tb_capacity t"
  have i: "i < ?c" using h by (simp add: holds_def)
  have e: "(?h + ?d) mod ?c = i" by (rule dist_step [OF home_lt [OF t] i])
  have "scan (slot_step heap k (H k)) t ?h ?c = Some (Hit p, (?h + ?d) mod ?c)"
  proof (rule scan_finds [OF t home_lt [OF t]])
    show "?d < ?c" by (rule dist_lt [OF tb_okD(1) [OF t]])
    show "slot_step heap k (H k) (tb_slots t ! ((?h + n) mod ?c)) = Some Go" if n: "n < ?d" for n
    proof -
      have "n < dist t (home H t (e_key e)) i" using n h(2) by simp
      from inv_chain [OF inv h(1) this] obtain q f where f: "holds H heap t ((?h + n) mod ?c) q f"
        using inv_used [OF inv] h(2) by blast
      have "e_key f \<noteq> k"
      proof
        assume "e_key f = k"
        then have "(?h + n) mod ?c = i" using inv_key [OF inv f h(1)] h(2) by simp
        moreover have "n < ?c" using n dist_lt [OF tb_okD(1) [OF t]] by (meson less_trans)
        ultimately show False using dist_of [OF home_lt [OF t], of n H k] n by simp
      qed
      then show ?thesis by (rule slot_step_other [OF f])
    qed
    show "slot_step heap k (H k) (tb_slots t ! ((?h + ?d) mod ?c)) = Some (Hit p)" unfolding e by (rule slot_step_own [OF h])
  qed simp
  then show ?thesis unfolding e .
qed

lemma set_scan_free:
  assumes inv: "table_inv H heap t" and k: "entry_at heap t k = None" and d: "d < tb_capacity t"
    "(home H t k + d) mod tb_capacity t \<notin> used t" "\<And>m. m < d \<Longrightarrow> (home H t k + m) mod tb_capacity t \<in> used t"
  shows "scan (slot_step heap k (H k)) t (home H t k) (tb_capacity t) = Some (Stop, (home H t k + d) mod tb_capacity t)"
proof (rule scan_finds [OF inv_tb_ok [OF inv] home_lt [OF inv_tb_ok [OF inv]] d(1)])
  show "slot_step heap k (H k) (tb_slots t ! ((home H t k + m) mod tb_capacity t)) = Some Go" if "m < d" for m
  proof -
    from inv_used [OF inv d(3) [OF that]] obtain q f where f: "holds H heap t ((home H t k + m) mod tb_capacity t) q f" by blast
    then have "e_key f \<noteq> k" using k entry_at_None [OF inv] by blast
    then show ?thesis by (rule slot_step_other [OF f])
  qed
  have "tb_slots t ! ((home H t k + d) mod tb_capacity t) = 0"
    using d(2) tb_okD(1) [OF inv_tb_ok [OF inv]] by (intro unused_zero) auto
  then show "slot_step heap k (H k) (tb_slots t ! ((home H t k + d) mod tb_capacity t)) = Some Stop"
    by (simp add: slot_step_def)
qed simp

section \<open>Adding and changing an entry\<close>

lemma table_insert:
  assumes inv: "table_inv H heap t" and k: "entry_at heap t (e_key e) = None"
    and d: "d < tb_capacity t" "(home H t (e_key e) + d) mod tb_capacity t \<notin> used t"
      "\<And>m. m < d \<Longrightarrow> (home H t (e_key e) + m) mod tb_capacity t \<in> used t"
    and a: "ptr_ok a" "heap' a = Some e" "entry_ok H e"
    and ext: "\<And>i p f. holds H heap t i p f \<Longrightarrow> heap' p = Some f"
    and t': "t' = t\<lparr>tb_slots := (tb_slots t)[(home H t (e_key e) + d) mod tb_capacity t := encode a (H (e_key e))]\<rparr>"
  shows "table_inv H heap' t'" "card (used t') = card (used t) + 1"
    "entry_at heap' t' = (entry_at heap t)(e_key e \<mapsto> e)"
proof -
  let ?c = "tb_capacity t" and ?h = "home H t (e_key e)"
  let ?j = "(?h + d) mod ?c"
  note t = inv_tb_ok [OF inv]
  have j: "?j < ?c" using tb_okD(1) [OF t] by simp
  have c: "tb_capacity t' = ?c" "home H t' = home H t" "dist t' = dist t"
    using t' by (simp_all add: fun_eq_iff home_def dist_def)
  have ne: "encode a (H (e_key e)) \<noteq> 0" using a(1) by (simp add: ptr_ok_def encode_nonzero)
  have slot: "tb_slots t' ! i = (if i = ?j then encode a (H (e_key e)) else tb_slots t ! i)" for i
    using t' j tb_okD(3) [OF t] by (simp add: nth_list_update)
  have used': "used t' = insert ?j (used t)" using j ne by (auto simp: used_def slot c)
  have ok': "tb_ok t'"
  proof -
    have "tb_slots t' ! i = 0" if "?c \<le> i" "i < ?c + 16" for i
    proof -
      have "i \<noteq> ?j" using that(1) j by linarith
      then show ?thesis using that t by (auto simp: slot tb_ok_def)
    qed
    then show ?thesis using t by (simp add: tb_ok_def t')
  qed
  have holds': "holds H heap' t' i p f \<longleftrightarrow> i = ?j \<and> p = a \<and> f = e \<or> holds H heap t i p f" for i p f
  proof (cases "i = ?j")
    case True
    have "\<not> holds H heap t i p f" using True d(2) holds_used by blast
    moreover have "p = a" if "encode a (H (e_key e)) = encode p (H (e_key f))" "ptr_ok p"
      using that a(1) encode_ptr [of a "H (e_key e)"] encode_ptr [of p "H (e_key f)"] by (simp add: ptr_ok_def)
    ultimately show ?thesis using True j a by (auto simp: holds_def slot c)
  next
    case False
    have "holds H heap t i p f" if h: "holds H heap' t' i p f"
    proof -
      have "i \<in> used t" using holds_used [OF h] False used' by auto
      then obtain q g where g: "holds H heap t i q g" using inv_used [OF inv] by blast
      have "tb_slots t ! i = encode p (H (e_key f))" using h False by (simp add: holds_def slot)
      then have "q = p" using g h encode_ptr [of q "H (e_key g)"] encode_ptr [of p "H (e_key f)"]
        by (auto simp: holds_def ptr_ok_def)
      then have "f = g" using ext [OF g] h by (simp add: holds_def)
      with g \<open>q = p\<close> show ?thesis by simp
    qed
    moreover have "holds H heap' t' i p f" if "holds H heap t i p f"
      using that ext [OF that] False by (simp add: holds_def slot c)
    ultimately show ?thesis using False by blast
  qed
  have kne: "e_key f \<noteq> e_key e" if "holds H heap t i p f" for i p f
    using that k entry_at_None [OF inv] by blast
  show inv': "table_inv H heap' t'"
    unfolding table_inv_def
  proof (intro conjI ballI allI impI)
    show "\<exists>p e. holds H heap' t' i p e" if "i \<in> used t'" for i
      using that inv_used [OF inv] unfolding used' holds' by blast
    show "i = j" if "holds H heap' t' i p e1 \<and> holds H heap' t' j q f1 \<and> e_key e1 = e_key f1" for i j p q e1 f1
      using that inv_key [OF inv] kne unfolding holds' by metis
    show "(home H t' (e_key f) + n) mod tb_capacity t' \<in> used t'"
      if "holds H heap' t' i p f" "n < dist t' (home H t' (e_key f)) i" for i p f n
    proof (cases "holds H heap t i p f")
      case True
      then show ?thesis using inv_chain [OF inv True] that(2) by (simp add: c used')
    next
      case False
      then have "i = ?j" "f = e" using that(1) holds' by auto
      then have "n < d" using that(2) dist_of [OF home_lt [OF t] d(1), of H "e_key e"] by (simp add: c)
      then show ?thesis using d(3) \<open>f = e\<close> by (simp add: c used')
    qed
  qed (rule ok')
  show "card (used t') = card (used t) + 1" using d(2) by (simp add: used')
  show "entry_at heap' t' = (entry_at heap t)(e_key e \<mapsto> e)"
  proof
    fix k'
    have "entry_at heap' t' k' = Some f \<longleftrightarrow> ((entry_at heap t)(e_key e \<mapsto> e)) k' = Some f" for f
      using kne by (auto simp: entry_at_iff [OF inv'] entry_at_iff [OF inv] holds')
    then show "entry_at heap' t' k' = ((entry_at heap t)(e_key e \<mapsto> e)) k'" by (metis option.exhaust)
  qed
qed

lemma table_update:
  assumes inv: "table_inv H heap t" and h: "holds H heap t i p e" and e': "e_key e' = e_key e" "entry_ok H e'"
  shows "table_inv H (heap(p \<mapsto> e')) t" "entry_at (heap(p \<mapsto> e')) t = (entry_at heap t)(e_key e \<mapsto> e')"
    "holds H (heap(p \<mapsto> e')) t i p e'"
proof -
  let ?heap = "heap(p \<mapsto> e')"
  have p: "j = i \<and> f = e" if "holds H heap t j p f" for j f
    using that h inv_key [OF inv that h] by (auto simp: holds_def)
  have holds': "holds H ?heap t j q f \<longleftrightarrow> (if q = p then j = i \<and> f = e' else holds H heap t j q f)" for j q f
  proof (cases "q = p")
    case True
    have "holds H heap t j p e" if "holds H ?heap t j q f"
      using that True e'(1) h by (auto simp: holds_def)
    then have "j = i" if "holds H ?heap t j q f" using that p by blast
    moreover have "holds H ?heap t i p e'" using h e' by (simp add: holds_def)
    ultimately show ?thesis using True by (auto simp: holds_def)
  qed (simp add: holds_def)
  show "holds H ?heap t i p e'" by (simp add: holds')
  have key: "\<exists>g. holds H heap t j q g \<and> e_key g = e_key f" if "holds H ?heap t j q f" for j q f
    using that h e'(1) by (cases "q = p") (auto simp: holds')
  show inv': "table_inv H ?heap t"
    unfolding table_inv_def
  proof (intro conjI ballI allI impI)
    show "\<exists>q f. holds H ?heap t j q f" if "j \<in> used t" for j
    proof -
      from inv_used [OF inv that] obtain q f where f: "holds H heap t j q f" by blast
      show ?thesis
      proof (cases "q = p")
        case True
        then have "j = i" using p f by blast
        then show ?thesis using holds' [of i p e'] by auto
      next
        case False
        then show ?thesis using f holds' by auto
      qed
    qed
    show "j = j'" if "holds H ?heap t j q f \<and> holds H ?heap t j' q' f' \<and> e_key f = e_key f'" for j j' q q' f f'
      using that key inv_key [OF inv] by metis
    show "(home H t (e_key f) + n) mod tb_capacity t \<in> used t"
      if "holds H ?heap t j q f" "n < dist t (home H t (e_key f)) j" for j q f n
      using key [OF that(1)] that(2) inv_chain [OF inv] by metis
  qed (rule inv_tb_ok [OF inv])
  show "entry_at ?heap t = (entry_at heap t)(e_key e \<mapsto> e')"
  proof
    fix k
    have "entry_at ?heap t k = Some f \<longleftrightarrow> ((entry_at heap t)(e_key e \<mapsto> e')) k = Some f" for f
    proof (cases "k = e_key e")
      case True
      have "\<not> holds H heap t j q f" if "e_key f = e_key e" "q \<noteq> p" for j q
        using that inv_key [OF inv _ h] holds_unique [OF h] by metis
      then show ?thesis using True e'(1) by (auto simp: entry_at_iff [OF inv'] holds' split: if_splits)
    next
      case False
      have "holds H ?heap t j q f \<longleftrightarrow> holds H heap t j q f" if k: "e_key f = k" for j q
      proof (cases "q = p")
        case True
        have "f \<noteq> e'" "f \<noteq> e" using k False e'(1) by auto
        then show ?thesis using p True unfolding holds' by auto
      qed (simp add: holds')
      then have "(\<exists>j q. holds H ?heap t j q f \<and> e_key f = k) \<longleftrightarrow> (\<exists>j q. holds H heap t j q f \<and> e_key f = k)" by blast
      then show ?thesis using False by (simp add: entry_at_iff [OF inv'] entry_at_iff [OF inv])
    qed
    then show "entry_at ?heap t k = ((entry_at heap t)(e_key e \<mapsto> e')) k" by (metis option.exhaust)
  qed
qed

section \<open>Rebuilding\<close>

lemma lives_simps [simp]:
  "lives heap [] = []"
  "lives heap (w # ws) = (case live_of heap w of None \<Rightarrow> lives heap ws | Some e \<Rightarrow> e # lives heap ws)"
  by (simp_all add: lives_def List.map_filter_simps split: option.split)

lemma encode_low: "encode p (low_hash h) = encode p h"
proof -
  have "hash_tag (low_hash h) = hash_tag h"
    by (simp add: word64_eq_iff bit_hash_tag low_hash_bit)
  then show ?thesis by (simp add: encode_def)
qed

lemma low_home: "tb_ok t \<Longrightarrow> unat (low_hash (H k)) AND tb_mask t = home H t k"
proof -
  assume t: "tb_ok t"
  then obtain n where n: "tb_capacity t = 2 ^ n" "2 ^ n \<le> (2::nat) ^ 32" by (auto simp: tb_ok_def)
  then have "n \<le> 32" using power_le_imp_le_exp [of "2::nat" n 32] by simp
  then have d: "tb_capacity t dvd 2 ^ 32" unfolding n(1) by (rule le_imp_power_dvd)
  have "unat (low_hash (H k)) = unat (H k) mod 2 ^ 32"
    by (simp add: unsigned_ucast_eq take_bit_eq_mod unat_mod)
  then show ?thesis using d nat_and_mask [OF n(1), of "unat (low_hash (H k))"] t
    by (simp add: home_def tb_ok_def mod_mod_cancel)
qed

lemma scan_place:
  assumes inv: "table_inv H heap t" and h: "h < tb_capacity t" and d: "d < tb_capacity t"
    "(h + d) mod tb_capacity t \<notin> used t" "\<And>m. m < d \<Longrightarrow> (h + m) mod tb_capacity t \<in> used t"
  shows "scan place_step t h (tb_capacity t) = Some (Stop, (h + d) mod tb_capacity t)"
proof (rule scan_finds [OF inv_tb_ok [OF inv] h d(1)])
  show "place_step (tb_slots t ! ((h + m) mod tb_capacity t)) = Some Go" if "m < d" for m
  proof -
    from inv_used [OF inv d(3) [OF that]] obtain q f where f: "holds H heap t ((h + m) mod tb_capacity t) q f" by blast
    then show ?thesis using holds_decode [OF f] by (simp add: place_step_def holds_def ptr_ok_def)
  qed
  have "tb_slots t ! ((h + d) mod tb_capacity t) = 0"
    using d(2) tb_okD(1) [OF inv_tb_ok [OF inv]] by (intro unused_zero) auto
  then show "place_step (tb_slots t ! ((h + d) mod tb_capacity t)) = Some Stop"
    by (simp add: place_step_def decode_def)
qed simp

lemma place_law:
  assumes inv: "table_inv H heap t" and room: "card (used t) < tb_capacity t"
    and p: "ptr_ok p" "heap p = Some e" "entry_ok H e" and k: "entry_at heap t (e_key e) = None"
  obtains t' where "place p (stored_hash (e_state e)) t = Some t'" "table_inv H heap t'"
    "tb_capacity t' = tb_capacity t" "card (used t') = card (used t) + 1"
    "entry_at heap t' = (entry_at heap t)(e_key e \<mapsto> e)"
proof -
  note t = inv_tb_ok [OF inv]
  let ?h = "home H t (e_key e)"
  obtain d where d: "d < tb_capacity t" "(?h + d) mod tb_capacity t \<notin> used t"
    "\<And>m. m < d \<Longrightarrow> (?h + m) mod tb_capacity t \<in> used t"
    using free_slot [OF t room home_lt [OF t]] by blast
  let ?j = "(?h + d) mod tb_capacity t"
  let ?t = "t\<lparr>tb_slots := (tb_slots t)[?j := encode p (H (e_key e))]\<rparr>"
  have s: "stored_hash (e_state e) = low_hash (H (e_key e))" using p(3) by (simp add: entry_ok_def)
  have j: "?j < length (tb_slots t)" using tb_okD(1) [OF t] tb_okD(3) [OF t] by (simp add: trans_less_add1)
  have ext: "heap q = Some f" if "holds H heap t i q f" for i q f using that by (simp add: holds_def)
  show thesis
  proof (rule that)
    show "place p (stored_hash (e_state e)) t = Some ?t"
      using scan_place [OF inv home_lt [OF t] d] j
      by (simp add: place_def s low_home [OF t] encode_low vset_def)
    show "table_inv H heap ?t" by (rule table_insert(1) [where heap' = heap, OF inv k d p ext refl])
    show "card (used ?t) = card (used t) + 1" by (rule table_insert(2) [where heap' = heap, OF inv k d p ext refl])
    show "entry_at heap ?t = (entry_at heap t)(e_key e \<mapsto> e)" by (rule table_insert(3) [where heap' = heap, OF inv k d p ext refl])
  qed simp
qed

lemma rebuild_loop_law:
  assumes "table_inv H heap t" "card (used t) + length (lives heap ws) < tb_capacity t"
    and "\<And>w. w \<in> set ws \<Longrightarrow> good_word H heap w" "distinct (map e_key (lives heap ws))"
    and "\<And>e. e \<in> set (lives heap ws) \<Longrightarrow> entry_at heap t (e_key e) = None"
  shows "\<exists>t' r'. rebuild_loop ws heap t n r = Some (t', n + length (lives heap ws), r') \<and> table_inv H heap t'
    \<and> tb_capacity t' = tb_capacity t \<and> card (used t') = card (used t) + length (lives heap ws)
    \<and> entry_at heap t' = entry_at heap t ++ map_of (map (\<lambda>e. (e_key e, e)) (lives heap ws))"
  using assms
proof (induction ws arbitrary: t n r)
  case (Cons w ws)
  have g: "good_word H heap w" by (simp add: Cons.prems(3))
  show ?case
  proof (cases "live_of heap w")
    case None
    have "\<exists>r1. rebuild_loop (w # ws) heap t n r = rebuild_loop ws heap t n r1"
      using g None by (auto simp: good_word_def live_of_def split: if_splits)
    then obtain r1 where "rebuild_loop (w # ws) heap t n r = rebuild_loop ws heap t n r1" by blast
    moreover note Cons.IH [of t n r1] Cons.prems
    ultimately show ?thesis using None by simp
  next
    case (Some e)
    then have p: "decode w \<noteq> 0" "ptr_ok (decode w)" "heap (decode w) = Some e" "entry_ok H e" "state_occupied (e_state e)"
      using g by (auto simp: good_word_def live_of_def split: if_splits option.splits)
    have room: "card (used t) < tb_capacity t" using Cons.prems(2) Some by simp
    have k: "entry_at heap t (e_key e) = None" using Cons.prems(5) Some by simp
    obtain t1 where t1: "place (decode w) (stored_hash (e_state e)) t = Some t1" "table_inv H heap t1"
        "tb_capacity t1 = tb_capacity t" "card (used t1) = card (used t) + 1"
        "entry_at heap t1 = (entry_at heap t)(e_key e \<mapsto> e)"
      by (rule place_law [OF Cons.prems(1) room p(2-4) k])
    have nk: "e_key e \<notin> e_key ` set (lives heap ws)" using Cons.prems(4) Some by simp
    have nd: "e_key e \<notin> dom (map_of (map (\<lambda>e. (e_key e, e)) (lives heap ws)))"
      using nk by (simp add: dom_map_of_conv_image_fst image_image)
    have "\<exists>t' r'. rebuild_loop ws heap t1 (n + 1) r = Some (t', n + 1 + length (lives heap ws), r') \<and> table_inv H heap t'
      \<and> tb_capacity t' = tb_capacity t1 \<and> card (used t') = card (used t1) + length (lives heap ws)
      \<and> entry_at heap t' = entry_at heap t1 ++ map_of (map (\<lambda>e. (e_key e, e)) (lives heap ws))"
    proof (rule Cons.IH [OF t1(2)])
      show "card (used t1) + length (lives heap ws) < tb_capacity t1" using Cons.prems(2) Some t1 by simp
      show "good_word H heap w'" if "w' \<in> set ws" for w' using that Cons.prems(3) by simp
      show "distinct (map e_key (lives heap ws))" using Cons.prems(4) Some by simp
      show "entry_at heap t1 (e_key f) = None" if "f \<in> set (lives heap ws)" for f
      proof -
        have "e_key f \<noteq> e_key e" using that nk by (metis image_eqI)
        then show ?thesis using that Cons.prems(5) Some by (simp add: t1(5))
      qed
    qed
    then obtain t' r' where "rebuild_loop ws heap t1 (n + 1) r = Some (t', n + 1 + length (lives heap ws), r')"
      "table_inv H heap t'" "tb_capacity t' = tb_capacity t1" "card (used t') = card (used t1) + length (lives heap ws)"
      "entry_at heap t' = entry_at heap t1 ++ map_of (map (\<lambda>e. (e_key e, e)) (lives heap ws))" by blast
    then show ?thesis using p t1 Some nd by (simp add: map_add_upd_left) (simp add: fun_eq_iff map_add_def)
  qed
qed simp

lemma count_live_law: "(\<And>w. w \<in> set ws \<Longrightarrow> good_word H heap w) \<Longrightarrow> count_live ws heap = Some (length (lives heap ws))"
proof (induction ws)
  case (Cons w ws)
  have "good_word H heap w" by (simp add: Cons.prems)
  moreover have "count_live ws heap = Some (length (lives heap ws))" by (simp add: Cons)
  ultimately show ?case by (auto simp: good_word_def live_of_def)
qed simp

lemma map_filter_distinct:
  assumes "\<And>i j a b. i < j \<Longrightarrow> j < length xs \<Longrightarrow> f (xs ! i) = Some a \<Longrightarrow> f (xs ! j) = Some b \<Longrightarrow> g a \<noteq> g b"
  shows "distinct (map g (List.map_filter f xs))"
  using assms
proof (induction xs)
  case (Cons x xs)
  have "distinct (map g (List.map_filter f xs))"
    by (rule Cons.IH) (use Cons.prems [of "Suc _" "Suc _"] in auto)
  moreover have "g a \<noteq> g b" if "f x = Some a" "y \<in> set xs" "f y = Some b" for a b y
    using that Cons.prems [of 0 "Suc _" a b] by (auto simp: in_set_conv_nth)
  ultimately show ?case
    by (cases "f x") (auto simp: List.map_filter_simps, auto simp: List.map_filter_def)
qed (simp add: List.map_filter_simps)

lemma length_map_filter: "length (List.map_filter f xs) = card {i. i < length xs \<and> f (xs ! i) \<noteq> None}"
  by (simp add: List.map_filter_def length_filter_conv_card)

lemma set_map_filter: "e \<in> set (List.map_filter f xs) \<longleftrightarrow> (\<exists>x \<in> set xs. f x = Some e)"
  by (force simp: List.map_filter_def)

lemma slot_word:
  "table_inv H heap t \<Longrightarrow> i < tb_capacity t \<Longrightarrow> tb_slots t ! i = 0 \<or> (\<exists>p e. holds H heap t i p e)"
  using inv_used [of H heap t i] by (auto simp: used_def)

lemma nth_table_slots: "tb_ok t \<Longrightarrow> length (table_slots t) = tb_capacity t \<and> (\<forall>i < tb_capacity t. table_slots t ! i = tb_slots t ! i)"
  using tb_okD(3) [of t] by (simp add: table_slots_def)

lemma decode_0 [simp]: "decode 0 = 0"
  by (simp add: decode_def)

lemma good_slots: "table_inv H heap t \<Longrightarrow> w \<in> set (table_slots t) \<Longrightarrow> good_word H heap w"
proof -
  assume inv: "table_inv H heap t" and "w \<in> set (table_slots t)"
  then obtain i where i: "i < tb_capacity t" "w = tb_slots t ! i"
    using nth_table_slots [OF inv_tb_ok [OF inv]] by (metis in_set_conv_nth)
  from slot_word [OF inv i(1)] show ?thesis
  proof
    assume "\<exists>p e. holds H heap t i p e"
    then obtain p e where h: "holds H heap t i p e" by blast
    then show ?thesis using holds_decode [OF h] i(2) by (auto simp: good_word_def holds_def)
  qed (simp add: good_word_def i(2))
qed

lemma live_of_slot:
  assumes inv: "table_inv H heap t" and i: "i < tb_capacity t"
  shows "live_of heap (tb_slots t ! i) = Some e \<longleftrightarrow> (\<exists>p. holds H heap t i p e) \<and> bit (e_state e) 1"
proof (cases "tb_slots t ! i = 0")
  case True
  then have "\<not> holds H heap t i p e" for p using holds_used [of H heap t i p e] by (auto simp: used_def)
  then show ?thesis using True by (simp add: live_of_def)
next
  case False
  then obtain p f where h: "holds H heap t i p f" using slot_word [OF inv i] by blast
  then have p: "heap p = Some f" "p \<noteq> 0" by (simp_all add: holds_def ptr_ok_def)
  have u: "(\<exists>q. holds H heap t i q e) \<longleftrightarrow> f = e" using h holds_unique [OF h] by blast
  show ?thesis using p unfolding u by (auto simp: live_of_def holds_decode [OF h] state_occupied_bit)
qed

text \<open>What a rebuild of a table reads: its live entries, one for each key.\<close>

lemma lives_table:
  assumes inv: "table_inv H heap t"
  shows "distinct (map e_key (lives heap (table_slots t)))" "length (lives heap (table_slots t)) \<le> card (used t)"
    "e \<in> set (lives heap (table_slots t)) \<longleftrightarrow> (\<exists>i p. holds H heap t i p e) \<and> bit (e_state e) 1"
proof -
  note ts = nth_table_slots [OF inv_tb_ok [OF inv]]
  show "distinct (map e_key (lives heap (table_slots t)))"
    unfolding lives_def
  proof (rule map_filter_distinct)
    fix i j a b assume ij: "i < j" "j < length (table_slots t)"
      and l: "live_of heap (table_slots t ! i) = Some a" "live_of heap (table_slots t ! j) = Some b"
    then have c: "i < tb_capacity t" "j < tb_capacity t" using ts by auto
    then obtain p q where "holds H heap t i p a" "holds H heap t j q b"
      using l ts live_of_slot [OF inv] by (metis c)
    then show "e_key a \<noteq> e_key b" using inv_key [OF inv] ij(1) by blast
  qed
  have "{i. i < length (table_slots t) \<and> live_of heap (table_slots t ! i) \<noteq> None} \<subseteq> used t"
    using ts by (auto simp: used_def live_of_def)
  then show "length (lives heap (table_slots t)) \<le> card (used t)"
    unfolding lives_def length_map_filter by (intro card_mono) auto
  have "e \<in> set (lives heap (table_slots t)) \<longleftrightarrow> (\<exists>i < tb_capacity t. live_of heap (tb_slots t ! i) = Some e)"
    using ts unfolding lives_def set_map_filter by (metis in_set_conv_nth)
  then show "e \<in> set (lives heap (table_slots t)) \<longleftrightarrow> (\<exists>i p. holds H heap t i p e) \<and> bit (e_state e) 1"
    using live_of_slot [OF inv] by (auto simp: holds_def)
qed

lemma map_of_keyed:
  assumes "distinct (map g es)"
  shows "map_of (map (\<lambda>e. (g e, e)) es) k = Some e \<longleftrightarrow> e \<in> set es \<and> g e = k"
  using assms by (induction es) (auto simp: rev_image_eqI)

lemma table_new_law:
  assumes "max (next_power_of_two n) 8 \<le> 2 ^ 32"
  shows "table_inv H heap (table_new n)" "used (table_new n) = {}" "entry_at heap (table_new n) = Map.empty"
    "tb_capacity (table_new n) = max (next_power_of_two n) 8"
proof -
  let ?c = "max (next_power_of_two n) 8"
  obtain k where "next_power_of_two n = 2 ^ k" by (rule next_power_of_two_law)
  then obtain j where j: "?c = 2 ^ j" using max_pow2 [of k 3] by auto
  have ok: "tb_ok (table_new n)"
    using assms j by (auto simp: tb_ok_def table_new_def Let_def)
  show u: "used (table_new n) = {}" by (auto simp: used_def table_new_def Let_def)
  show inv: "table_inv H heap (table_new n)"
    using ok u holds_used [of H heap "table_new n"] by (auto simp: table_inv_def)
  show "entry_at heap (table_new n) = Map.empty"
    using u holds_used [of H heap "table_new n"] by (auto simp: fun_eq_iff entry_at_None [OF inv])
  show "tb_capacity (table_new n) = ?c" by (simp add: table_new_def Let_def)
qed

section \<open>Growing\<close>

lemma live_entry_value: "live_entry x \<bind> e_value = x \<bind> e_value"
  by (auto simp: live_entry_def split: option.splits)

lemma rebuild_to_law:
  assumes inv: "shard_inv H sh" and c: "max (next_power_of_two n) 8 \<le> 2 ^ 32" "live_count sh < max (next_power_of_two n) 8"
  obtains sh' where "rebuild_to n sh = Some sh'" "shard_inv H sh'" "sh_len sh' = live_count sh" "sh_heap sh' = sh_heap sh"
    "tb_capacity (sh_table sh') = max (next_power_of_two n) 8" "sh_live sh' = sh_live sh"
    "entry_at (sh_heap sh') (sh_table sh') = live_entry \<circ> entry_at (sh_heap sh) (sh_table sh)"
proof -
  let ?heap = "sh_heap sh" and ?t = "sh_table sh"
  let ?ws = "table_slots ?t"
  have ti: "table_inv H ?heap ?t" using inv by (simp add: shard_inv_def)
  note new = table_new_law [OF c(1)]
  have "\<exists>t' r'. rebuild_loop ?ws ?heap (table_new n) 0 (sh_retired sh) = Some (t', 0 + length (lives ?heap ?ws), r')
      \<and> table_inv H ?heap t' \<and> tb_capacity t' = tb_capacity (table_new n)
      \<and> card (used t') = card (used (table_new n)) + length (lives ?heap ?ws)
      \<and> entry_at ?heap t' = entry_at ?heap (table_new n) ++ map_of (map (\<lambda>e. (e_key e, e)) (lives ?heap ?ws))"
  proof (rule rebuild_loop_law [OF new(1)])
    show "card (used (table_new n)) + length (lives ?heap ?ws) < tb_capacity (table_new n)"
      using c(2) by (simp add: new live_count_def)
    show "good_word H ?heap w" if "w \<in> set ?ws" for w by (rule good_slots [OF ti that])
    show "distinct (map e_key (lives ?heap ?ws))" by (rule lives_table(1) [OF ti])
  qed (simp add: new)
  then obtain t' r' where r: "rebuild_loop ?ws ?heap (table_new n) 0 (sh_retired sh) = Some (t', live_count sh, r')"
      "table_inv H ?heap t'" "tb_capacity t' = tb_capacity (table_new n)" "card (used t') = live_count sh"
      "entry_at ?heap t' = map_of (map (\<lambda>e. (e_key e, e)) (lives ?heap ?ws))"
    by (auto simp: new live_count_def)
  let ?sh = "sh\<lparr>sh_table := t', sh_len := live_count sh, sh_retired := r'\<rparr>"
  have e: "entry_at ?heap t' k = Some e \<longleftrightarrow> live_entry (entry_at ?heap ?t k) = Some e" for k e
  proof -
    have "entry_at ?heap t' k = Some e \<longleftrightarrow> ((\<exists>i p. holds H ?heap ?t i p e) \<and> bit (e_state e) 1) \<and> e_key e = k"
      unfolding r(5) map_of_keyed [OF lives_table(1) [OF ti]] lives_table(3) [OF ti] by simp
    also have "\<dots> \<longleftrightarrow> ((\<exists>i p. holds H ?heap ?t i p e) \<and> e_key e = k) \<and> e_value e \<noteq> None"
      by (auto simp: holds_def entry_ok_def)
    also have "\<dots> \<longleftrightarrow> entry_at ?heap ?t k = Some e \<and> e_value e \<noteq> None" by (simp add: entry_at_iff [OF ti])
    also have "\<dots> \<longleftrightarrow> live_entry (entry_at ?heap ?t k) = Some e" by (auto simp: live_entry_def split: option.splits)
    finally show ?thesis .
  qed
  show thesis
  proof (rule that [of ?sh])
    show "rebuild_to n sh = Some ?sh" using r(1) by (simp add: rebuild_to_def)
    show "shard_inv H ?sh" using r(2,4) by (simp add: shard_inv_def)
    have "entry_at ?heap t' k = live_entry (entry_at ?heap ?t k)" for k using e [of k] by (metis option.exhaust)
    then show "entry_at (sh_heap ?sh) (sh_table ?sh) = live_entry \<circ> entry_at ?heap ?t" by (simp add: fun_eq_iff)
  qed (simp_all add: r(3) new)
qed

lemma capacity_for_le:
  assumes "live < 2 ^ 30"
  shows "capacity_for live \<le> 2 ^ 31"
proof -
  let ?n = "(live + 1) * LOAD_DEN div LOAD_NUM + 1"
  obtain k where k: "next_power_of_two ?n = 2 ^ k" "k = 0 \<or> next_power_of_two ?n < 2 * ?n"
    by (rule next_power_of_two_law [of ?n]) blast
  have "?n \<le> 2 ^ 31" using assms by (simp add: LOAD_DEN_def LOAD_NUM_def)
  then have "k = 0 \<or> 2 ^ k < (2::nat) ^ 32" using k by auto
  then have "k \<le> 31" using power_less_imp_less_exp [of "2::nat" k 32] by auto
  then have "2 ^ k \<le> (2::nat) ^ 31" by (intro power_increasing) auto
  then show ?thesis using k(1) by (simp add: capacity_for_def)
qed

lemma live_count_le: "shard_inv H sh \<Longrightarrow> live_count sh \<le> sh_len sh"
  using lives_table(2) [of H "sh_heap sh" "sh_table sh"] by (simp add: shard_inv_def live_count_def)

text \<open>Rebuilding ends below the threshold of the new table.\<close>

lemma rebuild_locked_law:
  assumes inv: "shard_inv H sh" and l: "sh_len sh < 2 ^ 30"
  obtains sh' where "rebuild_locked sh = Some sh'" "shard_inv H sh'" "sh_len sh' = live_count sh" "sh_heap sh' = sh_heap sh"
    "sh_len sh' < tb_threshold (sh_table sh')" "sh_live sh' = sh_live sh"
    "entry_at (sh_heap sh') (sh_table sh') = live_entry \<circ> entry_at (sh_heap sh) (sh_table sh)"
proof -
  let ?t = "sh_table sh" and ?live = "live_count sh"
  have ti: "table_inv H (sh_heap sh) ?t" using inv by (simp add: shard_inv_def)
  obtain k where k: "tb_capacity ?t = 2 ^ k" "8 \<le> tb_capacity ?t" "tb_capacity ?t \<le> 2 ^ 32"
    using inv_tb_ok [OF ti] by (auto simp: tb_ok_def)
  obtain j where j: "capacity_for ?live = 2 ^ j" "8 \<le> capacity_for ?live" "?live < capacity_for ?live * LOAD_NUM div LOAD_DEN"
    by (rule capacity_for_law [of ?live])
  have le: "capacity_for ?live \<le> 2 ^ 31" using capacity_for_le live_count_le [OF inv] l by simp
  let ?c = "max (capacity_for ?live) (tb_capacity ?t)"
  let ?n = "if ?c > tb_capacity ?t \<and> tb_capacity ?t < 32768 then next_power_of_two (tb_capacity ?t * 4) else ?c"
  have r: "rebuild_locked sh = rebuild_to ?n sh"
    using count_live_law [OF good_slots [OF ti]] by (simp add: rebuild_locked_def Let_def live_count_def)
  have live: "?live \<le> tb_capacity ?t"
  proof -
    have "used ?t \<subseteq> {..<tb_capacity ?t}" by (auto simp: used_def)
    then have "card (used ?t) \<le> tb_capacity ?t" using card_mono [of "{..<tb_capacity ?t}" "used ?t"] by simp
    then show ?thesis using lives_table(2) [OF ti] by (simp add: live_count_def)
  qed
  have n: "\<exists>m. ?n = 2 ^ m \<and> 8 \<le> ?n \<and> ?n \<le> 2 ^ 32 \<and> ?live < ?n * LOAD_NUM div LOAD_DEN"
  proof (cases "?c > tb_capacity ?t \<and> tb_capacity ?t < 32768")
    case True
    have "tb_capacity ?t * 4 = 2 ^ (k + 2)" by (simp add: k(1))
    then have "next_power_of_two (tb_capacity ?t * 4) = 2 ^ (k + 2)" by (simp only: next_power_of_two_pow)
    then have "?n = 2 ^ (k + 2)" using True by simp
    moreover have "?live < (2 ^ (k + 2)) * LOAD_NUM div LOAD_DEN"
      using live k(2) by (simp add: k(1) LOAD_NUM_def LOAD_DEN_def)
    ultimately show ?thesis using True k by (intro exI [of _ "k + 2"]) auto
  next
    case False
    obtain m where m: "?c = 2 ^ m" using max_pow2 [of j k] j(1) k(1) by auto
    have "capacity_for ?live * LOAD_NUM div LOAD_DEN \<le> ?c * LOAD_NUM div LOAD_DEN"
      by (intro div_le_mono mult_le_mono1) simp
    then show ?thesis using False m j k le by auto
  qed
  then obtain m where m: "?n = 2 ^ m" "8 \<le> ?n" "?n \<le> 2 ^ 32" "?live < ?n * LOAD_NUM div LOAD_DEN" by blast
  have cap: "max (next_power_of_two ?n) 8 = ?n" using m(1,2) next_power_of_two_pow [of m] by simp
  have lt: "?live < ?n" using m(4) by (simp add: LOAD_NUM_def LOAD_DEN_def)
  obtain sh' where s: "rebuild_to ?n sh = Some sh'" "shard_inv H sh'" "sh_len sh' = ?live" "sh_heap sh' = sh_heap sh"
      "tb_capacity (sh_table sh') = ?n" "sh_live sh' = sh_live sh"
      "entry_at (sh_heap sh') (sh_table sh') = live_entry \<circ> entry_at (sh_heap sh) (sh_table sh)"
    using rebuild_to_law [OF inv, of ?n, unfolded cap, OF m(3) lt] by blast
  have "tb_threshold (sh_table sh') = ?n * LOAD_NUM div LOAD_DEN"
    using s(2,5) inv_tb_ok [of H "sh_heap sh'" "sh_table sh'"] by (simp add: shard_inv_def tb_ok_def)
  then show thesis using s r m(4) by (intro that [of sh']) simp_all
qed

lemma live_entry_twice [simp]: "live_entry (live_entry x) = live_entry x"
  by (auto simp: live_entry_def split: option.splits)

lemma shard_map_live: "shard_map sh k = shard_live sh k \<bind> e_value"
  by (simp add: shard_map_def shard_live_def live_entry_value)

lemma rebuilt_live:
  "entry_at (sh_heap sh') (sh_table sh') = live_entry \<circ> entry_at (sh_heap sh) (sh_table sh) \<Longrightarrow> shard_live sh' = shard_live sh"
  by (simp add: fun_eq_iff shard_live_def)

lemma grow_law:
  assumes inv: "shard_inv H sh" and l: "sh_len sh < 2 ^ 30"
  obtains sh' where "grow sh = Some sh'" "shard_inv H sh'" "sh_len sh' \<le> sh_len sh"
    "sh_len sh' < tb_threshold (sh_table sh')" "sh_heap sh' = sh_heap sh" "sh_live sh' = sh_live sh" "shard_live sh' = shard_live sh"
proof (cases "sh_len sh < tb_threshold (sh_table sh)")
  case True
  then show thesis using inv by (intro that [of sh]) (simp_all add: grow_def)
next
  case False
  obtain sh' where s: "rebuild_locked sh = Some sh'" "shard_inv H sh'" "sh_len sh' = live_count sh" "sh_heap sh' = sh_heap sh"
    "sh_len sh' < tb_threshold (sh_table sh')" "sh_live sh' = sh_live sh"
    "entry_at (sh_heap sh') (sh_table sh') = live_entry \<circ> entry_at (sh_heap sh) (sh_table sh)"
    by (rule rebuild_locked_law [OF inv l])
  show thesis
  proof (rule that)
    show "grow sh = Some sh'" using False s(1) by (simp add: grow_def)
    show "shard_live sh' = shard_live sh" by (rule rebuilt_live [OF s(7)])
    show "sh_len sh' \<le> sh_len sh" using live_count_le [OF inv] s(3) by simp
  qed (rule s)+
qed

lemma bit_parity: "snap_ok sn \<Longrightarrow> n \<noteq> 31 \<Longrightarrow> \<not> bit (sn_parity sn) n"
  by (auto simp: snap_ok_def bit_consts)

lemma before_write_law:
  assumes s: "snap_ok sn" and v: "bit (e_state e) 1 \<longleftrightarrow> e_value e \<noteq> None"
  obtains st where "before_write e sn = Some (e\<lparr>e_state := st\<rparr>, sn\<lparr>sn_out := sn_out sn @ captured sn e\<rparr>)"
    "\<And>n. n \<noteq> 31 \<Longrightarrow> bit st n = bit (e_state e) n"
    "bit st 31 = (if sn_active sn then bit (sn_parity sn) 31 else bit (e_state e) 31)"
proof -
  have c: "e_state e AND STATE_SNAP = sn_parity sn \<longleftrightarrow> (bit (e_state e) 31 \<longleftrightarrow> bit (sn_parity sn) 31)"
    by (rule snap_eq) (use s in \<open>simp add: snap_ok_def\<close>)
  have o: "e_state e AND STATE_OCCUPIED \<noteq> 0 \<longleftrightarrow> e_value e \<noteq> None"
    using v state_occupied_bit [of "e_state e"] by (simp add: state_occupied_def)
  show thesis
  proof (cases "sn_active sn \<and> (bit (e_state e) 31 \<longleftrightarrow> \<not> bit (sn_parity sn) 31)")
    case True
    let ?st = "(e_state e AND NOT STATE_SNAP) OR sn_parity sn"
    show thesis
    proof (rule that [of ?st])
      show "before_write e sn = Some (e\<lparr>e_state := ?st\<rparr>, sn\<lparr>sn_out := sn_out sn @ captured sn e\<rparr>)"
        using True o by (auto simp: before_write_def capture_def Let_def c captured_def split: option.splits)
      show "bit ?st n = bit (e_state e) n" if "n \<noteq> 31" for n
        using that bit_parity [OF s that] by (auto simp: bit_or_iff bit_and_iff bit_not_iff bit_consts dest: bit_imp_le_length)
      show "bit ?st 31 = (if sn_active sn then bit (sn_parity sn) 31 else bit (e_state e) 31)"
        using True by (simp add: bit_or_iff bit_and_iff bit_not_iff bit_consts)
    qed
  next
    case False
    then show thesis
      by (intro that [of "e_state e"]) (auto simp: before_write_def capture_def Let_def c captured_def)
  qed
qed

lemma locked_entry:
  assumes "entry_ok H e"
  obtains st where "state_lock (e_state e) = Some st" "\<And>n. n \<noteq> 0 \<Longrightarrow> bit st n = bit (e_state e) n" "state_unlock st = e_state e"
    "state_occupied st \<longleftrightarrow> e_value e \<noteq> None"
proof (rule that [of "e_state e OR STATE_LOCK"])
  have f: "\<not> bit (e_state e) 0" using assms by (simp add: entry_ok_def)
  then show "state_lock (e_state e) = Some (e_state e OR STATE_LOCK)" by (rule state_lock_free)
  show "bit (e_state e OR STATE_LOCK) n = bit (e_state e) n" if "n \<noteq> 0" for n
    using that by (simp add: bit_or_iff bit_consts)
  show "state_unlock (e_state e OR STATE_LOCK) = e_state e"
    unfolding state_unlock_def
    by (rule bit_word_eqI) (use f in \<open>auto simp: bit_or_iff bit_and_iff bit_not_iff bit_consts intro: gr0I\<close>)
  show "state_occupied (e_state e OR STATE_LOCK) \<longleftrightarrow> e_value e \<noteq> None"
    using assms by (simp add: state_occupied_bit bit_or_iff bit_consts entry_ok_def)
qed

lemma write_entry_law:
  assumes s: "snap_ok sn" and e: "entry_ok H e" and st: "\<And>n. n \<noteq> 0 \<Longrightarrow> bit st n = bit (e_state e) n" and occ: "occ \<longleftrightarrow> val \<noteq> None"
  obtains e' where "write_entry val occ (e\<lparr>e_state := st\<rparr>) sn = Some (e', sn\<lparr>sn_out := sn_out sn @ captured sn e\<rparr>)"
    "entry_ok H e'" "written sn e val e'"
proof -
  let ?e = "e\<lparr>e_state := st\<rparr>"
  have es: "e_state ?e = st" by simp
  have v: "bit (e_state ?e) 1 \<longleftrightarrow> e_value ?e \<noteq> None" using e st by (simp add: entry_ok_def)
  have cap: "captured sn ?e = captured sn e" using st by (simp add: captured_def split: option.split)
  obtain st1 where b: "before_write ?e sn = Some (?e\<lparr>e_state := st1\<rparr>, sn\<lparr>sn_out := sn_out sn @ captured sn ?e\<rparr>)"
    "\<And>n. n \<noteq> 31 \<Longrightarrow> bit st1 n = bit st n" "bit st1 31 = (if sn_active sn then bit (sn_parity sn) 31 else bit st 31)"
    by (rule before_write_law [OF s v, unfolded es]) blast
  let ?st2 = "write_end (write_begin st1) occ"
  let ?e' = "e\<lparr>e_state := ?st2, e_value := val\<rparr>"
  have bits: "bit ?st2 n = (if n = 0 then False else if n = 1 then occ else bit st1 n)" if "n < 2 \<or> 31 \<le> n" for n
    using bit_write_end [OF that, of "write_begin st1" occ] bit_bump_seq [OF that, of st1] by (simp add: write_begin_def)
  have "stored_hash ?st2 = stored_hash (e_state e)"
    by (rule stored_hash_cong) (use bits b(2) st in auto)
  moreover have "\<not> bit ?st2 2"
    using e b(2) st by (simp add: entry_ok_def bit_write_end_2 write_begin_def bit_bump_2)
  ultimately have "entry_ok H ?e'" using e occ bits by (simp add: entry_ok_def)
  moreover have "written sn e val ?e'" using bits b(3) st by (simp add: written_def)
  ultimately show thesis using b(1) cap by (intro that [of ?e']) (simp_all add: write_entry_def Let_def)
qed

lemma fresh_entry_ok:
  "snap_ok sn \<Longrightarrow> entry_ok H \<lparr>e_key = k, e_state = fresh_state sn OR hash_bits (H k), e_value = Some v\<rparr>"
  "snap_ok sn \<Longrightarrow> bit (fresh_state sn OR hash_bits (H k)) 31 = bit (sn_parity sn) 31"
proof -
  assume s: "snap_ok sn"
  have "stored_hash (fresh_state sn OR hash_bits (H k)) = low_hash (H k)"
    by (rule bit_word_eqI)
      (use bit_parity [OF s] in \<open>auto simp: bit_stored_hash fresh_state_def bit_or_iff hash_bits_bit low_hash_bit bit_consts\<close>)
  then show "entry_ok H \<lparr>e_key = k, e_state = fresh_state sn OR hash_bits (H k), e_value = Some v\<rparr>"
    using bit_parity [OF s] by (simp add: entry_ok_def fresh_state_def bit_or_iff hash_bits_bit bit_consts)
  show "bit (fresh_state sn OR hash_bits (H k)) 31 = bit (sn_parity sn) 31"
    by (simp add: fresh_state_def bit_or_iff hash_bits_bit bit_consts)
qed

section \<open>Inserting and overwriting\<close>

text \<open>The shard after a change of one key, which may have grown.\<close>

lemma claim_slot_law:
  assumes inv: "shard_inv H sh" and l: "sh_len sh < 2 ^ 30 - 1" and a: "ptr_ok a" "sh_heap sh a = None" and s: "snap_ok sn"
    and k: "entry_at (sh_heap sh) (sh_table sh) k = None" and d: "d < tb_capacity (sh_table sh)"
      "(home H (sh_table sh) k + d) mod tb_capacity (sh_table sh) \<notin> used (sh_table sh)"
      "\<And>m. m < d \<Longrightarrow> (home H (sh_table sh) k + m) mod tb_capacity (sh_table sh) \<in> used (sh_table sh)"
  obtains sh' e' where "claim_slot a k (H k) v sn ((home H (sh_table sh) k + d) mod tb_capacity (sh_table sh)) sh = Some sh'"
    "shard_inv H sh'" "shard_live sh' = (shard_live sh)(k \<mapsto> e')" "e_key e' = k" "e_value e' = Some v"
    "bit (e_state e') 31 = bit (sn_parity sn) 31" "sh_live sh' = sh_live sh" "sh_heap sh' = (sh_heap sh)(a \<mapsto> e')"
    "sh_len sh' \<le> sh_len sh + 1"
proof -
  let ?t = "sh_table sh" and ?heap = "sh_heap sh"
  let ?e = "\<lparr>e_key = k, e_state = fresh_state sn OR hash_bits (H k), e_value = Some v\<rparr>"
  let ?j = "(home H ?t k + d) mod tb_capacity ?t"
  let ?t' = "?t\<lparr>tb_slots := (tb_slots ?t)[?j := encode a (H k)]\<rparr>" and ?heap' = "?heap(a \<mapsto> ?e)"
  let ?sh = "(put_entry a ?e sh)\<lparr>sh_table := ?t', sh_len := sh_len sh + 1\<rparr>"
  have ti: "table_inv H ?heap ?t" using inv by (simp add: shard_inv_def)
  note t = inv_tb_ok [OF ti]
  have j: "?j < length (tb_slots ?t)" using tb_okD(1) [OF t] tb_okD(3) [OF t] by (simp add: trans_less_add1)
  have ext: "?heap' p = Some f" if "holds H ?heap ?t i p f" for i p f
    using that a(2) by (auto simp: holds_def)
  have at: "?heap' a = Some ?e" by simp
  note ins = table_insert [where heap' = ?heap' and e = ?e, unfolded entry.select_convs, OF ti k d a(1) at fresh_entry_ok(1) [OF s] ext refl]
  have inv1: "shard_inv H ?sh" using ins(1,2) inv by (simp add: shard_inv_def put_entry_def)
  have live1: "shard_live ?sh = (shard_live sh)(k \<mapsto> ?e)"
    using ins(3) by (auto simp: fun_eq_iff shard_live_def put_entry_def live_entry_def)
  have c: "claim_slot a k (H k) v sn ?j sh = (if sh_len ?sh \<ge> tb_threshold ?t then grow ?sh else Some ?sh)"
    using j by (simp add: claim_slot_def Let_def vset_def)
  obtain sh' where g: "grow ?sh = Some sh'" "shard_inv H sh'" "sh_len sh' \<le> sh_len ?sh" "sh_heap sh' = sh_heap ?sh"
      "sh_live sh' = sh_live ?sh" "shard_live sh' = shard_live ?sh"
    by (rule grow_law [OF inv1]) (use l in simp_all)
  show thesis
  proof (rule that [of "if sh_len ?sh \<ge> tb_threshold ?t then sh' else ?sh" ?e])
    show "bit (e_state ?e) 31 = bit (sn_parity sn) 31" using fresh_entry_ok(2) [OF s, of H k] by simp
  qed (use c g inv1 live1 in \<open>simp_all add: put_entry_def\<close>)
qed

lemma threshold_room:
  assumes inv: "shard_inv H sh" and l: "sh_len sh < tb_threshold (sh_table sh)"
  shows "card (used (sh_table sh)) < tb_capacity (sh_table sh)"
proof -
  have "tb_threshold (sh_table sh) = tb_capacity (sh_table sh) * LOAD_NUM div LOAD_DEN" "0 < tb_capacity (sh_table sh)"
    using inv inv_tb_ok [of H "sh_heap sh" "sh_table sh"] tb_okD(1) [of "sh_table sh"] by (auto simp: shard_inv_def tb_ok_def)
  then have "tb_threshold (sh_table sh) < tb_capacity (sh_table sh)" by (simp add: LOAD_NUM_def LOAD_DEN_def)
  then show ?thesis using inv l by (simp add: shard_inv_def)
qed

lemma shard_live_entry:
  "entry_at (sh_heap sh) (sh_table sh) k = Some e \<Longrightarrow> shard_live sh k = (if e_value e = None then None else Some e)"
  by (simp add: shard_live_def live_entry_def)

lemma hit_law:
  assumes inv: "shard_inv H sh" and h: "holds H (sh_heap sh) (sh_table sh) i p e" "e_key e = k"
    and e': "e_key e' = k" "entry_ok H e'" and n: "sh_len sh \<le> n"
  shows "shard_inv H ((put_entry p e' sh)\<lparr>sh_len := n\<rparr>)"
    "shard_live ((put_entry p e' sh)\<lparr>sh_len := n\<rparr>) = (shard_live sh)(k := live_entry (Some e'))"
proof -
  have ti: "table_inv H (sh_heap sh) (sh_table sh)" using inv by (simp add: shard_inv_def)
  have k: "e_key e' = e_key e" using e'(1) h(2) by simp
  note up = table_update [OF ti h(1) k e'(2)]
  show "shard_inv H ((put_entry p e' sh)\<lparr>sh_len := n\<rparr>)" using up(1) inv n by (simp add: shard_inv_def put_entry_def)
  show "shard_live ((put_entry p e' sh)\<lparr>sh_len := n\<rparr>) = (shard_live sh)(k := live_entry (Some e'))"
    using up(2) h(2) by (auto simp: fun_eq_iff shard_live_def put_entry_def)
qed

lemma set_below_threshold:
  assumes inv: "shard_inv H sh" and l: "sh_len sh < 2 ^ 30 - 1" "sh_len sh < tb_threshold (sh_table sh)"
    and a: "ptr_ok a" "sh_heap sh a = None" and s: "snap_ok sn"
  obtains sn' sh' where "set_loop a k (H k) v ow sn sh = Some (shard_live sh k = None, sn', sh')"
    "shard_inv H sh'" "set_result k v ow sn sh sn' sh'" "sh_live sh' = sh_live sh" "dom (sh_heap sh') \<subseteq> insert a (dom (sh_heap sh))"
    "sh_len sh' \<le> sh_len sh + 1"
proof -
  let ?t = "sh_table sh" and ?heap = "sh_heap sh"
  have ti: "table_inv H ?heap ?t" using inv by (simp add: shard_inv_def)
  note t = inv_tb_ok [OF ti]
  note loop = set_loop.simps [of a k "H k" v ow sn sh, unfolded Let_def home_and [OF t]]
  show thesis
  proof (cases "entry_at ?heap ?t k")
    case None
    obtain d where d: "d < tb_capacity ?t" "(home H ?t k + d) mod tb_capacity ?t \<notin> used ?t"
      "\<And>m. m < d \<Longrightarrow> (home H ?t k + m) mod tb_capacity ?t \<in> used ?t"
      using free_slot [OF t threshold_room [OF inv l(2)] home_lt [OF t]] by blast
    obtain sh' e' where c: "claim_slot a k (H k) v sn ((home H ?t k + d) mod tb_capacity ?t) sh = Some sh'"
        "shard_inv H sh'" "shard_live sh' = (shard_live sh)(k \<mapsto> e')" "e_key e' = k" "e_value e' = Some v"
        "bit (e_state e') 31 = bit (sn_parity sn) 31" "sh_live sh' = sh_live sh" "sh_heap sh' = (sh_heap sh)(a \<mapsto> e')"
        "sh_len sh' \<le> sh_len sh + 1"
      by (rule claim_slot_law [OF inv l(1) a s None d])
    have dead: "shard_live sh k = None" using None by (simp add: shard_live_def live_entry_def)
    show thesis
    proof (rule that [of sn sh'])
      show "set_loop a k (H k) v ow sn sh = Some (shard_live sh k = None, sn, sh')"
        using loop l(2) set_scan_free [OF ti None d] c(1) dead by simp
      show "set_result k v ow sn sh sn sh'" using c dead by (auto simp: set_result_def)
    qed (use c in auto)
  next
    case (Some e)
    then obtain i p where h: "holds H ?heap ?t i p e" and k: "e_key e = k" by (auto simp: entry_at_iff [OF ti])
    have e: "?heap p = Some e" "entry_ok H e" using h by (auto simp: holds_def)
    obtain st where st: "state_lock (e_state e) = Some st" "\<And>n. n \<noteq> 0 \<Longrightarrow> bit st n = bit (e_state e) n"
        "state_unlock st = e_state e" "state_occupied st \<longleftrightarrow> e_value e \<noteq> None"
      using locked_entry [OF e(2)] by blast
    have live: "shard_live sh k = (if e_value e = None then None else Some e)" by (rule shard_live_entry [OF Some])
    have dom: "dom (?heap(p \<mapsto> f)) \<subseteq> insert a (dom ?heap)" for f using e(1) by auto
    show thesis
    proof (cases "\<not> ow \<and> e_value e \<noteq> None")
      case True
      have "put_entry p (e\<lparr>e_state := state_unlock st\<rparr>) sh = sh" using e(1) by (simp add: st(3) put_entry_def fun_upd_idem)
      then have "set_loop a k (H k) v ow sn sh = Some (shard_live sh k = None, sn, sh)"
        using loop l(2) set_scan_hit [OF ti h k] e(1) st True live by simp
      then show thesis using inv True live by (intro that [of sn sh]) (auto simp: set_result_def)
    next
      case False
      obtain e' where w: "write_entry (Some v) True (e\<lparr>e_state := st\<rparr>) sn = Some (e', sn\<lparr>sn_out := sn_out sn @ captured sn e\<rparr>)"
          "entry_ok H e'" "written sn e (Some v) e'"
        using write_entry_law [OF s e(2) st(2), where val = "Some v" and occ = True] by auto
      let ?n = "sh_len sh + (if state_occupied st then 0 else 1)"
      have k': "e_key e' = k" using w(3) k by (simp add: written_def)
      have n: "sh_len sh \<le> ?n" by simp
      note up = hit_law [OF inv h k k' w(2) n]
      show thesis
      proof (rule that)
        show "set_loop a k (H k) v ow sn sh =
            Some (shard_live sh k = None, sn\<lparr>sn_out := sn_out sn @ captured sn e\<rparr>, (put_entry p e' sh)\<lparr>sh_len := ?n\<rparr>)"
          using loop l(2) set_scan_hit [OF ti h k] e(1) st False live w(1) by auto
        have "captured sn e = []" if "e_value e = None" using that by (simp add: captured_def)
        then show "set_result k v ow sn sh (sn\<lparr>sn_out := sn_out sn @ captured sn e\<rparr>) ((put_entry p e' sh)\<lparr>sh_len := ?n\<rparr>)"
          using False live w(3) k by (auto simp: set_result_def up(2) live_entry_def written_def)
        show "shard_inv H ((put_entry p e' sh)\<lparr>sh_len := ?n\<rparr>)" by (rule up(1))
        show "dom (sh_heap ((put_entry p e' sh)\<lparr>sh_len := ?n\<rparr>)) \<subseteq> insert a (dom ?heap)"
          using dom [of e'] by (simp add: put_entry_def)
      qed (simp_all add: put_entry_def)
    qed
  qed
qed

lemma set_law:
  assumes inv: "shard_inv H sh" and l: "sh_len sh < 2 ^ 30 - 1" and a: "ptr_ok a" "sh_heap sh a = None" and s: "snap_ok sn"
  obtains sn' sh' where "set_loop a k (H k) v ow sn sh = Some (shard_live sh k = None, sn', sh')"
    "shard_inv H sh'" "set_result k v ow sn sh sn' sh'" "sh_live sh' = sh_live sh" "dom (sh_heap sh') \<subseteq> insert a (dom (sh_heap sh))"
    "sh_len sh' \<le> sh_len sh + 1"
proof (cases "sh_len sh < tb_threshold (sh_table sh)")
  case True
  show thesis by (rule set_below_threshold [OF inv l True a s, of k v ow]) (rule that)
next
  case False
  obtain sh1 where g: "grow sh = Some sh1" "shard_inv H sh1" "sh_len sh1 \<le> sh_len sh"
    "sh_len sh1 < tb_threshold (sh_table sh1)" "sh_heap sh1 = sh_heap sh" "sh_live sh1 = sh_live sh" "shard_live sh1 = shard_live sh"
    by (rule grow_law [OF inv]) (use l in simp_all)
  have l1: "sh_len sh1 < 2 ^ 30 - 1" using g(3) l by simp
  have a1: "sh_heap sh1 a = None" using a(2) g(5) by simp
  obtain sn' sh' where r: "set_loop a k (H k) v ow sn sh1 = Some (shard_live sh1 k = None, sn', sh')"
    "shard_inv H sh'" "set_result k v ow sn sh1 sn' sh'" "sh_live sh' = sh_live sh1" "dom (sh_heap sh') \<subseteq> insert a (dom (sh_heap sh1))"
    "sh_len sh' \<le> sh_len sh1 + 1"
    by (rule set_below_threshold [OF g(2) l1 g(4) a(1) a1 s])
  have "set_loop a k (H k) v ow sn sh = set_loop a k (H k) v ow sn sh1"
    using False g(1) by (subst set_loop.simps) simp
  moreover have "set_result k v ow sn sh sn' sh'" using r(3) unfolding set_result_def g(7) .
  ultimately show thesis using r g by (intro that [of sn' sh']) simp_all
qed

end
