(* ===== verification/CustomMap.thy ===== *)
theory CustomMap
  imports ShardInv
begin

text \<open>
  The concurrent map (\<^verbatim>\<open>crates/customhash/src/lib.rs\<close> and \<^verbatim>\<open>ops.rs\<close>): a power-of-two number of shards, the number of live keys of
  each, the key limit, the write observer and the snapshot control.

  One operation runs at a time, as in \<^verbatim>\<open>Shard\<close>: \<^verbatim>\<open>None\<close> stands for a wait that does not end
  and for an access outside the memory the code owns.  The hasher is a function \<^verbatim>\<open>H\<close>; a
  fresh entry goes to an address that is an argument; \<^verbatim>\<open>cas\<close> tells whether a weak
  compare-and-swap succeeds, since it may fail for no reason.  Closures that
  accumulate are folds over an explicit state.  Epoch pins and prefetch instructions have no effect here.
\<close>

section \<open>The map\<close>

text \<open>What the observer is told.\<close>

datatype notice = Wrote bytes | Cleared

record 'v custom_map =
  cm_shards :: "'v shard list"
  cm_shift :: nat
  cm_shard_mask :: nat
  cm_max_keys :: nat
  cm_observer :: bool
  cm_observing :: bool
  cm_snap_active :: bool
  cm_snap :: "'v snap_ctl"
  cm_notes :: "notice list"

type_synonym hasher = "bytes \<Rightarrow> 64 word"

definition set_observer :: "'v custom_map \<Rightarrow> 'v custom_map" where
  "set_observer m = m\<lparr>cm_observer := True\<rparr>"

definition set_observing :: "bool \<Rightarrow> 'v custom_map \<Rightarrow> 'v custom_map" where
  "set_observing on m = m\<lparr>cm_observing := on \<and> cm_observer m\<rparr>"

definition notify :: "bytes \<Rightarrow> 'v custom_map \<Rightarrow> 'v custom_map" where
  "notify key m = (if cm_observer m then m\<lparr>cm_notes := cm_notes m @ [Wrote key]\<rparr> else m)"

definition touched :: "bytes \<Rightarrow> 'v custom_map \<Rightarrow> 'v custom_map" where
  "touched key m = (if cm_observing m then notify key m else m)"

definition touched_bytes :: "bytes \<Rightarrow> 'v custom_map \<Rightarrow> 'v custom_map" where
  "touched_bytes key m = (if cm_observing m \<and> utf8_valid key then notify key m else m)"

definition snap_before_write :: "'v custom_map \<Rightarrow> 'v entry \<Rightarrow> ('v entry \<times> 'v snap_ctl) option" where
  "snap_before_write m e = (if cm_snap_active m then before_write e (cm_snap m) else Some (e, cm_snap m))"

text \<open>\<^verbatim>\<open>usize::trailing_zeros\<close>.\<close>

definition trailing_zeros :: "nat \<Rightarrow> nat" where
  "trailing_zeros n = length (takeWhile (\<lambda>i. \<not> bit n i) [0..<64])"

definition build :: "nat \<Rightarrow> nat \<Rightarrow> nat \<Rightarrow> 'v custom_map" where
  "build n per_shard max_keys =
     \<lparr>cm_shards = replicate n (shard_new per_shard), cm_shift = min (64 - trailing_zeros n) 63, cm_shard_mask = n - 1,
      cm_max_keys = max_keys, cm_observer = False, cm_observing = False, cm_snap_active = False, cm_snap = snap_new,
      cm_notes = []\<rparr>"

definition with_shards :: "nat \<Rightarrow> 'v custom_map" where
  "with_shards n = build (max (next_power_of_two n) 1) INITIAL_SHARD_CAPACITY usize_max"

definition DEFAULT_SHARDS :: nat where "DEFAULT_SHARDS = 128"

definition cm_new :: "'v custom_map" where
  "cm_new = with_shards DEFAULT_SHARDS"

definition with_capacity :: "nat \<Rightarrow> nat \<Rightarrow> 'v custom_map" where
  "with_capacity shard_count expected_keys =
     (let n = max (next_power_of_two shard_count) 1;
          per_shard =
            (if expected_keys = usize_max \<or> expected_keys = 0 then INITIAL_SHARD_CAPACITY
             else max (next_power_of_two (min (expected_keys * LOAD_DEN) usize_max div LOAD_NUM div n)) 8)
      in build n per_shard expected_keys)"

definition shard_of :: "'v custom_map \<Rightarrow> 64 word \<Rightarrow> nat" where
  "shard_of m hash = unat (drop_bit (cm_shift m) hash) AND cm_shard_mask m"

definition locate :: "hasher \<Rightarrow> bytes \<Rightarrow> 'v custom_map \<Rightarrow> 64 word \<times> nat" where
  "locate H key m = (let h = H key in (h, unat (drop_bit (cm_shift m) h) AND cm_shard_mask m))"

definition locate_key :: "hasher \<Rightarrow> bytes \<Rightarrow> 'v custom_map \<Rightarrow> 64 word \<times> nat" where
  "locate_key H key m = locate H key m"

text \<open>A hash that the caller may have computed before.\<close>

definition locate_hinted :: "hasher \<Rightarrow> bytes \<Rightarrow> 64 word option \<Rightarrow> 'v custom_map \<Rightarrow> 64 word \<times> nat" where
  "locate_hinted H key hash m = (case hash of Some h \<Rightarrow> (h, shard_of m h) | None \<Rightarrow> locate H key m)"

definition put_shard :: "nat \<Rightarrow> 'v shard \<Rightarrow> 'v custom_map \<Rightarrow> 'v custom_map" where
  "put_shard idx sh m = m\<lparr>cm_shards := (cm_shards m)[idx := sh]\<rparr>"

definition bump :: "nat \<Rightarrow> bool \<Rightarrow> 'v custom_map \<Rightarrow> 'v custom_map option" where
  "bump idx up m = do {
     sh \<leftarrow> vget (cm_shards m) idx;
     Some (put_shard idx (sh\<lparr>sh_live := (if up then sh_live sh + 1 else sh_live sh - 1)\<rparr>) m) }"

definition cm_len :: "'v custom_map \<Rightarrow> nat" where
  "cm_len m = min (unat (fold (\<lambda>s n. n + sh_live s) (cm_shards m) 0)) (2 ^ 63 - 1)"

definition is_full :: "'v custom_map \<Rightarrow> bool" where
  "is_full m \<longleftrightarrow> cm_max_keys m \<noteq> usize_max \<and> cm_max_keys m \<le> cm_len m"

definition capacity_limit :: "'v custom_map \<Rightarrow> nat" where
  "capacity_limit m = cm_max_keys m"

definition cm_is_empty :: "'v custom_map \<Rightarrow> bool" where
  "cm_is_empty m \<longleftrightarrow> cm_len m = 0"

section \<open>Batched probing\<close>

definition PREFETCH_BATCH :: nat where "PREFETCH_BATCH = 32"

text \<open>A pointer to a slot: the shard and the index; \<^verbatim>\<open>None\<close> is null.\<close>

type_synonym slot_ptr = "(nat \<times> nat) option"

text \<open>A loop unrolled eight times and the loop over what is left.\<close>

fun each :: "('a \<Rightarrow> 'b option) \<Rightarrow> 'a list \<Rightarrow> 'b list option" where
  "each f [] = Some []"
| "each f (x # xs) = do { y \<leftarrow> f x; ys \<leftarrow> each f xs; Some (y # ys) }"

function unroll8 :: "('a \<Rightarrow> 'b option) \<Rightarrow> ('a \<Rightarrow> 'b option) \<Rightarrow> 'a list \<Rightarrow> 'b list option" where
  "unroll8 f g xs =
     (if 8 \<le> length xs then do { ys \<leftarrow> each f (take 8 xs); zs \<leftarrow> unroll8 f g (drop 8 xs); Some (ys @ zs) }
      else each g xs)"
  by pat_completeness auto

termination unroll8 by (relation "measure (\<lambda>(f, g, xs). length xs)") auto

definition slot_of :: "hasher \<Rightarrow> 'v custom_map \<Rightarrow> bytes \<Rightarrow> (64 word \<times> slot_ptr) option" where
  "slot_of H m key =
     (let (h, idx) = locate H key m in do {
        sh \<leftarrow> vget (cm_shards m) idx;
        Some (h, Some (idx, unat h AND tb_mask (sh_table sh))) })"

definition prefetch_slots ::
    "hasher \<Rightarrow> 'v custom_map \<Rightarrow> bytes list \<Rightarrow> 64 word list \<Rightarrow> slot_ptr list \<Rightarrow> (64 word list \<times> slot_ptr list) option" where
  "prefetch_slots H m keys hashes tables =
     (let n = min (min (length keys) (length hashes)) (length tables) in do {
        hs \<leftarrow> unroll8 (slot_of H m) (slot_of H m) (take n keys);
        Some (map fst hs @ drop n hashes, map snd hs @ drop n tables) })"

definition prefetch_slots_write ::
    "hasher \<Rightarrow> 'v custom_map \<Rightarrow> bytes list \<Rightarrow> 64 word list \<Rightarrow> slot_ptr list \<Rightarrow> (64 word list \<times> slot_ptr list) option" where
  "prefetch_slots_write H m keys hashes tables =
     (let n = min (min (length keys) (length hashes)) (length tables) in do {
        hs \<leftarrow> unroll8 (slot_of H m) (slot_of H m) (take n keys);
        Some (map fst hs @ drop n hashes, map snd hs @ drop n tables) })"

text \<open>The unrolled part does not look for null.\<close>

definition probe_ptr :: "'v custom_map \<Rightarrow> slot_ptr \<times> 64 word \<Rightarrow> 64 word option" where
  "probe_ptr m th =
     (case th of (None, _) \<Rightarrow> None
      | (Some (idx, i), hash) \<Rightarrow> do { sh \<leftarrow> vget (cm_shards m) idx; probe_from_base (sh_table sh) i hash 16 })"

definition probe_ptr_checked :: "'v custom_map \<Rightarrow> slot_ptr \<times> 64 word \<Rightarrow> 64 word option" where
  "probe_ptr_checked m th = (if fst th = None then Some 0 else probe_ptr m th)"

definition probe_and_prefetch_entries ::
    "'v custom_map \<Rightarrow> slot_ptr list \<Rightarrow> 64 word list \<Rightarrow> 64 word list \<Rightarrow> 64 word list option" where
  "probe_and_prefetch_entries m tables hashes entries =
     (let n = min (min (length tables) (length hashes)) (length entries) in do {
        ps \<leftarrow> unroll8 (probe_ptr m) (probe_ptr_checked m) (zip (take n tables) (take n hashes));
        Some (ps @ drop n entries) })"

definition probe_and_prefetch_entries_write ::
    "'v custom_map \<Rightarrow> slot_ptr list \<Rightarrow> 64 word list \<Rightarrow> 64 word list \<Rightarrow> 64 word list option" where
  "probe_and_prefetch_entries_write m tables hashes entries =
     (let n = min (min (length tables) (length hashes)) (length entries) in do {
        ps \<leftarrow> unroll8 (probe_ptr m) (probe_ptr_checked m) (zip (take n tables) (take n hashes));
        Some (ps @ drop n entries) })"

definition prefetch_batch_entries ::
    "hasher \<Rightarrow> 'v custom_map \<Rightarrow> bytes list \<Rightarrow> 64 word list \<Rightarrow> 64 word list \<Rightarrow> (64 word list \<times> 64 word list) option" where
  "prefetch_batch_entries H m keys hashes entries =
     (let n = min (min (min (length keys) PREFETCH_BATCH) (length hashes)) (length entries) in
      if n = 0 then Some (hashes, entries)
      else do {
        (hs, ts) \<leftarrow> prefetch_slots H m (take n keys) (take n hashes) (replicate n None);
        ps \<leftarrow> probe_and_prefetch_entries m ts hs (take n entries);
        Some (hs @ drop n hashes, ps @ drop n entries) })"

definition prefetch_batch :: "hasher \<Rightarrow> 'v custom_map \<Rightarrow> bytes list \<Rightarrow> 64 word list \<Rightarrow> 64 word list option" where
  "prefetch_batch H m keys hashes =
     map_option fst (prefetch_batch_entries H m keys hashes (replicate PREFETCH_BATCH 0))"

section \<open>Lookups\<close>

definition probe_entry_fast :: "bytes \<Rightarrow> 64 word \<Rightarrow> nat \<Rightarrow> 'v custom_map \<Rightarrow> 64 word option option" where
  "probe_entry_fast key hash idx m = do {
     sh \<leftarrow> vget (cm_shards m) idx;
     p \<leftarrow> probe_from_base (sh_table sh) (unat hash AND tb_mask (sh_table sh)) hash 16;
     if p = 0 then Some None
     else do {
       e \<leftarrow> sh_heap sh p;
       Some (if e_state e AND STATE_MATCH_MASK = expected_match hash \<and> e_key e = key then Some p else None) } }"

definition with_entry_pinned :: "bytes \<Rightarrow> 64 word \<Rightarrow> nat \<Rightarrow> ('v \<Rightarrow> 'r) \<Rightarrow> 'v custom_map \<Rightarrow> 'r option option" where
  "with_entry_pinned key hash idx f m = do {
     sh \<leftarrow> vget (cm_shards m) idx;
     r \<leftarrow> find_fast key hash sh;
     (case r of None \<Rightarrow> Some None | Some p \<Rightarrow> map_option (\<lambda>v. Some (f v)) (entry_value sh p)) }"

definition with_entry_hint :: "bytes \<Rightarrow> 64 word \<Rightarrow> 64 word \<Rightarrow> ('v \<Rightarrow> 'r) \<Rightarrow> 'v custom_map \<Rightarrow> 'r option option" where
  "with_entry_hint key hash entry_hint f m =
     (let idx = shard_of m hash in do {
        sh \<leftarrow> vget (cm_shards m) idx;
        r \<leftarrow> (if entry_hint = 0 then Some None
             else do {
               e \<leftarrow> sh_heap sh entry_hint;
               if e_state e AND STATE_MATCH_MASK = expected_match hash \<and> e_key e = key
               then map_option (\<lambda>v. Some (f v)) (e_value e) else Some None });
        (case r of Some x \<Rightarrow> Some (Some x) | None \<Rightarrow> with_entry_pinned key hash idx f m) })"

definition with_entry :: "bytes \<Rightarrow> 64 word \<Rightarrow> nat \<Rightarrow> ('v \<Rightarrow> 'r) \<Rightarrow> 'v custom_map \<Rightarrow> 'r option option" where
  "with_entry key hash idx f m = with_entry_pinned key hash idx f m"

text \<open>The lookups that test the state of what they found once more.\<close>

definition found_live :: "'v shard \<Rightarrow> 64 word option \<Rightarrow> 'v entry option option" where
  "found_live sh r =
     (case r of None \<Rightarrow> Some None
      | Some p \<Rightarrow> do { e \<leftarrow> sh_heap sh p; Some (if state_occupied (e_state e) then Some e else None) })"

definition contains_key :: "hasher \<Rightarrow> bytes \<Rightarrow> 'v custom_map \<Rightarrow> bool option" where
  "contains_key H key m =
     (let (h, idx) = locate H key m in do {
        sh \<leftarrow> vget (cm_shards m) idx;
        r \<leftarrow> find_fast key h sh;
        e \<leftarrow> found_live sh r;
        Some (e \<noteq> None) })"

definition cm_get :: "hasher \<Rightarrow> bytes \<Rightarrow> 'v custom_map \<Rightarrow> 'v option option" where
  "cm_get H key m =
     (let (h, idx) = locate H key m in do {
        sh \<leftarrow> vget (cm_shards m) idx;
        get_pinned_fast key h sh })"

definition cm_get_pinned :: "hasher \<Rightarrow> bytes \<Rightarrow> 'v custom_map \<Rightarrow> 'v option option" where
  "cm_get_pinned H key m =
     (let (h, idx) = locate H key m in do {
        sh \<leftarrow> vget (cm_shards m) idx;
        get_pinned_fast key h sh })"

definition get_ref :: "hasher \<Rightarrow> bytes \<Rightarrow> 'v custom_map \<Rightarrow> 'v option option" where
  "get_ref H key m =
     (let (h, idx) = locate H key m in do {
        sh \<leftarrow> vget (cm_shards m) idx;
        r \<leftarrow> find_fast key h sh;
        e \<leftarrow> found_live sh r;
        (case e of None \<Rightarrow> Some None | Some e \<Rightarrow> map_option Some (e_value e)) })"

definition get_ref_pinned :: "hasher \<Rightarrow> bytes \<Rightarrow> 'v custom_map \<Rightarrow> 'v option option" where
  "get_ref_pinned H key m =
     (let (h, idx) = locate H key m in do {
        sh \<leftarrow> vget (cm_shards m) idx;
        r \<leftarrow> find_fast key h sh;
        e \<leftarrow> found_live sh r;
        (case e of None \<Rightarrow> Some None | Some e \<Rightarrow> map_option Some (e_value e)) })"

section \<open>Insertions\<close>

text \<open>Every insertion sets a key in its shard, counts a new key and tells the observer.\<close>

definition shard_write ::
    "('v snap_ctl \<Rightarrow> 'v shard \<Rightarrow> (bool \<times> 'v snap_ctl \<times> 'v shard) option) \<Rightarrow> nat \<Rightarrow> bytes \<Rightarrow> 'v custom_map \<Rightarrow>
       (bool \<times> 'v custom_map) option" where
  "shard_write f idx key m = do {
     sh \<leftarrow> vget (cm_shards m) idx;
     (is_new, sn, sh1) \<leftarrow> f (cm_snap m) sh;
     m1 \<leftarrow> (let m0 = (put_shard idx sh1 m)\<lparr>cm_snap := sn\<rparr> in if is_new then bump idx True m0 else Some m0);
     Some (is_new, touched key m1) }"

definition map_insert :: "hasher \<Rightarrow> 64 word \<Rightarrow> bytes \<Rightarrow> 'v \<Rightarrow> 'v custom_map \<Rightarrow> (bool \<times> 'v custom_map) option" where
  "map_insert H a key v m = (let (h, idx) = locate H key m in shard_write (insert_hashed_key a key v h) idx key m)"

definition insert_str :: "hasher \<Rightarrow> 64 word \<Rightarrow> bytes \<Rightarrow> 'v \<Rightarrow> 'v custom_map \<Rightarrow> (bool \<times> 'v custom_map) option" where
  "insert_str H a key v m = (let (h, idx) = locate H key m in shard_write (insert_hashed_key a key v h) idx key m)"

definition insert_str_hashed ::
    "64 word \<Rightarrow> bytes \<Rightarrow> 'v \<Rightarrow> 64 word \<Rightarrow> nat \<Rightarrow> 'v custom_map \<Rightarrow> (bool \<times> 'v custom_map) option" where
  "insert_str_hashed a key v h idx m = shard_write (insert_hashed_key a key v h) idx key m"

text \<open>Whether the key is there already, which a full map asks before it takes a key.\<close>

definition key_exists :: "hasher \<Rightarrow> bytes \<Rightarrow> 'v custom_map \<Rightarrow> bool option" where
  "key_exists H key m =
     (let (h, idx) = locate H key m in do {
        sh \<leftarrow> vget (cm_shards m) idx;
        r \<leftarrow> shard_find key h sh;
        e \<leftarrow> found_live sh r;
        Some (e \<noteq> None) })"

text \<open>The error \<^verbatim>\<open>Full\<close>.\<close>

datatype full = Full

definition unless_full ::
    "hasher \<Rightarrow> bytes \<Rightarrow> ('v custom_map \<Rightarrow> (bool \<times> 'v custom_map) option) \<Rightarrow> 'v custom_map \<Rightarrow>
       ((full + bool) \<times> 'v custom_map) option" where
  "unless_full H key f m = do {
     refused \<leftarrow> (if is_full m then map_option Not (key_exists H key m) else Some False);
     if refused then Some (Err Full, m) else map_option (\<lambda>(b, m1). (Ok b, m1)) (f m) }"

definition try_insert :: "hasher \<Rightarrow> 64 word \<Rightarrow> bytes \<Rightarrow> 'v \<Rightarrow> 'v custom_map \<Rightarrow> ((full + bool) \<times> 'v custom_map) option" where
  "try_insert H a key v m = unless_full H key (map_insert H a key v) m"

definition set_located_pinned ::
    "64 word \<Rightarrow> bytes \<Rightarrow> 64 word \<Rightarrow> nat \<Rightarrow> 'v \<Rightarrow> 'v custom_map \<Rightarrow> (bool \<times> 'v custom_map) option" where
  "set_located_pinned a key h idx v m = shard_write (set_key a key h v) idx key m"

definition set_located ::
    "64 word \<Rightarrow> bytes \<Rightarrow> 64 word \<Rightarrow> nat \<Rightarrow> 'v \<Rightarrow> 'v custom_map \<Rightarrow> (bool \<times> 'v custom_map) option" where
  "set_located a key h idx v m = set_located_pinned a key h idx v m"

definition set_compact :: "hasher \<Rightarrow> 64 word \<Rightarrow> bytes \<Rightarrow> 'v \<Rightarrow> 'v custom_map \<Rightarrow> (bool \<times> 'v custom_map) option" where
  "set_compact H a key v m = (let (h, idx) = locate H key m in set_located a key h idx v m)"

definition cm_set :: "hasher \<Rightarrow> 64 word \<Rightarrow> bytes \<Rightarrow> 'v \<Rightarrow> 'v custom_map \<Rightarrow> (bool \<times> 'v custom_map) option" where
  "cm_set H a key v m = set_compact H a key v m"

definition set_str :: "hasher \<Rightarrow> 64 word \<Rightarrow> bytes \<Rightarrow> 'v \<Rightarrow> 'v custom_map \<Rightarrow> (bool \<times> 'v custom_map) option" where
  "set_str H a key v m = set_compact H a key v m"

definition set_str_hinted ::
    "hasher \<Rightarrow> 64 word \<Rightarrow> bytes \<Rightarrow> 64 word option \<Rightarrow> 'v \<Rightarrow> 'v custom_map \<Rightarrow> (bool \<times> 'v custom_map) option" where
  "set_str_hinted H a key hash v m = (let (h, idx) = locate_hinted H key hash m in set_located a key h idx v m)"

definition set_str_hinted_pinned ::
    "hasher \<Rightarrow> 64 word \<Rightarrow> bytes \<Rightarrow> 64 word option \<Rightarrow> 'v \<Rightarrow> 'v custom_map \<Rightarrow> (bool \<times> 'v custom_map) option" where
  "set_str_hinted_pinned H a key hash v m =
     (let (h, idx) = locate_hinted H key hash m in set_located_pinned a key h idx v m)"

definition cm_insert_slot_fast ::
    "64 word \<Rightarrow> 64 word \<Rightarrow> bytes \<Rightarrow> 'v \<Rightarrow> 'v custom_map \<Rightarrow> (bool \<times> 'v custom_map) option" where
  "cm_insert_slot_fast a hash key v m =
     (let idx = shard_of m hash in do {
        sh \<leftarrow> vget (cm_shards m) idx;
        (ok, sh1) \<leftarrow> insert_slot_fast a hash key v (cm_snap m) sh;
        (let m1 = put_shard idx sh1 m in
         if ok then map_option (\<lambda>m2. (True, m2)) (bump idx True m1) else Some (False, m1)) })"

definition probe_or_insert_fast ::
    "64 word \<Rightarrow> 64 word \<Rightarrow> bytes \<Rightarrow> 'v \<Rightarrow> 'v custom_map \<Rightarrow> (fast_set \<times> 'v custom_map) option" where
  "probe_or_insert_fast a hash key v m =
     (let idx = shard_of m hash in do {
        sh \<leftarrow> vget (cm_shards m) idx;
        (outcome, sh1) \<leftarrow> probe_or_insert a hash key v (cm_snap m) sh;
        m1 \<leftarrow> (let m0 = put_shard idx sh1 m in if outcome = Inserted then bump idx True m0 else Some m0);
        Some (outcome, m1) })"

definition try_set :: "hasher \<Rightarrow> 64 word \<Rightarrow> bytes \<Rightarrow> 'v \<Rightarrow> 'v custom_map \<Rightarrow> ((full + bool) \<times> 'v custom_map) option" where
  "try_set H a key v m = unless_full H key (cm_set H a key v) m"

definition try_set_str :: "hasher \<Rightarrow> 64 word \<Rightarrow> bytes \<Rightarrow> 'v \<Rightarrow> 'v custom_map \<Rightarrow> ((full + bool) \<times> 'v custom_map) option" where
  "try_set_str H a key v m = unless_full H key (set_str H a key v) m"

definition insert_if_absent :: "hasher \<Rightarrow> 64 word \<Rightarrow> bytes \<Rightarrow> 'v \<Rightarrow> 'v custom_map \<Rightarrow> (bool \<times> 'v custom_map) option" where
  "insert_if_absent H a key v m =
     (let (h, idx) = locate H key m in shard_write (set_compact_key a key h v False) idx key m)"

definition insert_if_absent_str_hinted ::
    "hasher \<Rightarrow> 64 word \<Rightarrow> bytes \<Rightarrow> 64 word option \<Rightarrow> 'v \<Rightarrow> 'v custom_map \<Rightarrow> (bool \<times> 'v custom_map) option" where
  "insert_if_absent_str_hinted H a key hash v m =
     (let (h, idx) = locate_hinted H key hash m in shard_write (set_key_with_overwrite a key h v False) idx key m)"

definition insert_if_absent_str ::
    "hasher \<Rightarrow> 64 word \<Rightarrow> bytes \<Rightarrow> 'v \<Rightarrow> 'v custom_map \<Rightarrow> (bool \<times> 'v custom_map) option" where
  "insert_if_absent_str H a key v m = insert_if_absent_str_hinted H a key None v m"

section \<open>Writes through an entry\<close>

text \<open>
  The hinted writes lock the entry with the sequence number already raised and release it with the state they computed before the snapshot ran.
\<close>

definition hinted_write ::
    "nat \<Rightarrow> 64 word \<Rightarrow> 'v entry \<Rightarrow> ('v entry \<Rightarrow> ('v entry \<times> 'v snap_ctl) option) \<Rightarrow> ('v \<Rightarrow> 'v) \<Rightarrow> bytes \<Rightarrow>
       'v custom_map \<Rightarrow> 'v custom_map option" where
  "hinted_write idx p e before f key m = do {
     sh \<leftarrow> vget (cm_shards m) idx;
     (let locked = bump_seq (e_state e) OR STATE_LOCK in do {
        (e1, sn) \<leftarrow> before (e\<lparr>e_state := locked\<rparr>);
        v \<leftarrow> e_value e1;
        Some (touched key ((put_shard idx
           (put_entry p (e1\<lparr>e_value := Some (f v), e_state := unlock_write locked True\<rparr>) sh) m)\<lparr>cm_snap := sn\<rparr>)) }) }"

definition set_with_hint ::
    "bool \<Rightarrow> 64 word \<Rightarrow> bytes \<Rightarrow> 64 word \<Rightarrow> 64 word \<Rightarrow> 'v \<Rightarrow> 'v custom_map \<Rightarrow> (bool \<times> 'v custom_map) option" where
  "set_with_hint cas a key hash entry_hint v m =
     (let idx = shard_of m hash in do {
        sh \<leftarrow> vget (cm_shards m) idx;
        if entry_hint = 0 then set_located_pinned a key hash idx v m
        else do {
          e \<leftarrow> sh_heap sh entry_hint;
          if e_state e AND STATE_MATCH_MASK = expected_match hash \<and> e_key e = key \<and> cas
          then map_option (\<lambda>m1. (False, m1)) (hinted_write idx entry_hint e (snap_before_write m) (\<lambda>_. v) key m)
          else set_located_pinned a key hash idx v m } })"

definition update_with_hint ::
    "bool \<Rightarrow> bytes \<Rightarrow> 64 word \<Rightarrow> 64 word \<Rightarrow> ('v \<Rightarrow> 'v \<times> 'r) \<Rightarrow> 'v custom_map \<Rightarrow> ('r option \<times> 'v custom_map) option" where
  "update_with_hint cas key hash entry_hint f m =
     (let idx = shard_of m hash;
          change = (\<lambda>p e. do {
            v \<leftarrow> e_value e;
            m1 \<leftarrow> hinted_write idx p e (\<lambda>e. before_write e (cm_snap m)) (fst \<circ> f) key m;
            Some (Some (snd (f v)), m1) })
      in do {
        sh \<leftarrow> vget (cm_shards m) idx;
        hinted \<leftarrow> (if entry_hint = 0 then Some None
                  else do {
                    e \<leftarrow> sh_heap sh entry_hint;
                    Some (if e_state e AND STATE_MATCH_MASK = expected_match hash \<and> e_key e = key \<and> cas then Some e else None) });
        (case hinted of
           Some e \<Rightarrow> change entry_hint e
         | None \<Rightarrow> do {
             r \<leftarrow> shard_find key hash sh;
             (case r of None \<Rightarrow> Some (None, m)
              | Some p \<Rightarrow> do {
                  e \<leftarrow> sh_heap sh p;
                  if e_state e AND (STATE_OCCUPIED OR STATE_LOCK) = STATE_OCCUPIED \<and> cas then change p e else Some (None, m) }) }) })"

text \<open>Find the entry of a key and lock it: nothing found, or the shard, the address and the locked entry.\<close>

definition lock_found ::
    "bytes \<Rightarrow> 64 word \<times> nat \<Rightarrow> 'v custom_map \<Rightarrow> (nat \<times> 64 word \<times> 'v entry) option option" where
  "lock_found key hi m =
     (case hi of (h, idx) \<Rightarrow> do {
        sh \<leftarrow> vget (cm_shards m) idx;
        r \<leftarrow> shard_find key h sh;
        (case r of None \<Rightarrow> Some None
         | Some p \<Rightarrow> do {
             e \<leftarrow> sh_heap sh p;
             st \<leftarrow> state_lock (e_state e);
             Some (Some (idx, p, e\<lparr>e_state := st\<rparr>)) }) })"

text \<open>The locked write of an entry, and its release without one.\<close>

definition entry_write ::
    "'v option \<Rightarrow> bool \<Rightarrow> nat \<Rightarrow> 64 word \<Rightarrow> 'v entry \<Rightarrow> 'v custom_map \<Rightarrow> 'v custom_map option" where
  "entry_write val occupied idx p e m = do {
     sh \<leftarrow> vget (cm_shards m) idx;
     (e1, sn) \<leftarrow> write_entry val occupied e (cm_snap m);
     Some ((put_shard idx (put_entry p e1 sh) m)\<lparr>cm_snap := sn\<rparr>) }"

definition entry_release :: "nat \<Rightarrow> 64 word \<Rightarrow> 'v entry \<Rightarrow> 'v custom_map \<Rightarrow> 'v custom_map option" where
  "entry_release idx p e m = do {
     sh \<leftarrow> vget (cm_shards m) idx;
     Some (put_shard idx (put_entry p (e\<lparr>e_state := state_unlock (e_state e)\<rparr>) sh) m) }"

text \<open>The removals look at the state before they lock.\<close>

definition remove_entry :: "hasher \<Rightarrow> bytes \<Rightarrow> 'v custom_map \<Rightarrow> ('v option \<times> 'v custom_map) option" where
  "remove_entry H key m =
     (let (h, idx) = locate H key m in do {
        sh \<leftarrow> vget (cm_shards m) idx;
        r \<leftarrow> shard_find key h sh;
        (case r of None \<Rightarrow> Some (None, m)
         | Some p \<Rightarrow> do {
             e \<leftarrow> sh_heap sh p;
             if \<not> state_occupied (e_state e) then Some (None, m)
             else do {
               st \<leftarrow> state_lock (e_state e);
               if \<not> state_occupied st then map_option (\<lambda>m1. (None, m1)) (entry_release idx p (e\<lparr>e_state := st\<rparr>) m)
               else do {
                 v \<leftarrow> e_value e;
                 m1 \<leftarrow> entry_write None False idx p (e\<lparr>e_state := st\<rparr>) m;
                 m2 \<leftarrow> bump idx False m1;
                 Some (Some v, touched key m2) } } }) })"

definition map_remove :: "hasher \<Rightarrow> bytes \<Rightarrow> 'v custom_map \<Rightarrow> ('v option \<times> 'v custom_map) option" where
  "map_remove H key m = remove_entry H key m"

definition remove_no_clone :: "hasher \<Rightarrow> bytes \<Rightarrow> 'v custom_map \<Rightarrow> (bool \<times> 'v custom_map) option" where
  "remove_no_clone H key m = map_option (\<lambda>(r, m1). (r \<noteq> None, m1)) (remove_entry H key m)"

definition remove_with :: "hasher \<Rightarrow> bytes \<Rightarrow> ('v \<Rightarrow> 'r) \<Rightarrow> 'v custom_map \<Rightarrow> ('r option \<times> 'v custom_map) option" where
  "remove_with H key f m = map_option (\<lambda>(r, m1). (map_option f r, m1)) (remove_entry H key m)"

text \<open>An update of a locked entry; a closure that gives nothing leaves it alone.\<close>

definition update_entry ::
    "bytes \<Rightarrow> 64 word \<times> nat \<Rightarrow> ('v \<Rightarrow> ('v \<times> 'r) option) \<Rightarrow> 'v custom_map \<Rightarrow> ('r option \<times> 'v custom_map) option" where
  "update_entry key hi f m = do {
     r \<leftarrow> lock_found key hi m;
     (case r of None \<Rightarrow> Some (None, m)
      | Some (idx, p, e) \<Rightarrow>
          if \<not> state_occupied (e_state e) then map_option (\<lambda>m1. (None, m1)) (entry_release idx p e m)
          else do {
            v \<leftarrow> e_value e;
            (case f v of
               None \<Rightarrow> map_option (\<lambda>m1. (None, m1)) (entry_release idx p e m)
             | Some (w, x) \<Rightarrow> do {
                 m1 \<leftarrow> entry_write (Some w) True idx p e m;
                 Some (Some x, touched key m1) }) }) }"

definition cm_update :: "hasher \<Rightarrow> bytes \<Rightarrow> ('v \<Rightarrow> 'v \<times> 'r) \<Rightarrow> 'v custom_map \<Rightarrow> ('r option \<times> 'v custom_map) option" where
  "cm_update H key f m = update_entry key (locate H key m) (Some \<circ> f) m"

definition try_update ::
    "hasher \<Rightarrow> bytes \<Rightarrow> ('v \<Rightarrow> ('v \<times> 'r) option) \<Rightarrow> 'v custom_map \<Rightarrow> ('r option \<times> 'v custom_map) option" where
  "try_update H key f m = update_entry key (locate H key m) f m"

definition update_with_hinted ::
    "hasher \<Rightarrow> bytes \<Rightarrow> 64 word option \<Rightarrow> ('v \<Rightarrow> 'v \<times> 'r) \<Rightarrow> 'v custom_map \<Rightarrow> ('r option \<times> 'v custom_map) option" where
  "update_with_hinted H key hash f m = update_entry key (locate_hinted H key hash m) (Some \<circ> f) m"

definition update_with :: "hasher \<Rightarrow> bytes \<Rightarrow> ('v \<Rightarrow> 'v \<times> 'r) \<Rightarrow> 'v custom_map \<Rightarrow> ('r option \<times> 'v custom_map) option" where
  "update_with H key f m = update_with_hinted H key None f m"

definition get_locked :: "hasher \<Rightarrow> bytes \<Rightarrow> ('v \<Rightarrow> 'r) \<Rightarrow> 'v custom_map \<Rightarrow> ('r option \<times> 'v custom_map) option" where
  "get_locked H key f m = do {
     r \<leftarrow> lock_found key (locate H key m) m;
     (case r of None \<Rightarrow> Some (None, m)
      | Some (idx, p, e) \<Rightarrow>
          if \<not> state_occupied (e_state e) then map_option (\<lambda>m1. (None, m1)) (entry_release idx p e m)
          else do {
            v \<leftarrow> e_value e;
            m1 \<leftarrow> entry_release idx p e m;
            Some (Some (f v), m1) }) }"

text \<open>An odd sequence number belongs to a writer that is not done: the reader waits for it.\<close>

definition read_consistent :: "hasher \<Rightarrow> bytes \<Rightarrow> ('v \<Rightarrow> 'r) \<Rightarrow> 'v custom_map \<Rightarrow> 'r option option" where
  "read_consistent H key f m =
     (let (h, idx) = locate H key m in do {
        sh \<leftarrow> vget (cm_shards m) idx;
        r \<leftarrow> shard_find key h sh;
        (case r of None \<Rightarrow> Some None
         | Some p \<Rightarrow> do {
             e \<leftarrow> sh_heap sh p;
             if state_seq (e_state e) AND 1 \<noteq> 0 then None
             else if \<not> state_occupied (e_state e) then Some None
             else map_option (\<lambda>v. Some (f v)) (e_value e) }) })"

section \<open>Walks over the shards\<close>

fun walk_slots :: "(bytes \<Rightarrow> 'v \<Rightarrow> 's \<Rightarrow> 's) \<Rightarrow> 'v entries \<Rightarrow> 64 word list \<Rightarrow> 's \<Rightarrow> 's option" where
  "walk_slots f heap [] s = Some s"
| "walk_slots f heap (w # ws) s =
     (let p = decode w in
      if p = 0 then walk_slots f heap ws s
      else do {
        e \<leftarrow> heap p;
        if state_occupied (e_state e) then do { v \<leftarrow> e_value e; walk_slots f heap ws (f (e_key e) v s) }
        else walk_slots f heap ws s })"

definition walk_shard :: "(bytes \<Rightarrow> 'v \<Rightarrow> 's \<Rightarrow> 's) \<Rightarrow> 'v shard \<Rightarrow> 's \<Rightarrow> 's option" where
  "walk_shard f sh s = walk_slots f (sh_heap sh) (table_slots (sh_table sh)) s"

fun walk_shards :: "(bytes \<Rightarrow> 'v \<Rightarrow> 's \<Rightarrow> 's) \<Rightarrow> 'v shard list \<Rightarrow> 's \<Rightarrow> 's option" where
  "walk_shards f [] s = Some s"
| "walk_shards f (sh # shs) s = do { s1 \<leftarrow> walk_shard f sh s; walk_shards f shs s1 }"

definition for_each :: "(bytes \<Rightarrow> 'v \<Rightarrow> 's \<Rightarrow> 's) \<Rightarrow> 'v custom_map \<Rightarrow> 's \<Rightarrow> 's option" where
  "for_each f m s = walk_shards f (cm_shards m) s"

definition for_each_shard_range :: "nat \<Rightarrow> nat \<Rightarrow> (bytes \<Rightarrow> 'v \<Rightarrow> 's \<Rightarrow> 's) \<Rightarrow> 'v custom_map \<Rightarrow> 's \<Rightarrow> 's option" where
  "for_each_shard_range from to f m s =
     walk_shards f (map ((!) (cm_shards m)) [from..<min to (length (cm_shards m))]) s"

definition cm_keys :: "'v custom_map \<Rightarrow> bytes list option" where
  "cm_keys m = for_each (\<lambda>k _ out. out @ [k]) m []"

text \<open>What the walks that drop entries do with one of them: the closure says whether to drop, and is asked before the lock.\<close>

definition drop_entry :: "nat \<Rightarrow> 64 word \<Rightarrow> 'v entry \<Rightarrow> 'v custom_map \<Rightarrow> 'v custom_map option" where
  "drop_entry idx p e m = do {
     m1 \<leftarrow> entry_write None False idx p e m;
     m2 \<leftarrow> bump idx False m1;
     Some (touched (e_key e) m2) }"

fun retain_loop :: "(bytes \<Rightarrow> 'v \<Rightarrow> bool) \<Rightarrow> nat \<Rightarrow> 64 word list \<Rightarrow> 'v custom_map \<Rightarrow> 'v custom_map option" where
  "retain_loop f idx [] m = Some m"
| "retain_loop f idx (w # ws) m =
     (let p = decode w in
      if p = 0 then retain_loop f idx ws m
      else do {
        sh \<leftarrow> vget (cm_shards m) idx;
        e \<leftarrow> sh_heap sh p;
        if \<not> state_occupied (e_state e) then retain_loop f idx ws m
        else do {
          v \<leftarrow> e_value e;
          if f (e_key e) v then retain_loop f idx ws m
          else do {
            st \<leftarrow> state_lock (e_state e);
            m1 \<leftarrow> (if state_occupied st then drop_entry idx p (e\<lparr>e_state := st\<rparr>) m
                   else entry_release idx p (e\<lparr>e_state := st\<rparr>) m);
            retain_loop f idx ws m1 } } })"

fun retain_shards :: "(bytes \<Rightarrow> 'v \<Rightarrow> bool) \<Rightarrow> nat list \<Rightarrow> 'v custom_map \<Rightarrow> 'v custom_map option" where
  "retain_shards f [] m = Some m"
| "retain_shards f (i # is) m = do {
     sh \<leftarrow> vget (cm_shards m) i;
     m1 \<leftarrow> retain_loop f i (table_slots (sh_table sh)) m;
     retain_shards f is m1 }"

definition cm_retain :: "(bytes \<Rightarrow> 'v \<Rightarrow> bool) \<Rightarrow> 'v custom_map \<Rightarrow> 'v custom_map option" where
  "cm_retain f m = retain_shards f [0..<length (cm_shards m)] m"

text \<open>The slots of a range, clipped to the table.\<close>

definition range_end :: "nat \<Rightarrow> nat \<Rightarrow> nat \<Rightarrow> nat" where
  "range_end start max_slots capacity = min (min (start + max_slots) usize_max) capacity"

definition retain_shard_range ::
    "nat \<Rightarrow> nat \<Rightarrow> nat \<Rightarrow> (bytes \<Rightarrow> 'v \<Rightarrow> bool) \<Rightarrow> 'v custom_map \<Rightarrow> ((nat \<times> nat) option \<times> 'v custom_map) option" where
  "retain_shard_range idx start_slot max_slots f m =
     (if \<not> idx < length (cm_shards m) then Some (None, m)
      else let t = sh_table (cm_shards m ! idx);
               start = min start_slot (tb_capacity t);
               stop = range_end start max_slots (tb_capacity t)
           in do {
             ws \<leftarrow> vslice (table_slots t) start stop;
             m1 \<leftarrow> retain_loop f idx ws m;
             Some (Some (stop, tb_capacity t), m1) })"

definition retain_shard :: "nat \<Rightarrow> (bytes \<Rightarrow> 'v \<Rightarrow> bool) \<Rightarrow> 'v custom_map \<Rightarrow> 'v custom_map option" where
  "retain_shard idx f m = map_option snd (retain_shard_range idx 0 usize_max f m)"

fun expire_loop ::
    "('v \<Rightarrow> bool option) \<Rightarrow> nat \<Rightarrow> 64 word list \<Rightarrow> nat \<Rightarrow> nat \<Rightarrow> 'v custom_map \<Rightarrow> (nat \<times> nat \<times> 'v custom_map) option" where
  "expire_loop f idx [] removed live m = Some (removed, live, m)"
| "expire_loop f idx (w # ws) removed live m =
     (let p = decode w in
      if p = 0 then expire_loop f idx ws removed live m
      else do {
        sh \<leftarrow> vget (cm_shards m) idx;
        e \<leftarrow> sh_heap sh p;
        if \<not> state_occupied (e_state e) then expire_loop f idx ws removed live m
        else do {
          v \<leftarrow> e_value e;
          (case f v of
             None \<Rightarrow> expire_loop f idx ws removed live m
           | Some False \<Rightarrow> expire_loop f idx ws removed (live + 1) m
           | Some True \<Rightarrow> do {
               st \<leftarrow> state_lock (e_state e);
               if state_occupied st \<and> f v = Some True then do {
                 m1 \<leftarrow> drop_entry idx p (e\<lparr>e_state := st\<rparr>) m;
                 expire_loop f idx ws (removed + 1) live m1 }
               else do {
                 m1 \<leftarrow> entry_release idx p (e\<lparr>e_state := st\<rparr>) m;
                 expire_loop f idx ws removed (live + 1) m1 } }) } })"

definition expire_shard_range ::
    "nat \<Rightarrow> nat \<Rightarrow> nat \<Rightarrow> ('v \<Rightarrow> bool option) \<Rightarrow> 'v custom_map \<Rightarrow>
       ((nat \<times> nat \<times> nat \<times> nat) option \<times> 'v custom_map) option" where
  "expire_shard_range idx start_slot max_slots f m =
     (if \<not> idx < length (cm_shards m) then Some (None, m)
      else let t = sh_table (cm_shards m ! idx);
               start = min start_slot (tb_capacity t);
               stop = range_end start max_slots (tb_capacity t)
           in do {
             ws \<leftarrow> vslice (table_slots t) start stop;
             (removed, live, m1) \<leftarrow> expire_loop f idx ws 0 0 m;
             Some (Some (stop, tb_capacity t, removed, live), m1) })"

text \<open>Defragmentation rewrites live values in place, as many as the budget allows.\<close>

fun defrag_loop ::
    "('v \<Rightarrow> 'v) \<Rightarrow> nat \<Rightarrow> nat \<Rightarrow> 64 word list \<Rightarrow> nat \<Rightarrow> nat \<Rightarrow> 'v custom_map \<Rightarrow> (nat \<times> nat \<times> 'v custom_map) option" where
  "defrag_loop f idx budget [] slot rebuilt m = Some (slot, rebuilt, m)"
| "defrag_loop f idx budget (w # ws) slot rebuilt m =
     (if \<not> rebuilt < budget then Some (slot, rebuilt, m)
      else let p = decode w in
           if p = 0 then defrag_loop f idx budget ws (slot + 1) rebuilt m
           else do {
             sh \<leftarrow> vget (cm_shards m) idx;
             e \<leftarrow> sh_heap sh p;
             if \<not> state_occupied (e_state e) then defrag_loop f idx budget ws (slot + 1) rebuilt m
             else do {
               st \<leftarrow> state_lock (e_state e);
               if state_occupied st then do {
                 v \<leftarrow> e_value e;
                 m1 \<leftarrow> entry_write (Some (f v)) True idx p (e\<lparr>e_state := st\<rparr>) m;
                 defrag_loop f idx budget ws (slot + 1) (rebuilt + 1) m1 }
               else do {
                 m1 \<leftarrow> entry_release idx p (e\<lparr>e_state := st\<rparr>) m;
                 defrag_loop f idx budget ws (slot + 1) rebuilt m1 } } })"

definition defragment_shard_range ::
    "nat \<Rightarrow> nat \<Rightarrow> nat \<Rightarrow> ('v \<Rightarrow> 'v) \<Rightarrow> 'v custom_map \<Rightarrow> ((nat \<times> nat \<times> nat) option \<times> 'v custom_map) option" where
  "defragment_shard_range idx start_slot budget f m =
     (if \<not> idx < length (cm_shards m) then Some (None, m)
      else let t = sh_table (cm_shards m ! idx); slot = min start_slot (tb_capacity t) in do {
        (stop, rebuilt, m1) \<leftarrow> defrag_loop f idx budget (drop slot (table_slots t)) slot 0 m;
        Some (Some (stop, tb_capacity t, rebuilt), m1) })"

section \<open>Maintenance\<close>

fun count_states :: "64 word list \<Rightarrow> 'v entries \<Rightarrow> (nat \<times> nat) option" where
  "count_states [] heap = Some (0, 0)"
| "count_states (w # ws) heap =
     (let p = decode w in
      if p = 0 then count_states ws heap
      else do {
        e \<leftarrow> heap p;
        (live, dead) \<leftarrow> count_states ws heap;
        Some (if state_occupied (e_state e) then (live + 1, dead) else (live, dead + 1)) })"

definition compact_shard :: "nat \<Rightarrow> 'v custom_map \<Rightarrow> 'v custom_map option" where
  "compact_shard idx m =
     (if \<not> idx < length (cm_shards m) then Some m
      else let sh = cm_shards m ! idx;
               live_hint = unat (sh_live sh);
               capacity_hint = tb_mask (sh_table sh) + 1;
               dead_hint = dead_estimate (sh_len sh) live_hint
           in
           if live_hint = 0 \<and> dead_hint = 0 then Some m
           else if capacity_hint \<le> capacity_for live_hint \<and> dead_hint < max (capacity_hint div 4) 16 then Some m
           else let t = sh_table sh in do {
             (live, dead) \<leftarrow> count_states (table_slots t) (sh_heap sh);
             (let target = capacity_for live in
              if tb_capacity t \<le> target \<and> dead < max (tb_capacity t div 4) 16 then Some m
              else do {
                sh1 \<leftarrow> rebuild_to (min target (tb_capacity t)) sh;
                Some (put_shard idx sh1 m) }) })"

text \<open>The entries of the old tables are freed once no reader can hold them.\<close>

definition clear_shard :: "'v shard \<Rightarrow> 'v shard" where
  "clear_shard sh = sh\<lparr>sh_table := table_new (sh_initial_capacity sh), sh_len := 0, sh_live := 0\<rparr>"

definition cm_clear :: "'v custom_map \<Rightarrow> 'v custom_map" where
  "cm_clear m =
     (let m1 = m\<lparr>cm_shards := map clear_shard (cm_shards m)\<rparr> in
      if cm_observing m1 \<and> cm_observer m1 then m1\<lparr>cm_notes := cm_notes m1 @ [Cleared]\<rparr> else m1)"

definition shard_count :: "'v custom_map \<Rightarrow> nat" where
  "shard_count m = length (cm_shards m)"

definition shard_slot_count :: "nat \<Rightarrow> 'v custom_map \<Rightarrow> nat option" where
  "shard_slot_count i m = map_option (\<lambda>sh. tb_capacity (sh_table sh)) (vget (cm_shards m) i)"

definition shard_layout_matches :: "nat list \<Rightarrow> 'v custom_map \<Rightarrow> bool" where
  "shard_layout_matches capacities m \<longleftrightarrow>
     length capacities = length (cm_shards m) \<and>
     list_all (\<lambda>(sh, c). tb_capacity (sh_table sh) = c) (zip (cm_shards m) capacities)"

section \<open>Snapshots\<close>

definition begin_snapshot :: "'v custom_map \<Rightarrow> bool \<times> 'v custom_map" where
  "begin_snapshot m =
     (let (ok, sn) = snap_begin (cm_snap m); m1 = m\<lparr>cm_snap := sn\<rparr> in
      (ok, if ok then m1\<lparr>cm_snap_active := True\<rparr> else m1))"

definition end_snapshot :: "'v custom_map \<Rightarrow> 'v custom_map" where
  "end_snapshot m = m\<lparr>cm_snap_active := False, cm_snap := snap_end (cm_snap m)\<rparr>"

fun snapshot_loop ::
    "(bytes \<Rightarrow> 'v \<Rightarrow> 's \<Rightarrow> 's) \<Rightarrow> 64 word \<Rightarrow> 64 word list \<Rightarrow> 'v entries \<Rightarrow> 's \<Rightarrow> ('s \<times> 'v entries) option" where
  "snapshot_loop visit parity [] heap s = Some (s, heap)"
| "snapshot_loop visit parity (w # ws) heap s =
     (let p = decode w in
      if p = 0 then snapshot_loop visit parity ws heap s
      else do {
        e \<leftarrow> heap p;
        if e_state e AND STATE_SNAP = parity then snapshot_loop visit parity ws heap s
        else do {
          st \<leftarrow> state_lock (e_state e);
          if st AND STATE_SNAP \<noteq> parity then do {
            s1 \<leftarrow> (if st AND STATE_OCCUPIED \<noteq> 0 then map_option (\<lambda>v. visit (e_key e) v s) (e_value e) else Some s);
            snapshot_loop visit parity ws
              (heap(p \<mapsto> e\<lparr>e_state := state_unlock ((st AND NOT STATE_SNAP) OR parity)\<rparr>)) s1 }
          else snapshot_loop visit parity ws (heap(p \<mapsto> e\<lparr>e_state := state_unlock st\<rparr>)) s } })"

definition snapshot_shard ::
    "nat \<Rightarrow> (bytes \<Rightarrow> 'v \<Rightarrow> 's \<Rightarrow> 's) \<Rightarrow> 'v custom_map \<Rightarrow> 's \<Rightarrow> ('s \<times> 'v custom_map) option" where
  "snapshot_shard idx visit m s =
     (if \<not> idx < length (cm_shards m) then Some (s, m)
      else let sh = cm_shards m ! idx in do {
        (s1, heap) \<leftarrow> snapshot_loop visit (sn_parity (cm_snap m)) (table_slots (sh_table sh)) (sh_heap sh) s;
        Some (s1, put_shard idx (sh\<lparr>sh_heap := heap\<rparr>) m) })"

definition peek_slot_with :: "nat \<Rightarrow> nat \<Rightarrow> (bytes \<Rightarrow> 'v \<Rightarrow> 'r) \<Rightarrow> 'v custom_map \<Rightarrow> 'r option option" where
  "peek_slot_with idx slot f m = do {
     sh \<leftarrow> vget (cm_shards m) idx;
     (let t = sh_table sh in
      if tb_capacity t \<le> slot then Some None
      else do {
        w \<leftarrow> vget (table_slots t) slot;
        (let p = decode w in
         if p = 0 then Some None
         else do {
           e \<leftarrow> sh_heap sh p;
           if \<not> state_occupied (e_state e) then Some None
           else map_option (\<lambda>v. Some (f (e_key e) v)) (e_value e) }) }) }"

definition peek_slot :: "nat \<Rightarrow> nat \<Rightarrow> 'v custom_map \<Rightarrow> (bytes \<times> 'v) option option" where
  "peek_slot idx slot m = peek_slot_with idx slot Pair m"

end
