(* ===== verification/CustomMapInv.thy ===== *)
theory CustomMapInv
  imports CustomMap
begin

text \<open>
  The concurrent map stands for a finite map from keys to values: its invariant, what each operation
  does to that map, and what a snapshot sees of it.
\<close>

section \<open>The invariant of the map\<close>

definition shard_ok :: "hasher \<Rightarrow> 'v custom_map \<Rightarrow> nat \<Rightarrow> 'v shard \<Rightarrow> bool" where
  "shard_ok H m i sh \<longleftrightarrow> shard_inv H sh \<and> sh_live sh = of_nat (card (dom (shard_live sh)))
     \<and> (\<forall>k. shard_live sh k \<noteq> None \<longrightarrow> shard_of m (H k) = i)"

definition map_inv :: "hasher \<Rightarrow> 'v custom_map \<Rightarrow> bool" where
  "map_inv H m \<longleftrightarrow> (\<exists>k. length (cm_shards m) = 2 ^ k) \<and> cm_shard_mask m = length (cm_shards m) - 1
     \<and> snap_ok (cm_snap m) \<and> cm_snap_active m = sn_active (cm_snap m) \<and> sn_sink (cm_snap m) = sn_active (cm_snap m)
     \<and> (\<forall>i < length (cm_shards m). shard_ok H m i (cm_shards m ! i))"

text \<open>The live entry of a key, and the map of the live values.\<close>

definition cm_live :: "hasher \<Rightarrow> 'v custom_map \<Rightarrow> bytes \<rightharpoonup> 'v entry" where
  "cm_live H m k = shard_live (cm_shards m ! shard_of m (H k)) k"

definition cm_map :: "hasher \<Rightarrow> 'v custom_map \<Rightarrow> bytes \<rightharpoonup> 'v" where
  "cm_map H m k = cm_live H m k \<bind> e_value"

text \<open>Room for \<^verbatim>\<open>n\<close> more insertions, and an address that no entry has.\<close>

definition roomy :: "nat \<Rightarrow> 'v custom_map \<Rightarrow> bool" where
  "roomy n m \<longleftrightarrow> (\<forall>sh \<in> set (cm_shards m). sh_len sh + n < 2 ^ 30)"

definition free_addr :: "64 word \<Rightarrow> 'v custom_map \<Rightarrow> bool" where
  "free_addr a m \<longleftrightarrow> ptr_ok a \<and> (\<forall>sh \<in> set (cm_shards m). sh_heap sh a = None)"

text \<open>What an insertion at an address may do to the free addresses and to the room; the other operations do less.\<close>

definition step_from :: "64 word option \<Rightarrow> 'v custom_map \<Rightarrow> 'v custom_map \<Rightarrow> bool" where
  "step_from a m m' \<longleftrightarrow> (\<forall>b. free_addr b m \<and> a \<noteq> Some b \<longrightarrow> free_addr b m') \<and> (\<forall>n. roomy (Suc n) m \<longrightarrow> roomy n m')"

text \<open>The shard of a key before and after a write of its entry: the slots, and the keys of the entries they point to.\<close>

definition same_slots :: "nat \<Rightarrow> 'v custom_map \<Rightarrow> 'v custom_map \<Rightarrow> bool" where
  "same_slots i m m' \<longleftrightarrow> sh_table (cm_shards m' ! i) = sh_table (cm_shards m ! i)
     \<and> (\<forall>p. map_option e_key (sh_heap (cm_shards m' ! i) p) = map_option e_key (sh_heap (cm_shards m ! i) p))"

lemma locate_shard: "locate H k m = (H k, shard_of m (H k))"
  by (simp add: locate_def shard_of_def Let_def)

lemma shard_of_lt: "map_inv H m \<Longrightarrow> shard_of m h < length (cm_shards m)"
proof -
  assume "map_inv H m"
  then obtain k where k: "length (cm_shards m) = 2 ^ k" "cm_shard_mask m = length (cm_shards m) - 1" by (auto simp: map_inv_def)
  then show ?thesis using nat_and_mask [OF k(1)] by (simp add: shard_of_def)
qed

lemma shard_at:
  assumes inv: "map_inv H m"
  shows "vget (cm_shards m) (shard_of m h) = Some (cm_shards m ! shard_of m h)"
    "shard_ok H m (shard_of m h) (cm_shards m ! shard_of m h)"
  using shard_of_lt [OF inv, of h] inv by (auto simp: vget_def map_inv_def)

lemma shard_live_holds:
  assumes inv: "shard_inv H sh" and l: "shard_live sh k = Some e"
  obtains i p v where "holds H (sh_heap sh) (sh_table sh) i p e" "e_key e = k" "e_value e = Some v"
proof -
  have ti: "table_inv H (sh_heap sh) (sh_table sh)" using inv by (simp add: shard_inv_def)
  have "entry_at (sh_heap sh) (sh_table sh) k = Some e" "e_value e \<noteq> None"
    using l by (auto simp: shard_live_def live_entry_def split: option.splits if_splits)
  then show thesis using that by (auto simp: entry_at_iff [OF ti])
qed

lemma finite_live: "finite (dom (shard_live sh))"
proof -
  have "dom (shard_live sh) \<subseteq> dom (entry_at (sh_heap sh) (sh_table sh))"
    by (auto simp: shard_live_def live_entry_def split: option.splits)
  moreover have "finite (dom (entry_at (sh_heap sh) (sh_table sh)))"
    unfolding entry_at_def by (rule finite_dom_map_of)
  ultimately show ?thesis by (rule finite_subset)
qed

text \<open>What a search finds.\<close>

lemma find_law:
  assumes inv: "shard_inv H sh"
  shows "shard_live sh k = None \<Longrightarrow> find_fast k (H k) sh = Some None"
    "shard_live sh k = None \<Longrightarrow> get_pinned_fast k (H k) sh = Some None"
    "shard_live sh k = Some e \<Longrightarrow> \<exists>i p. find_fast k (H k) sh = Some (Some p) \<and> holds H (sh_heap sh) (sh_table sh) i p e"
    "shard_live sh k = Some e \<Longrightarrow> get_pinned_fast k (H k) sh = Some (e_value e)"
proof -
  show "find_fast k (H k) sh = Some None" if "shard_live sh k = None"
    using that by (intro find_fast_dead(1) [OF inv]) (simp add: shard_map_live)
  show "get_pinned_fast k (H k) sh = Some None" if "shard_live sh k = None"
    using that by (intro find_fast_dead(2) [OF inv]) (simp add: shard_map_live)
  assume "shard_live sh k = Some e"
  then obtain i p v where h: "holds H (sh_heap sh) (sh_table sh) i p e" "e_key e = k" and v: "e_value e = Some v"
    by (rule shard_live_holds [OF inv])
  have ne: "e_value e \<noteq> None" using v by simp
  from find_fast_live [OF inv h ne] show "\<exists>i p. find_fast k (H k) sh = Some (Some p) \<and> holds H (sh_heap sh) (sh_table sh) i p e"
    "get_pinned_fast k (H k) sh = Some (e_value e)" using h(1) by auto
qed

section \<open>Changing one key\<close>

text \<open>The rest of the map is what it was.\<close>

definition same_frame :: "'v custom_map \<Rightarrow> 'v custom_map \<Rightarrow> bool" where
  "same_frame m m' \<longleftrightarrow> cm_shift m' = cm_shift m \<and> cm_shard_mask m' = cm_shard_mask m \<and> cm_max_keys m' = cm_max_keys m
     \<and> cm_observer m' = cm_observer m \<and> cm_observing m' = cm_observing m \<and> cm_snap_active m' = cm_snap_active m
     \<and> sn_active (cm_snap m') = sn_active (cm_snap m) \<and> sn_parity (cm_snap m') = sn_parity (cm_snap m)
     \<and> sn_sink (cm_snap m') = sn_sink (cm_snap m)"

lemma same_frame_refl [simp]: "same_frame m m"
  by (simp add: same_frame_def)

lemma same_frame_trans: "same_frame m m' \<Longrightarrow> same_frame m' m'' \<Longrightarrow> same_frame m m''"
  by (simp add: same_frame_def)

lemma same_frame_shard_of: "same_frame m m' \<Longrightarrow> shard_of m' = shard_of m"
  by (simp add: same_frame_def shard_of_def fun_eq_iff)

lemma change_shard:
  assumes inv: "map_inv H m" and f: "same_frame m m'" and s: "cm_shards m' = (cm_shards m)[shard_of m (H k) := sh']"
    and ok: "shard_inv H sh'" "shard_live sh' = (shard_live (cm_shards m ! shard_of m (H k)))(k := x)"
      "sh_live sh' = of_nat (card (dom (shard_live sh')))"
  shows "map_inv H m'" "cm_live H m' = (cm_live H m)(k := x)"
proof -
  let ?i = "shard_of m (H k)"
  note i = shard_of_lt [OF inv, of "H k"]
  note so = same_frame_shard_of [OF f]
  have "shard_ok H m' j (cm_shards m' ! j)" if j: "j < length (cm_shards m')" for j
  proof (cases "j = ?i")
    case True
    have "shard_of m (H k') = ?i" if "shard_live sh' k' \<noteq> None" for k'
      using that shard_at(2) [OF inv, of "H k"] by (cases "k' = k") (auto simp: ok(2) shard_ok_def)
    moreover have "cm_shards m' ! j = sh'" using True i s by simp
    ultimately show ?thesis unfolding shard_ok_def so using ok(1,3) True by simp
  next
    case False
    then show ?thesis using j inv by (simp add: s map_inv_def shard_ok_def so)
  qed
  then show "map_inv H m'" using inv f unfolding map_inv_def same_frame_def snap_ok_def by (simp add: s)
  show "cm_live H m' = (cm_live H m)(k := x)"
  proof
    fix k'
    show "cm_live H m' k' = ((cm_live H m)(k := x)) k'"
    proof (cases "shard_of m (H k') = ?i")
      case True
      then show ?thesis using i by (simp add: cm_live_def so s ok(2))
    next
      case False
      then have "k' \<noteq> k" by auto
      then show ?thesis using False i by (simp add: cm_live_def so s)
    qed
  qed
qed

lemma card_live_upd:
  "card (dom ((shard_live sh)(k \<mapsto> e))) = (if shard_live sh k = None then card (dom (shard_live sh)) + 1 else card (dom (shard_live sh)))"
  "card (dom ((shard_live sh)(k := None))) = card (dom (shard_live sh)) - (if shard_live sh k = None then 0 else 1)"
proof -
  have k: "k \<in> dom (shard_live sh) \<longleftrightarrow> shard_live sh k \<noteq> None" by auto
  have "dom ((shard_live sh)(k \<mapsto> e)) = insert k (dom (shard_live sh))" by simp
  then show "card (dom ((shard_live sh)(k \<mapsto> e))) = (if shard_live sh k = None then card (dom (shard_live sh)) + 1 else card (dom (shard_live sh)))"
    using finite_live [of sh] k by (simp add: card_insert_if)
  have "dom ((shard_live sh)(k := None)) = dom (shard_live sh) - {k}" by auto
  then show "card (dom ((shard_live sh)(k := None))) = card (dom (shard_live sh)) - (if shard_live sh k = None then 0 else 1)"
    using k by (simp add: card_Diff_singleton_if)
qed

text \<open>What the snapshot is given when the entry of a key is about to change.\<close>

definition captured_at :: "hasher \<Rightarrow> 'v custom_map \<Rightarrow> bytes \<Rightarrow> (bytes \<times> 'v) list" where
  "captured_at H m k = (case cm_live H m k of None \<Rightarrow> [] | Some e \<Rightarrow> captured (cm_snap m) e)"

text \<open>A change of one key as the map sees it: the new entry carries the mark of an active snapshot.\<close>

definition map_changes :: "hasher \<Rightarrow> bytes \<Rightarrow> 'v option \<Rightarrow> 'v custom_map \<Rightarrow> 'v custom_map \<Rightarrow> bool" where
  "map_changes H k v m m' \<longleftrightarrow> map_inv H m' \<and> same_frame m m'
     \<and> (\<exists>x. cm_live H m' = (cm_live H m)(k := x) \<and> x \<bind> e_value = v \<and> (x = None \<longleftrightarrow> v = None)
          \<and> (\<forall>e. x = Some e \<longrightarrow> sn_active (cm_snap m) \<longrightarrow> bit (e_state e) 31 = bit (sn_parity (cm_snap m)) 31))
     \<and> sn_out (cm_snap m') = sn_out (cm_snap m) @ captured_at H m k"

definition unchanged :: "hasher \<Rightarrow> 'v custom_map \<Rightarrow> 'v custom_map \<Rightarrow> bool" where
  "unchanged H m m' \<longleftrightarrow> map_inv H m' \<and> same_frame m m' \<and> cm_live H m' = cm_live H m \<and> cm_snap m' = cm_snap m"

lemma changes_map: "map_changes H k v m m' \<Longrightarrow> cm_map H m' = (cm_map H m)(k := v)"
  by (auto simp: map_changes_def cm_map_def fun_eq_iff)

lemma unchanged_map: "unchanged H m m' \<Longrightarrow> cm_map H m' = cm_map H m"
  by (simp add: unchanged_def cm_map_def fun_eq_iff)

lemma touched_simps [simp]:
  "cm_shards (touched k m) = cm_shards m" "same_frame m' (touched k m) = same_frame m' m"
  "cm_snap (touched k m) = cm_snap m"
  by (simp_all add: touched_def notify_def same_frame_def)

lemma touched_laws [simp]:
  "map_inv H (touched k m) = map_inv H m" "cm_live H (touched k m) = cm_live H m" "cm_map H (touched k m) = cm_map H m"
  by (simp_all add: touched_def notify_def map_inv_def cm_map_def cm_live_def fun_eq_iff shard_of_def shard_ok_def)

lemma changes_touched [simp]: "map_changes H k v m (touched k' m') = map_changes H k v m m'"
  by (simp add: map_changes_def)

section \<open>The operations on one key\<close>

lemma shard_at_inv:
  assumes "map_inv H m"
  shows "shard_inv H (cm_shards m ! shard_of m h)"
    "sh_live (cm_shards m ! shard_of m h) = of_nat (card (dom (shard_live (cm_shards m ! shard_of m h))))"
  using shard_at(2) [OF assms, of h] unfolding shard_ok_def by blast+

lemma cm_live_Some: "map_inv H m \<Longrightarrow> cm_live H m k = Some e \<Longrightarrow> e_key e = k \<and> (\<exists>v. e_value e = Some v)"
proof -
  assume "map_inv H m" "cm_live H m k = Some e"
  then have "shard_inv H (cm_shards m ! shard_of m (H k))" "shard_live (cm_shards m ! shard_of m (H k)) k = Some e"
    using shard_at_inv(1) unfolding cm_live_def by blast+
  then show ?thesis by (rule shard_live_holds) simp
qed

lemma cm_map_None: "map_inv H m \<Longrightarrow> cm_map H m k = None \<longleftrightarrow> cm_live H m k = None"
  using cm_live_Some [of H m k] by (cases "cm_live H m k") (auto simp: cm_map_def)

lemma shard_live_simps [simp]:
  "shard_inv H (sh\<lparr>sh_live := n\<rparr>) = shard_inv H sh" "shard_live (sh\<lparr>sh_live := n\<rparr>) = shard_live sh"
  by (simp_all add: shard_inv_def shard_live_def fun_eq_iff)

lemma put_shard_simps [simp]:
  "cm_shards (put_shard i sh m) = (cm_shards m)[i := sh]" "cm_snap (put_shard i sh m) = cm_snap m"
  "same_frame m' (put_shard i sh m) = same_frame m' m" "shard_of (put_shard i sh m) = shard_of m"
  "put_shard i sh (m\<lparr>cm_snap := sn\<rparr>) = (put_shard i sh m)\<lparr>cm_snap := sn\<rparr>" "put_shard i sh (put_shard i sh' m) = put_shard i sh m"
  by (cases m; simp add: put_shard_def same_frame_def shard_of_def fun_eq_iff)+

lemma same_frame_put [simp]:
  "same_frame m ((put_shard i sh m)\<lparr>cm_snap := (cm_snap m)\<lparr>sn_out := out\<rparr>\<rparr>)"
  "same_frame m ((put_shard i sh m)\<lparr>cm_snap := cm_snap m\<rparr>)"
  by (simp_all add: same_frame_def put_shard_def)

lemma step_from_put:
  assumes i: "i < length (cm_shards m)" and s: "cm_shards m' = (cm_shards m)[i := sh']"
    and d: "dom (sh_heap sh') \<subseteq> set_option a \<union> dom (sh_heap (cm_shards m ! i))" and l: "sh_len sh' \<le> sh_len (cm_shards m ! i) + 1"
  shows "step_from a m m'"
  unfolding step_from_def
proof (intro conjI allI impI)
  have mem: "cm_shards m ! i \<in> set (cm_shards m)" using i by simp
  have set: "set (cm_shards m') \<subseteq> insert sh' (set (cm_shards m))" unfolding s by (rule set_update_subset_insert)
  show "free_addr b m'" if "free_addr b m \<and> a \<noteq> Some b" for b
  proof -
    have "sh_heap sh' b = None" using that d mem by (auto simp: free_addr_def)
    then show ?thesis using that set by (auto simp: free_addr_def)
  qed
  show "roomy n m'" if r: "roomy (Suc n) m" for n
  proof -
    have "sh_len sh' + n < 2 ^ 30" using r mem l unfolding roomy_def by fastforce
    moreover have "sh_len sh + n < 2 ^ 30" if "sh \<in> set (cm_shards m)" for sh using r that unfolding roomy_def by fastforce
    ultimately show ?thesis using set by (auto simp: roomy_def)
  qed
qed

lemma step_from_touched [simp]: "step_from a m (touched k m') = step_from a m m'"
  by (simp add: step_from_def free_addr_def roomy_def)

lemma shard_write_law:
  assumes inv: "map_inv H m" and r: "roomy 1 m" and a: "free_addr a m"
  obtains m' where "shard_write (set_loop a k (H k) v ow) (shard_of m (H k)) k m = Some (cm_map H m k = None, m')"
    "if ow \<or> cm_map H m k = None then map_changes H k (Some v) m m' else unchanged H m m'" "step_from (Some a) m m'"
proof -
  let ?i = "shard_of m (H k)"
  let ?sh = "cm_shards m ! ?i"
  note at = shard_at [OF inv, of "H k"]
  have mem: "?sh \<in> set (cm_shards m)" using shard_of_lt [OF inv] by simp
  note si = shard_at_inv(1) [OF inv, of "H k"] and cnt = shard_at_inv(2) [OF inv, of "H k"]
  have l: "sh_len ?sh < 2 ^ 30 - 1" using r mem by (fastforce simp: roomy_def)
  have pa: "ptr_ok a" "sh_heap ?sh a = None" using a mem by (auto simp: free_addr_def)
  have s: "snap_ok (cm_snap m)" using inv by (simp add: map_inv_def)
  obtain sn' sh' where w: "set_loop a k (H k) v ow (cm_snap m) ?sh = Some (shard_live ?sh k = None, sn', sh')"
    "shard_inv H sh'" "set_result k v ow (cm_snap m) ?sh sn' sh'" "sh_live sh' = sh_live ?sh"
    "dom (sh_heap sh') \<subseteq> insert a (dom (sh_heap ?sh))" "sh_len sh' \<le> sh_len ?sh + 1"
    by (rule set_law [OF si l pa s])
  have live: "cm_live H m k = shard_live ?sh k" by (simp add: cm_live_def)
  let ?new = "shard_live ?sh k = None"
  let ?sh' = "if ?new then sh'\<lparr>sh_live := sh_live sh' + 1\<rparr> else sh'"
  let ?m = "touched k ((put_shard ?i ?sh' m)\<lparr>cm_snap := sn'\<rparr>)"
  have eq: "shard_write (set_loop a k (H k) v ow) ?i k m = Some (?new, ?m)"
    using shard_of_lt [OF inv, of "H k"]
    by (simp add: shard_write_def at(1) w(1) Let_def bump_def vget_def)
  have st: "step_from (Some a) m ?m"
    by (rule step_from_put [OF shard_of_lt [OF inv], where sh' = ?sh']) (use w(5,6) in auto)
  have si': "shard_inv H ?sh'" using w(2) by simp
  have lv: "shard_live ?sh' = shard_live sh'" by simp
  show thesis
  proof (rule that [of ?m])
    show "shard_write (set_loop a k (H k) v ow) ?i k m = Some (cm_map H m k = None, ?m)"
      using eq by (simp add: cm_map_None [OF inv] live)
    show "step_from (Some a) m ?m" by (rule st)
    show "if ow \<or> cm_map H m k = None then map_changes H k (Some v) m ?m else unchanged H m ?m"
    proof (cases "ow \<or> ?new")
      case True
      then obtain e' where e': "shard_live sh' = (shard_live ?sh)(k \<mapsto> e')" "e_key e' = k" "e_value e' = Some v"
          "sn_active (cm_snap m) \<longrightarrow> bit (e_state e') 31 = bit (sn_parity (cm_snap m)) 31"
          "sn' = (cm_snap m)\<lparr>sn_out := sn_out (cm_snap m) @ (case shard_live ?sh k of None \<Rightarrow> [] | Some e \<Rightarrow> captured (cm_snap m) e)\<rparr>"
        using w(3) unfolding set_result_def by auto
      have fr: "same_frame m ?m" unfolding e'(5) by simp
      have cnt': "sh_live ?sh' = of_nat (card (dom (shard_live ?sh')))"
        unfolding lv e'(1) card_live_upd using cnt w(4) by simp
      note ch = change_shard [OF inv fr _ si' _ cnt', where x = "Some e'", unfolded lv, OF _ e'(1)]
      have "map_changes H k (Some v) m ?m"
        unfolding map_changes_def using ch e' fr by (auto simp: captured_at_def live)
      moreover have "ow \<or> cm_map H m k = None" using True by (simp add: cm_map_None [OF inv] live)
      ultimately show ?thesis by (simp only: if_True)
    next
      case False
      then have u: "shard_live sh' = shard_live ?sh" "sn' = cm_snap m" using w(3) unfolding set_result_def by auto
      have fr: "same_frame m ?m" unfolding u(2) by simp
      have u': "shard_live ?sh' = (shard_live ?sh)(k := shard_live ?sh k)" using u(1) by simp
      have cnt': "sh_live ?sh' = of_nat (card (dom (shard_live ?sh')))" using False cnt w(4) u(1) by simp
      note ch = change_shard [OF inv fr _ si' u' cnt']
      have "unchanged H m ?m" unfolding unchanged_def using ch fr by (auto simp: live fun_upd_idem u(2))
      moreover have "\<not> (ow \<or> cm_map H m k = None)" using False by (simp add: cm_map_None [OF inv] live)
      ultimately show ?thesis by (simp only: if_False)
    qed
  qed
qed

text \<open>The live entry of a key, where it is and how its lock changes it.\<close>

lemma live_cases:
  assumes inv: "map_inv H m" and l: "cm_live H m k = Some e"
  obtains i p v st where "find_fast k (H k) (cm_shards m ! shard_of m (H k)) = Some (Some p)"
    "holds H (sh_heap (cm_shards m ! shard_of m (H k))) (sh_table (cm_shards m ! shard_of m (H k))) i p e"
    "sh_heap (cm_shards m ! shard_of m (H k)) p = Some e" "entry_ok H e" "e_key e = k" "e_value e = Some v" "cm_map H m k = Some v"
    "state_lock (e_state e) = Some st" "\<And>n. n \<noteq> 0 \<Longrightarrow> bit st n = bit (e_state e) n" "state_unlock st = e_state e" "state_occupied st"
proof -
  let ?sh = "cm_shards m ! shard_of m (H k)"
  have l': "shard_live ?sh k = Some e" using l by (simp add: cm_live_def)
  obtain i p where f: "find_fast k (H k) ?sh = Some (Some p)" "holds H (sh_heap ?sh) (sh_table ?sh) i p e"
    using find_law(3) [OF shard_at_inv(1) [OF inv] l'] by blast
  have e: "sh_heap ?sh p = Some e" "entry_ok H e" using f(2) by (auto simp: holds_def)
  obtain v where v: "e_key e = k" "e_value e = Some v" using cm_live_Some [OF inv l] by blast
  obtain st where st: "state_lock (e_state e) = Some st" "\<And>n. n \<noteq> 0 \<Longrightarrow> bit st n = bit (e_state e) n" "state_unlock st = e_state e"
      "state_occupied st \<longleftrightarrow> e_value e \<noteq> None"
    by (rule locked_entry [OF e(2)]) blast
  show thesis by (rule that [OF f e v]) (use l v st in \<open>simp_all add: cm_map_def\<close>)
qed

lemma dead_find:
  assumes inv: "map_inv H m" and l: "cm_live H m k = None"
  shows "find_fast k (H k) (cm_shards m ! shard_of m (H k)) = Some None" "cm_map H m k = None"
  using l find_law(1) [OF shard_at_inv(1) [OF inv, of "H k"], of k] by (simp_all add: cm_live_def cm_map_def)

lemma found_live_law:
  assumes inv: "map_inv H m"
  shows "\<exists>r. find_fast k (H k) (cm_shards m ! shard_of m (H k)) = Some r \<and>
    found_live (cm_shards m ! shard_of m (H k)) r = Some (cm_live H m k)"
proof (cases "cm_live H m k")
  case None
  then show ?thesis using dead_find [OF inv None] by (simp add: found_live_def)
next
  case (Some e)
  show ?thesis
    by (rule live_cases [OF inv Some])
      (simp add: found_live_def Some state_occupied_bit entry_ok_def)
qed

text \<open>Every lookup returns what the map holds.\<close>

lemma lookups:
  assumes inv: "map_inv H m"
  shows "cm_get H k m = Some (cm_map H m k)" "cm_get_pinned H k m = Some (cm_map H m k)"
    "contains_key H k m = Some (cm_map H m k \<noteq> None)" "key_exists H k m = Some (cm_map H m k \<noteq> None)"
    "get_ref H k m = Some (cm_map H m k)" "get_ref_pinned H k m = Some (cm_map H m k)"
    "with_entry_pinned k (H k) (shard_of m (H k)) f m = Some (map_option f (cm_map H m k))"
    "read_consistent H k f m = Some (map_option f (cm_map H m k))"
proof -
  let ?sh = "cm_shards m ! shard_of m (H k)"
  note at = shard_at(1) [OF inv, of "H k"] and si = shard_at_inv(1) [OF inv, of "H k"]
  have get: "get_pinned_fast k (H k) ?sh = Some (cm_map H m k)"
  proof (cases "shard_live ?sh k")
    case None
    then show ?thesis using find_law(2) [OF si None] by (simp add: cm_map_def cm_live_def)
  next
    case (Some e)
    then show ?thesis using find_law(4) [OF si Some] by (simp add: cm_map_def cm_live_def)
  qed
  then show "cm_get H k m = Some (cm_map H m k)" "cm_get_pinned H k m = Some (cm_map H m k)"
    by (simp_all add: cm_get_def cm_get_pinned_def locate_shard at)
  obtain r where r: "find_fast k (H k) ?sh = Some r" "found_live ?sh r = Some (cm_live H m k)"
    using found_live_law [OF inv] by blast
  then show "contains_key H k m = Some (cm_map H m k \<noteq> None)" "key_exists H k m = Some (cm_map H m k \<noteq> None)"
    by (simp_all add: contains_key_def key_exists_def shard_find_def locate_shard at cm_map_None [OF inv])
  have "(case cm_live H m k of None \<Rightarrow> Some None | Some e \<Rightarrow> map_option Some (e_value e)) = Some (cm_map H m k)"
    using cm_live_Some [OF inv, of k] by (auto simp: cm_map_def split: option.split)
  then show "get_ref H k m = Some (cm_map H m k)" "get_ref_pinned H k m = Some (cm_map H m k)"
    using r by (simp_all add: get_ref_def get_ref_pinned_def locate_shard at)
  show "with_entry_pinned k (H k) (shard_of m (H k)) f m = Some (map_option f (cm_map H m k))"
  proof (cases "cm_live H m k")
    case None
    then show ?thesis using dead_find [OF inv None] by (simp add: with_entry_pinned_def at)
  next
    case (Some e)
    show ?thesis by (rule live_cases [OF inv Some]) (simp add: with_entry_pinned_def at entry_value_def)
  qed
  show "read_consistent H k f m = Some (map_option f (cm_map H m k))"
  proof (cases "cm_live H m k")
    case None
    then show ?thesis using dead_find [OF inv None] by (simp add: read_consistent_def shard_find_def locate_shard at)
  next
    case (Some e)
    show ?thesis
    proof (rule live_cases [OF inv Some])
      fix p v assume e: "find_fast k (H k) ?sh = Some (Some p)" "sh_heap ?sh p = Some e" "entry_ok H e" "e_value e = Some v"
        "cm_map H m k = Some v"
      have "state_seq (e_state e) AND 1 = 0" using e(3) by (simp add: entry_ok_def seq_even)
      then show ?thesis using e
        by (simp add: read_consistent_def shard_find_def locate_shard at state_occupied_bit entry_ok_def)
    qed
  qed
qed

lemma entry_write_law:
  assumes inv: "map_inv H m" and l: "cm_live H m k = Some e"
    and h: "holds H (sh_heap (cm_shards m ! shard_of m (H k))) (sh_table (cm_shards m ! shard_of m (H k))) i p e"
    and st: "\<And>n. n \<noteq> 0 \<Longrightarrow> bit st n = bit (e_state e) n" and occ: "occ \<longleftrightarrow> val \<noteq> None"
  obtains e' sh' where "entry_write val occ (shard_of m (H k)) p (e\<lparr>e_state := st\<rparr>) m =
      Some ((put_shard (shard_of m (H k)) sh' m)\<lparr>cm_snap := (cm_snap m)\<lparr>sn_out := sn_out (cm_snap m) @ captured_at H m k\<rparr>\<rparr>)"
    "shard_inv H sh'" "shard_live sh' = (shard_live (cm_shards m ! shard_of m (H k)))(k := live_entry (Some e'))"
    "written (cm_snap m) e val e'" "sh_live sh' = sh_live (cm_shards m ! shard_of m (H k))"
    "dom (sh_heap sh') = dom (sh_heap (cm_shards m ! shard_of m (H k)))" "sh_len sh' = sh_len (cm_shards m ! shard_of m (H k))"
    "sh_table sh' = sh_table (cm_shards m ! shard_of m (H k))" "sh_heap sh' = (sh_heap (cm_shards m ! shard_of m (H k)))(p \<mapsto> e')"
proof -
  let ?sh = "cm_shards m ! shard_of m (H k)"
  note at = shard_at(1) [OF inv, of "H k"] and si = shard_at_inv(1) [OF inv, of "H k"]
  have s: "snap_ok (cm_snap m)" using inv by (simp add: map_inv_def)
  have e: "entry_ok H e" "sh_heap ?sh p = Some e" using h by (auto simp: holds_def)
  have k: "e_key e = k" using cm_live_Some [OF inv l] by blast
  obtain e' where w: "write_entry val occ (e\<lparr>e_state := st\<rparr>) (cm_snap m) =
      Some (e', (cm_snap m)\<lparr>sn_out := sn_out (cm_snap m) @ captured (cm_snap m) e\<rparr>)" "entry_ok H e'" "written (cm_snap m) e val e'"
    by (rule write_entry_law [OF s e(1) st occ])
  have k': "e_key e' = k" using w(3) k by (simp add: written_def)
  have eq: "(put_entry p e' ?sh)\<lparr>sh_len := sh_len ?sh\<rparr> = put_entry p e' ?sh" by (simp add: put_entry_def)
  note up = hit_law [OF si h k k' w(2) le_refl, unfolded eq]
  show thesis
  proof (rule that [of "put_entry p e' ?sh" e'])
    show "entry_write val occ (shard_of m (H k)) p (e\<lparr>e_state := st\<rparr>) m =
      Some ((put_shard (shard_of m (H k)) (put_entry p e' ?sh) m)\<lparr>cm_snap := (cm_snap m)\<lparr>sn_out := sn_out (cm_snap m) @ captured_at H m k\<rparr>\<rparr>)"
      by (simp add: entry_write_def at w(1) captured_at_def l)
    show "dom (sh_heap (put_entry p e' ?sh)) = dom (sh_heap ?sh)" using e(2) by (auto simp: put_entry_def)
  qed (use up w(3) in \<open>simp_all add: put_entry_def\<close>)
qed

lemma release_law:
  assumes inv: "map_inv H m" and e: "sh_heap (cm_shards m ! shard_of m (H k)) p = Some e" "state_unlock st = e_state e"
  shows "entry_release (shard_of m (H k)) p (e\<lparr>e_state := st\<rparr>) m = Some m"
proof -
  let ?sh = "cm_shards m ! shard_of m (H k)"
  have "put_entry p e ?sh = ?sh" using e(1) by (simp add: put_entry_def fun_upd_idem)
  then show ?thesis using e(2) shard_at(1) [OF inv, of "H k"] shard_of_lt [OF inv, of "H k"]
    by (simp add: entry_release_def put_shard_def)
qed

lemma step_from_same:
  assumes "cm_shards m' = (cm_shards m)[i := sh']" "i < length (cm_shards m)"
    "dom (sh_heap sh') = dom (sh_heap (cm_shards m ! i))" "sh_len sh' = sh_len (cm_shards m ! i)"
  shows "step_from None m m'"
  by (rule step_from_put [OF assms(2,1)]) (use assms in simp_all)

lemma step_from_refl [simp]: "step_from a m m"
  by (auto simp: step_from_def roomy_def)

lemma written_live: "written sn e (Some v) e' \<Longrightarrow> live_entry (Some e') = Some e'" "written sn e None e' \<Longrightarrow> live_entry (Some e') = None"
  by (simp_all add: written_def live_entry_def)

lemma update_entry_law:
  assumes inv: "map_inv H m"
  obtains m' where "update_entry k (H k, shard_of m (H k)) f m =
      Some (case cm_map H m k of None \<Rightarrow> None | Some v \<Rightarrow> map_option snd (f v), m')"
    "case cm_map H m k \<bind> f of None \<Rightarrow> m' = m | Some (w, _) \<Rightarrow> map_changes H k (Some w) m m'" "step_from None m m'"
proof (cases "cm_live H m k")
  case None
  then show thesis using dead_find [OF inv None] shard_at(1) [OF inv, of "H k"]
    by (intro that [of m]) (simp_all add: update_entry_def lock_found_def shard_find_def)
next
  case (Some e)
  let ?i = "shard_of m (H k)"
  let ?sh = "cm_shards m ! ?i"
  obtain i p v st where e: "find_fast k (H k) ?sh = Some (Some p)" "holds H (sh_heap ?sh) (sh_table ?sh) i p e"
      "sh_heap ?sh p = Some e" "entry_ok H e" "e_key e = k" "e_value e = Some v" "cm_map H m k = Some v"
      "state_lock (e_state e) = Some st" "\<And>n. n \<noteq> 0 \<Longrightarrow> bit st n = bit (e_state e) n" "state_unlock st = e_state e" "state_occupied st"
    by (rule live_cases [OF inv Some]) blast
  have lf: "lock_found k (H k, ?i) m = Some (Some (?i, p, e\<lparr>e_state := st\<rparr>))"
    using e shard_at(1) [OF inv, of "H k"] by (simp add: lock_found_def shard_find_def)
  show thesis
  proof (cases "f v")
    case None
    then show thesis using release_law [OF inv e(3,10)] lf e
      by (intro that [of m]) (simp_all add: update_entry_def)
  next
    case f: (Some wx)
    then obtain w x where wx: "f v = Some (w, x)" by (cases wx) auto
    have occ: "True \<longleftrightarrow> Some w \<noteq> None" by simp
    obtain e' sh' where u: "entry_write (Some w) True ?i p (e\<lparr>e_state := st\<rparr>) m =
        Some ((put_shard ?i sh' m)\<lparr>cm_snap := (cm_snap m)\<lparr>sn_out := sn_out (cm_snap m) @ captured_at H m k\<rparr>\<rparr>)"
        "shard_inv H sh'" "shard_live sh' = (shard_live ?sh)(k := live_entry (Some e'))"
        "written (cm_snap m) e (Some w) e'" "sh_live sh' = sh_live ?sh" "dom (sh_heap sh') = dom (sh_heap ?sh)" "sh_len sh' = sh_len ?sh"
      by (rule entry_write_law [OF inv Some e(2,9) occ]) blast
    let ?m = "(put_shard ?i sh' m)\<lparr>cm_snap := (cm_snap m)\<lparr>sn_out := sn_out (cm_snap m) @ captured_at H m k\<rparr>\<rparr>"
    note lv = u(3)[unfolded written_live(1) [OF u(4)]]
    have fr: "same_frame m ?m" by simp
    have cnt: "sh_live sh' = of_nat (card (dom (shard_live sh')))"
      unfolding lv card_live_upd using shard_at_inv(2) [OF inv, of "H k"] u(5) Some by (simp add: cm_live_def)
    note ch = change_shard [OF inv fr _ u(2) lv cnt]
    have c: "map_changes H k (Some w) m ?m"
      unfolding map_changes_def using ch u(4) fr by (auto simp: written_def)
    have s: "step_from None m ?m" by (rule step_from_same [OF _ shard_of_lt [OF inv] u(6,7)]) simp
    show thesis
      by (rule that [of "touched k ?m"]) (use c s lf e wx u(1) in \<open>simp_all add: update_entry_def\<close>)
  qed
qed

lemma drop_law:
  assumes inv: "map_inv H m" and l: "cm_live H m k = Some e"
    and h: "holds H (sh_heap (cm_shards m ! shard_of m (H k))) (sh_table (cm_shards m ! shard_of m (H k))) i p e"
    and st: "\<And>n. n \<noteq> 0 \<Longrightarrow> bit st n = bit (e_state e) n"
  obtains m1 m2 where "entry_write None False (shard_of m (H k)) p (e\<lparr>e_state := st\<rparr>) m = Some m1"
    "bump (shard_of m (H k)) False m1 = Some m2" "map_changes H k None m m2" "step_from None m m2" "same_slots (shard_of m (H k)) m m2"
    "\<And>q. q \<noteq> p \<Longrightarrow> sh_heap (cm_shards m2 ! shard_of m (H k)) q = sh_heap (cm_shards m ! shard_of m (H k)) q"
proof -
  let ?i = "shard_of m (H k)"
  let ?sh = "cm_shards m ! ?i"
  note i = shard_of_lt [OF inv, of "H k"]
  have occ: "False \<longleftrightarrow> None \<noteq> (None :: 'a option)" by simp
  obtain e' sh' where u: "entry_write None False ?i p (e\<lparr>e_state := st\<rparr>) m =
      Some ((put_shard ?i sh' m)\<lparr>cm_snap := (cm_snap m)\<lparr>sn_out := sn_out (cm_snap m) @ captured_at H m k\<rparr>\<rparr>)"
      "shard_inv H sh'" "shard_live sh' = (shard_live ?sh)(k := live_entry (Some e'))"
      "written (cm_snap m) e None e'" "sh_live sh' = sh_live ?sh" "dom (sh_heap sh') = dom (sh_heap ?sh)" "sh_len sh' = sh_len ?sh"
      "sh_table sh' = sh_table ?sh" "sh_heap sh' = (sh_heap ?sh)(p \<mapsto> e')"
    by (rule entry_write_law [OF inv l h st occ]) blast
  let ?sh' = "sh'\<lparr>sh_live := sh_live sh' - 1\<rparr>"
  let ?m = "(put_shard ?i ?sh' m)\<lparr>cm_snap := (cm_snap m)\<lparr>sn_out := sn_out (cm_snap m) @ captured_at H m k\<rparr>\<rparr>"
  have lv: "shard_live ?sh' = (shard_live ?sh)(k := None)" using u(3) written_live(2) [OF u(4)] by simp
  have fr: "same_frame m ?m" by simp
  have si: "shard_inv H ?sh'" using u(2) by simp
  have "0 < card (dom (shard_live ?sh))" using l finite_live [of ?sh] by (auto simp: card_gt_0_iff cm_live_def)
  then have cnt: "sh_live ?sh' = of_nat (card (dom (shard_live ?sh')))"
    unfolding lv card_live_upd using shard_at_inv(2) [OF inv, of "H k"] u(5) l by (simp add: cm_live_def of_nat_diff)
  note ch = change_shard [OF inv fr _ si lv cnt]
  have c: "map_changes H k None m ?m" unfolding map_changes_def using ch fr by auto
  have s: "step_from None m ?m" by (rule step_from_same [OF _ i, of _ ?sh']) (use u(6,7) in simp_all)
  have "e_key e' = e_key e" "sh_heap ?sh p = Some e" using u(4) h by (auto simp: written_def holds_def)
  then have ss: "same_slots ?i m ?m" using i by (simp add: same_slots_def u(8,9))
  show thesis by (rule that [OF u(1) _ c s ss]) (use i in \<open>simp_all add: bump_def vget_def u(9)\<close>)
qed

lemma remove_entry_law:
  assumes inv: "map_inv H m"
  obtains m' where "remove_entry H k m = Some (cm_map H m k, m')"
    "if cm_map H m k = None then m' = m else map_changes H k None m m'" "step_from None m m'"
proof (cases "cm_live H m k")
  case None
  then show thesis using dead_find [OF inv None] shard_at(1) [OF inv, of "H k"]
    by (intro that [of m]) (simp_all add: remove_entry_def locate_shard shard_find_def)
next
  case (Some e)
  let ?i = "shard_of m (H k)"
  let ?sh = "cm_shards m ! ?i"
  obtain i p v st where e: "find_fast k (H k) ?sh = Some (Some p)" "holds H (sh_heap ?sh) (sh_table ?sh) i p e"
      "sh_heap ?sh p = Some e" "entry_ok H e" "e_key e = k" "e_value e = Some v" "cm_map H m k = Some v"
      "state_lock (e_state e) = Some st" "\<And>n. n \<noteq> 0 \<Longrightarrow> bit st n = bit (e_state e) n" "state_unlock st = e_state e" "state_occupied st"
    by (rule live_cases [OF inv Some]) blast
  obtain m1 m2 where d: "entry_write None False ?i p (e\<lparr>e_state := st\<rparr>) m = Some m1" "bump ?i False m1 = Some m2"
      "map_changes H k None m m2" "step_from None m m2"
    by (rule drop_law [OF inv Some e(2,9)]) blast
  have "state_occupied (e_state e)" using e(4,6) by (simp add: entry_ok_def state_occupied_bit)
  then have r: "remove_entry H k m = Some (Some v, touched k m2)"
    using e d(1,2) shard_at(1) [OF inv, of "H k"] by (simp add: remove_entry_def locate_shard shard_find_def)
  show thesis by (rule that [of "touched k m2"]) (use d(3,4) r e(7) in simp_all)
qed

end
