(* ===== verification/MapRefine.thy ===== *)
theory MapRefine
  imports CustomMapInv
begin

text \<open>
  The concurrent map refines a finite map: any sequence of its operations answers, and changes what the map stands for, as the same
  sequence on a map from keys to values.
\<close>

section \<open>Sequences of operations\<close>

text \<open>The operations, with the addresses the allocator gave to those that may insert, and their replies.\<close>

datatype 'v map_op =
    Lookup bytes
  | Put "64 word" bytes 'v
  | PutNew "64 word" bytes 'v
  | Delete bytes
  | Alter bytes "'v \<Rightarrow> 'v"

datatype 'v reply = RValue "'v option" | RNew bool

fun cm_exec :: "hasher \<Rightarrow> 'v map_op \<Rightarrow> 'v custom_map \<Rightarrow> ('v reply \<times> 'v custom_map) option" where
  "cm_exec H (Lookup k) m = map_option (\<lambda>r. (RValue r, m)) (cm_get H k m)"
| "cm_exec H (Put a k v) m = map_option (\<lambda>(b, m1). (RNew b, m1)) (cm_set H a k v m)"
| "cm_exec H (PutNew a k v) m = map_option (\<lambda>(b, m1). (RNew b, m1)) (insert_if_absent H a k v m)"
| "cm_exec H (Delete k) m = map_option (\<lambda>(r, m1). (RValue r, m1)) (map_remove H k m)"
| "cm_exec H (Alter k f) m = map_option (\<lambda>(r, m1). (RValue r, m1)) (update_with H k (\<lambda>v. (f v, v)) m)"

fun map_exec :: "'v map_op \<Rightarrow> (bytes \<rightharpoonup> 'v) \<Rightarrow> 'v reply \<times> (bytes \<rightharpoonup> 'v)" where
  "map_exec (Lookup k) M = (RValue (M k), M)"
| "map_exec (Put a k v) M = (RNew (M k = None), M(k \<mapsto> v))"
| "map_exec (PutNew a k v) M = (RNew (M k = None), if M k = None then M(k \<mapsto> v) else M)"
| "map_exec (Delete k) M = (RValue (M k), M(k := None))"
| "map_exec (Alter k f) M = (RValue (M k), M(k := map_option f (M k)))"

fun op_addr :: "'v map_op \<Rightarrow> 64 word option" where
  "op_addr (Put a k v) = Some a"
| "op_addr (PutNew a k v) = Some a"
| "op_addr _ = None"

fun cm_run :: "hasher \<Rightarrow> 'v map_op list \<Rightarrow> 'v custom_map \<Rightarrow> ('v reply list \<times> 'v custom_map) option" where
  "cm_run H [] m = Some ([], m)"
| "cm_run H (p # ps) m = do { (r, m1) \<leftarrow> cm_exec H p m; (rs, m2) \<leftarrow> cm_run H ps m1; Some (r # rs, m2) }"

fun map_run :: "'v map_op list \<Rightarrow> (bytes \<rightharpoonup> 'v) \<Rightarrow> 'v reply list \<times> (bytes \<rightharpoonup> 'v)" where
  "map_run [] M = ([], M)"
| "map_run (p # ps) M = (let (r, M1) = map_exec p M; (rs, M2) = map_run ps M1 in (r # rs, M2))"

text \<open>The addresses are free and different, and no shard outgrows the bound of the invariant.\<close>

definition fits :: "'v map_op list \<Rightarrow> 'v custom_map \<Rightarrow> bool" where
  "fits ps m \<longleftrightarrow> roomy (length ps) m \<and> distinct (List.map_filter op_addr ps)
     \<and> list_all (\<lambda>a. free_addr a m) (List.map_filter op_addr ps)"

section \<open>A map to start from\<close>

lemma shard_live_new: "max (next_power_of_two c) 8 \<le> 2 ^ 32 \<Longrightarrow> shard_live (shard_new c) = Map.empty"
  by (rule ext) (simp add: shard_live_def live_entry_def shard_new_def table_new_law(3))

lemma build_inv:
  assumes "max (next_power_of_two c) 8 \<le> 2 ^ 32"
  shows "map_inv H (build (2 ^ k) c mx :: 'v custom_map)" "cm_live H (build (2 ^ k) c mx :: 'v custom_map) = Map.empty"
    "cm_map H (build (2 ^ k) c mx :: 'v custom_map) = Map.empty"
proof -
  let ?m = "build (2 ^ k) c mx :: 'v custom_map"
  have "shard_inv H (shard_new c :: 'v shard)" using table_new_law [OF assms] by (simp add: shard_inv_def shard_new_def)
  then have "shard_ok H ?m i (shard_new c)" for i
    by (simp add: shard_ok_def shard_live_new [OF assms]) (simp add: shard_new_def)
  then show inv: "map_inv H ?m" by (auto simp: map_inv_def build_def snap_ok_def snap_new_def)
  have s: "cm_shards ?m = replicate (2 ^ k) (shard_new c)" by (simp add: build_def)
  have "cm_shards ?m ! shard_of ?m (H x) = shard_new c" for x
    using shard_of_lt [OF inv, of "H x"] unfolding s length_replicate by (rule nth_replicate)
  then show "cm_live H ?m = Map.empty" by (simp add: fun_eq_iff cm_live_def shard_live_new [OF assms])
  then show "cm_map H ?m = Map.empty" by (simp add: fun_eq_iff cm_map_def)
qed

lemma build_fits:
  "roomy n (build s c mx) = (s = 0 \<or> n < 2 ^ 30)" "free_addr a (build s c mx) = ptr_ok a"
  by (auto simp: roomy_def free_addr_def build_def shard_new_def)

section \<open>Refinement\<close>

text \<open>An implementation whose steps follow a specification follows it along any sequence of steps.\<close>

locale stepwise =
  fixes ready :: "'op list \<Rightarrow> 'm \<Rightarrow> bool" and abstract :: "'m \<Rightarrow> 'a"
    and exec :: "'op \<Rightarrow> 'm \<Rightarrow> ('r \<times> 'm) option" and spec :: "'op \<Rightarrow> 'a \<Rightarrow> 'r \<times> 'a"
  assumes step: "ready (p # ps) m \<Longrightarrow>
    \<exists>m'. exec p m = Some (fst (spec p (abstract m)), m') \<and> abstract m' = snd (spec p (abstract m)) \<and> ready ps m'"
begin

fun run :: "'op list \<Rightarrow> 'm \<Rightarrow> ('r list \<times> 'm) option" where
  "run [] m = Some ([], m)"
| "run (p # ps) m = do { (r, m1) \<leftarrow> exec p m; (rs, m2) \<leftarrow> run ps m1; Some (r # rs, m2) }"

fun spec_run :: "'op list \<Rightarrow> 'a \<Rightarrow> 'r list \<times> 'a" where
  "spec_run [] M = ([], M)"
| "spec_run (p # ps) M = (let (r, M1) = spec p M; (rs, M2) = spec_run ps M1 in (r # rs, M2))"

lemma run_follows:
  "ready ps m \<Longrightarrow>
     \<exists>m'. run ps m = Some (fst (spec_run ps (abstract m)), m') \<and> abstract m' = snd (spec_run ps (abstract m)) \<and> ready [] m'"
proof (induction ps arbitrary: m)
  case (Cons p ps)
  obtain m1 where m1: "exec p m = Some (fst (spec p (abstract m)), m1)" "abstract m1 = snd (spec p (abstract m))" "ready ps m1"
    using step [OF Cons.prems] by blast
  obtain m2 where "run ps m1 = Some (fst (spec_run ps (abstract m1)), m2)" "abstract m2 = snd (spec_run ps (abstract m1))" "ready [] m2"
    using Cons.IH [OF m1(3)] by blast
  then show ?case using m1 by (simp add: Let_def split_beta)
qed simp

end

lemma unchanged_refl: "map_inv H m \<Longrightarrow> unchanged H m m"
  by (simp add: unchanged_def)

text \<open>The insertions differ in what they do with a key that is there.\<close>

lemma write_ops:
  "cm_set H a k v m = shard_write (set_loop a k (H k) v True) (shard_of m (H k)) k m"
  "map_insert H a k v m = shard_write (set_loop a k (H k) v True) (shard_of m (H k)) k m"
  "insert_if_absent H a k v m = shard_write (set_loop a k (H k) v False) (shard_of m (H k)) k m"
proof -
  have "set_key a k (H k) v = set_loop a k (H k) v True" "insert_hashed_key a k v (H k) = set_loop a k (H k) v True"
    "set_compact_key a k (H k) v False = set_loop a k (H k) v False"
    by (simp_all add: fun_eq_iff set_key_def set_key_with_overwrite_def insert_hashed_key_def set_compact_key_def)
  then show "cm_set H a k v m = shard_write (set_loop a k (H k) v True) (shard_of m (H k)) k m"
    "map_insert H a k v m = shard_write (set_loop a k (H k) v True) (shard_of m (H k)) k m"
    "insert_if_absent H a k v m = shard_write (set_loop a k (H k) v False) (shard_of m (H k)) k m"
    by (simp_all add: cm_set_def set_compact_def set_located_def set_located_pinned_def map_insert_def insert_if_absent_def locate_shard)
qed

lemma exec_law:
  assumes inv: "map_inv H m" and r: "roomy 1 m" and a: "\<And>a. op_addr p = Some a \<Longrightarrow> free_addr a m"
  obtains m' where "cm_exec H p m = Some (fst (map_exec p (cm_map H m)), m')" "cm_map H m' = snd (map_exec p (cm_map H m))"
    "map_inv H m'" "step_from (op_addr p) m m'" "unchanged H m m' \<or> (\<exists>k v. map_changes H k v m m')"
proof (cases p)
  case (Lookup k)
  then show thesis using inv by (intro that [of m]) (simp_all add: lookups(1) [OF inv] unchanged_refl)
next
  case (Put a k v)
  then have fa: "free_addr a m" using assms(3) by simp
  obtain m' where w: "shard_write (set_loop a k (H k) v True) (shard_of m (H k)) k m = Some (cm_map H m k = None, m')"
      "if True \<or> cm_map H m k = None then map_changes H k (Some v) m m' else unchanged H m m'" "step_from (Some a) m m'"
    by (rule shard_write_law [OF inv r fa])
  have "cm_set H a k v m = Some (cm_map H m k = None, m')" using w(1) by (simp add: write_ops)
  moreover have "map_changes H k (Some v) m m'" using w(2) by simp
  moreover have "map_inv H m'" using calculation(2) by (simp add: map_changes_def)
  ultimately show thesis using Put w(3) changes_map [of H k "Some v" m m'] by (intro that [of m']) auto
next
  case (PutNew a k v)
  then have fa: "free_addr a m" using assms(3) by simp
  obtain m' where w: "shard_write (set_loop a k (H k) v False) (shard_of m (H k)) k m = Some (cm_map H m k = None, m')"
      "if False \<or> cm_map H m k = None then map_changes H k (Some v) m m' else unchanged H m m'" "step_from (Some a) m m'"
    by (rule shard_write_law [OF inv r fa])
  have x: "insert_if_absent H a k v m = Some (cm_map H m k = None, m')" using w(1) by (simp add: write_ops)
  have "map_inv H m' \<and> cm_map H m' = (if cm_map H m k = None then (cm_map H m)(k \<mapsto> v) else cm_map H m)"
    using w(2) changes_map [of H k "Some v" m m'] unchanged_map [of H m m']
    by (cases "cm_map H m k = None") (auto simp: map_changes_def unchanged_def)
  moreover have "unchanged H m m' \<or> (\<exists>k v. map_changes H k v m m')" using w(2) by (metis (full_types))
  ultimately show thesis using PutNew x w(3) by (intro that [of m']) simp_all
next
  case (Delete k)
  obtain m' where w: "remove_entry H k m = Some (cm_map H m k, m')"
    "if cm_map H m k = None then m' = m else map_changes H k None m m'" "step_from None m m'"
    by (rule remove_entry_law [OF inv])
  have "map_inv H m' \<and> cm_map H m' = (cm_map H m)(k := None)"
    using w(2) changes_map [of H k None m m'] inv by (cases "cm_map H m k = None") (auto simp: map_changes_def fun_upd_idem)
  moreover have "unchanged H m m' \<or> (\<exists>k v. map_changes H k v m m')" using w(2) unchanged_refl [OF inv] by (metis (full_types))
  ultimately show thesis using Delete w by (intro that [of m']) (simp_all add: map_remove_def)
next
  case (Alter k f)
  obtain m' where w: "update_entry k (H k, shard_of m (H k)) (Some \<circ> (\<lambda>v. (f v, v))) m =
      Some (case cm_map H m k of None \<Rightarrow> None | Some v \<Rightarrow> map_option snd ((Some \<circ> (\<lambda>v. (f v, v))) v), m')"
    "case cm_map H m k \<bind> (Some \<circ> (\<lambda>v. (f v, v))) of None \<Rightarrow> m' = m | Some (w, _) \<Rightarrow> map_changes H k (Some w) m m'"
    "step_from None m m'"
    by (rule update_entry_law [OF inv])
  have "map_inv H m' \<and> cm_map H m' = (cm_map H m)(k := map_option f (cm_map H m k))"
    using w(2) changes_map [of H k _ m m'] inv by (cases "cm_map H m k") (auto simp: map_changes_def fun_upd_idem)
  moreover have "update_with H k (\<lambda>v. (f v, v)) m = Some (cm_map H m k, m')"
    using w(1) by (cases "cm_map H m k") (simp_all add: update_with_def update_with_hinted_def locate_hinted_def locate_shard)
  moreover have "unchanged H m m' \<or> (\<exists>k v. map_changes H k v m m')"
    using w(2) unchanged_refl [OF inv] by (cases "cm_map H m k") auto
  ultimately show thesis using Alter w(3) by (intro that [of m']) simp_all
qed

definition cm_ready :: "hasher \<Rightarrow> 'v map_op list \<Rightarrow> 'v custom_map \<Rightarrow> bool" where
  "cm_ready H ps m \<longleftrightarrow> map_inv H m \<and> fits ps m"

lemma fits_Cons:
  "fits (p # ps) m \<Longrightarrow> roomy 1 m" "fits (p # ps) m \<Longrightarrow> op_addr p = Some a \<Longrightarrow> free_addr a m"
  "fits (p # ps) m \<Longrightarrow> step_from (op_addr p) m m' \<Longrightarrow> fits ps m'"
proof -
  assume f: "fits (p # ps) m"
  then show "roomy 1 m" by (fastforce simp: fits_def roomy_def)
  show "free_addr a m" if "op_addr p = Some a" using f that by (simp add: fits_def List.map_filter_simps)
  assume s: "step_from (op_addr p) m m'"
  show "fits ps m'"
    using f s by (cases "op_addr p") (auto simp: fits_def step_from_def List.map_filter_simps list_all_iff)
qed

interpretation cms: stepwise "cm_ready H" "cm_map H" "cm_exec H" map_exec for H
proof
  fix p ps m assume "cm_ready H (p # ps) m"
  then have f: "fits (p # ps) m" and inv: "map_inv H m" by (simp_all add: cm_ready_def)
  obtain m' where "cm_exec H p m = Some (fst (map_exec p (cm_map H m)), m')" "cm_map H m' = snd (map_exec p (cm_map H m))"
    "map_inv H m'" "step_from (op_addr p) m m'"
    by (rule exec_law [OF inv fits_Cons(1) [OF f] fits_Cons(2) [OF f]])
  then show "\<exists>m'. cm_exec H p m = Some (fst (map_exec p (cm_map H m)), m') \<and> cm_map H m' = snd (map_exec p (cm_map H m))
      \<and> cm_ready H ps m'"
    using fits_Cons(3) [OF f] by (auto simp: cm_ready_def)
qed

lemma cm_run_eq: "cms.run H ps m = cm_run H ps m"
  by (induction ps arbitrary: m) (simp_all add: split_beta split: Option.bind_split)

lemma map_run_eq: "cms.spec_run ps M = map_run ps M"
  by (induction ps arbitrary: M) (simp_all add: Let_def split_beta)

text \<open>
  C1. Any sequence of lookups, insertions, insertions of absent keys, removals and updates on the concurrent map returns, with no
  endless wait and no access outside its memory, and answers as the same sequence on a finite map, through probing, tombstones, growth and rebuilding.
\<close>

theorem map_run_refines:
  assumes "map_inv H m" and "fits ps m"
  shows "\<exists>m'. cm_run H ps m = Some (fst (map_run ps (cm_map H m)), m') \<and> map_inv H m' \<and> cm_map H m' = snd (map_run ps (cm_map H m))"
  using cms.run_follows [of H ps m] assms by (auto simp: cm_ready_def cm_run_eq map_run_eq)

text \<open>On a map of one shard of eight slots.\<close>

theorem map_run_refines_witness:
  "\<exists>m'. cm_run (\<lambda>_. 5) [Put 16 [1] (7 :: nat), Put 32 [2] 8, Delete [1], Lookup [1], PutNew 48 [1] 9, Lookup [1]] (build 1 8 10) =
      Some ([RNew True, RNew True, RValue (Some 7), RValue None, RNew True, RValue (Some 9)], m') \<and> map_inv (\<lambda>_. 5) m'"
proof -
  let ?m = "build 1 8 10 :: nat custom_map" and ?H = "\<lambda>_ :: bytes. 5 :: 64 word"
  let ?ps = "[Put 16 [1] (7 :: nat), Put 32 [2] 8, Delete [1], Lookup [1], PutNew 48 [1] 9, Lookup [1]]"
  have c: "max (next_power_of_two 8) 8 \<le> (2 :: nat) ^ 32" using next_power_of_two_pow [of 3] by simp
  have inv: "map_inv ?H ?m" "cm_map ?H ?m = Map.empty" using build_inv [OF c, of ?H 0 10] by simp_all
  have "ptr_ok 16" "ptr_ok 32" "ptr_ok 48" by code_simp+
  then have "fits ?ps ?m" by (simp add: fits_def build_fits List.map_filter_simps)
  from map_run_refines [OF inv(1) this] inv(2) show ?thesis by auto
qed

end
