(* ===== verification/Snapshot.thy ===== *)
theory Snapshot
  imports MapRefine
begin

text \<open>
  A snapshot of the concurrent map taken while it is written: the walk over the shards and the writes, which hand over
  what they are about to replace, together give the map as it was when the snapshot began.
\<close>

section \<open>The walk over one shard\<close>

text \<open>The mark of an entry, and what the walk takes from a slot.\<close>

definition mark :: "64 word \<Rightarrow> 'v entry \<Rightarrow> 'v entry" where
  "mark par e = e\<lparr>e_state := (e_state e AND NOT STATE_SNAP) OR par\<rparr>"

definition marked :: "64 word \<Rightarrow> 'v entry \<Rightarrow> bool" where
  "marked par e \<longleftrightarrow> bit (e_state e) 31 = bit par 31"

definition to_visit :: "64 word \<Rightarrow> 'v entry \<Rightarrow> (bytes \<times> 'v) option" where
  "to_visit par e = (if marked par e then None else map_option (Pair (e_key e)) (e_value e))"

definition slot_entry :: "'v entries \<Rightarrow> 64 word \<Rightarrow> 'v entry option" where
  "slot_entry heap w = (if decode w = 0 then None else heap (decode w))"

definition slot_ptrs :: "64 word list \<Rightarrow> 64 word list" where
  "slot_ptrs ws = filter (\<lambda>p. p \<noteq> 0) (map decode ws)"

definition mark_heap :: "64 word \<Rightarrow> 64 word list \<Rightarrow> 'v entries \<Rightarrow> 'v entries" where
  "mark_heap par ws heap p = (if p \<in> set (slot_ptrs ws) then map_option (mark par) (heap p) else heap p)"

definition collect :: "bytes \<Rightarrow> 'v \<Rightarrow> (bytes \<times> 'v) list \<Rightarrow> (bytes \<times> 'v) list" where
  "collect k v saved = saved @ [(k, v)]"

definition visits :: "64 word \<Rightarrow> 'v entries \<Rightarrow> 64 word list \<Rightarrow> (bytes \<times> 'v) list" where
  "visits par heap ws = List.map_filter (\<lambda>w. slot_entry heap w \<bind> to_visit par) ws"

text \<open>The steps between the beginning and the end of a snapshot: an operation on the map, or the walk over one shard.\<close>

datatype 'v snap_event = Do "'v map_op" | Walk nat

fun snap_run :: "hasher \<Rightarrow> 'v snap_event list \<Rightarrow> 'v custom_map \<Rightarrow> (bytes \<times> 'v) list \<Rightarrow> ((bytes \<times> 'v) list \<times> 'v custom_map) option" where
  "snap_run H [] m saved = Some (saved, m)"
| "snap_run H (Do p # evs) m saved = do { (_, m1) \<leftarrow> cm_exec H p m; snap_run H evs m1 saved }"
| "snap_run H (Walk i # evs) m saved = do { (saved1, m1) \<leftarrow> snapshot_shard i collect m saved; snap_run H evs m1 saved1 }"

fun event_op :: "'v snap_event \<Rightarrow> 'v map_op option" where
  "event_op (Do p) = Some p"
| "event_op (Walk i) = None"

text \<open>A key that the snapshot has still to take, and a map where the last snapshot left none.\<close>

definition pending :: "hasher \<Rightarrow> 'v custom_map \<Rightarrow> bytes \<Rightarrow> bool" where
  "pending H m k \<longleftrightarrow> (\<exists>e. cm_live H m k = Some e \<and> \<not> marked (sn_parity (cm_snap m)) e)"

definition settled :: "hasher \<Rightarrow> 'v custom_map \<Rightarrow> bool" where
  "settled H m \<longleftrightarrow> (\<forall>k. \<not> pending H m k)"

text \<open>What has been saved so far and what is pending make up the map at the beginning.\<close>

definition snap_rel :: "hasher \<Rightarrow> (bytes \<rightharpoonup> 'v) \<Rightarrow> (bytes \<times> 'v) list \<Rightarrow> 'v custom_map \<Rightarrow> bool" where
  "snap_rel H M saved m \<longleftrightarrow> map_inv H m \<and> sn_active (cm_snap m)
     \<and> distinct (map fst (saved @ sn_out (cm_snap m)))
     \<and> (\<forall>k. map_of (saved @ sn_out (cm_snap m)) k = (if pending H m k then None else M k))
     \<and> (\<forall>k. pending H m k \<longrightarrow> cm_map H m k = M k)"

lemma bit_mark:
  assumes "par = 0 \<or> par = STATE_SNAP"
  shows "bit (e_state (mark par e)) n = (if n = 31 then bit par 31 else bit (e_state e) n)"
  using assms by (auto simp: mark_def bit_or_iff bit_and_iff bit_not_iff bit_consts dest: bit_imp_le_length)

lemma mark_simps [simp]: "e_key (mark par e) = e_key e" "e_value (mark par e) = e_value e"
  by (simp_all add: mark_def)

lemma mark_id: "par = 0 \<or> par = STATE_SNAP \<Longrightarrow> marked par e \<Longrightarrow> mark par e = e"
proof -
  assume p: "par = 0 \<or> par = STATE_SNAP" and m: "marked par e"
  have "e_state (mark par e) = e_state e" unfolding word64_eq_iff using bit_mark [OF p, of e] m by (simp add: marked_def)
  then show ?thesis by (simp add: mark_def)
qed

lemma mark_ok: "par = 0 \<or> par = STATE_SNAP \<Longrightarrow> entry_ok H e \<Longrightarrow> entry_ok H (mark par e)"
proof -
  assume p: "par = 0 \<or> par = STATE_SNAP" and e: "entry_ok H e"
  have "stored_hash (e_state (mark par e)) = stored_hash (e_state e)"
    by (rule stored_hash_cong) (simp add: bit_mark [OF p])
  then show ?thesis using e by (simp add: entry_ok_def bit_mark [OF p])
qed

lemma mark_locked:
  assumes p: "par = 0 \<or> par = STATE_SNAP" and e: "\<not> bit (e_state e) 0"
  shows "state_unlock (((e_state e OR STATE_LOCK) AND NOT STATE_SNAP) OR par) = e_state (mark par e)"
proof -
  have "bit (state_unlock (((e_state e OR STATE_LOCK) AND NOT STATE_SNAP) OR par)) n = bit (e_state (mark par e)) n" for n
    using p e unfolding bit_mark [OF p]
    by (cases "n = 0") (auto simp: state_unlock_def bit_or_iff bit_and_iff bit_not_iff bit_consts dest: bit_imp_le_length)
  then show ?thesis by (simp add: word64_eq_iff)
qed

lemma slot_ptrs_Cons [simp]: "slot_ptrs (w # ws) = (if decode w = 0 then slot_ptrs ws else decode w # slot_ptrs ws)"
  by (simp add: slot_ptrs_def)

lemma visits_Cons [simp]:
  "visits par heap [] = []"
  "visits par heap (w # ws) =
     (case slot_entry heap w \<bind> to_visit par of None \<Rightarrow> visits par heap ws | Some x \<Rightarrow> x # visits par heap ws)"
  by (simp_all add: visits_def List.map_filter_simps split: option.split)

lemma visits_cong: "p \<notin> set (slot_ptrs ws) \<Longrightarrow> visits par (heap(p \<mapsto> e)) ws = visits par heap ws"
  by (induction ws) (auto simp: slot_entry_def split: if_splits option.split)

lemma snapshot_loop_law:
  assumes p: "par = 0 \<or> par = STATE_SNAP" and g: "\<And>w. w \<in> set ws \<Longrightarrow> good_word H heap w" and d: "distinct (slot_ptrs ws)"
  shows "snapshot_loop collect par ws heap s = Some (s @ visits par heap ws, mark_heap par ws heap)"
  using g d
proof (induction ws arbitrary: heap s)
  case Nil
  show ?case by (simp add: mark_heap_def slot_ptrs_def)
next
  case (Cons w ws)
  have g: "good_word H heap w" by (simp add: Cons.prems(1))
  show ?case
  proof (cases "decode w = 0")
    case True
    have "mark_heap par (w # ws) heap = mark_heap par ws heap" using True by (simp add: fun_eq_iff mark_heap_def)
    then show ?thesis using True Cons by (simp add: slot_entry_def)
  next
    case False
    let ?p = "decode w"
    obtain e where e: "heap ?p = Some e" "entry_ok H e" "ptr_ok ?p" using g False by (auto simp: good_word_def)
    have np: "?p \<notin> set (slot_ptrs ws)" using Cons.prems(2) False by simp
    let ?heap = "heap(?p \<mapsto> mark par e)"
    have mh: "mark_heap par (w # ws) heap = mark_heap par ws ?heap"
      using np False e(1) by (auto simp: fun_eq_iff mark_heap_def)
    have g': "good_word H ?heap w'" if "w' \<in> set ws" for w'
      using Cons.prems(1) [of w'] that mark_ok [OF p e(2)] e(3) by (auto simp: good_word_def)
    have ih: "snapshot_loop collect par ws ?heap s' = Some (s' @ visits par heap ws, mark_heap par (w # ws) heap)" for s'
    proof -
      have "distinct (slot_ptrs ws)" using Cons.prems(2) False by simp
      from Cons.IH [OF g' this] show ?thesis unfolding mh visits_cong [OF np] .
    qed
    have sb: "x AND STATE_SNAP = par \<longleftrightarrow> (bit x 31 \<longleftrightarrow> bit par 31)" for x by (rule snap_eq [OF p])
    show ?thesis
    proof (cases "marked par e")
      case True
      have "?heap = heap" using e(1) mark_id [OF p True] by (simp add: fun_upd_idem)
      then show ?thesis using ih [of s] e(1) True False by (simp add: slot_entry_def to_visit_def sb marked_def)
    next
      case m: False
      let ?st = "e_state e OR STATE_LOCK"
      have l: "\<not> bit (e_state e) 0" "bit (e_state e) 1 \<longleftrightarrow> e_value e \<noteq> None" using e(2) by (auto simp: entry_ok_def)
      have st: "bit ?st 31 = bit (e_state e) 31" by (simp add: bit_or_iff bit_consts)
      have oc: "?st AND STATE_OCCUPIED \<noteq> 0 \<longleftrightarrow> e_value e \<noteq> None"
        using state_occupied_bit [of ?st] l(2) by (simp add: state_occupied_def bit_or_iff bit_consts)
      have mk: "e\<lparr>e_state := state_unlock ((?st AND NOT STATE_SNAP) OR par)\<rparr> = mark par e"
        using mark_locked [OF p l(1)] by (simp add: mark_def)
      have step: "snapshot_loop collect par (w # ws) heap s =
          do { s1 \<leftarrow> (if e_value e \<noteq> None then map_option (\<lambda>v. collect (e_key e) v s) (e_value e) else Some s);
               snapshot_loop collect par ws ?heap s1 }"
        using False e(1) m by (simp add: sb marked_def state_lock_free [OF l(1)] st oc mk)
      show ?thesis
        unfolding step using ih e(1) m False by (cases "e_value e") (simp_all add: slot_entry_def to_visit_def collect_def)
    qed
  qed
qed

text \<open>Entries replaced one for one, key by key.\<close>

lemma table_map:
  assumes inv: "table_inv H heap t"
    and m: "\<And>i p e. holds H heap t i p e \<Longrightarrow> heap' p = Some (g e) \<and> e_key (g e) = e_key e \<and> entry_ok H (g e)"
  shows "table_inv H heap' t" "entry_at heap' t k = map_option g (entry_at heap t k)"
proof -
  have to: "holds H heap' t i p (g e)" if "holds H heap t i p e" for i p e
    using that m [OF that] by (simp add: holds_def)
  have from_: "\<exists>e. f = g e \<and> holds H heap t i p e" if h: "holds H heap' t i p f" for i p f
  proof -
    obtain q e where e: "holds H heap t i q e" using inv_used [OF inv holds_used [OF h]] by blast
    have "q = p" using holds_decode [OF e] holds_decode [OF h] by simp
    then have "f = g e" using m [OF e] h by (simp add: holds_def)
    then show ?thesis using e \<open>q = p\<close> by blast
  qed
  have key: "e_key (g e) = e_key e" if "holds H heap t i p e" for i p e using m [OF that] by simp
  show inv': "table_inv H heap' t"
    unfolding table_inv_def
  proof (intro conjI ballI allI impI)
    show "\<exists>p e. holds H heap' t i p e" if "i \<in> used t" for i using inv_used [OF inv that] to by blast
    show "i = j" if h: "holds H heap' t i p e \<and> holds H heap' t j q f \<and> e_key e = e_key f" for i j p q e f
    proof -
      obtain e0 f0 where "e = g e0" "holds H heap t i p e0" "f = g f0" "holds H heap t j q f0" using h from_ by blast
      then show ?thesis using h key inv_key [OF inv] by metis
    qed
    show "(home H t (e_key e) + n) mod tb_capacity t \<in> used t"
      if h: "holds H heap' t i p e" and n: "n < dist t (home H t (e_key e)) i" for i p e n
    proof -
      obtain e0 where "e = g e0" "holds H heap t i p e0" using h from_ by blast
      then show ?thesis using n key inv_chain [OF inv] by metis
    qed
  qed (rule inv_tb_ok [OF inv])
  show "entry_at heap' t k = map_option g (entry_at heap t k)"
  proof (cases "entry_at heap t k")
    case None
    have "e_key f \<noteq> k" if "holds H heap' t i p f" for i p f
      using from_ [OF that] None key unfolding entry_at_None [OF inv] by metis
    then show ?thesis using None by (simp add: entry_at_None [OF inv'])
  next
    case (Some e)
    then obtain i p where h: "holds H heap t i p e" "e_key e = k" by (auto simp: entry_at_iff [OF inv])
    then have "entry_at heap' t k = Some (g e)" using to [OF h(1)] key [OF h(1)] by (auto simp: entry_at_iff [OF inv'])
    then show ?thesis using Some by simp
  qed
qed

lemma slot_entry_holds:
  assumes inv: "table_inv H heap t" and i: "i < tb_capacity t"
  shows "slot_entry heap (tb_slots t ! i) = Some e \<longleftrightarrow> (\<exists>p. holds H heap t i p e)"
proof (cases "tb_slots t ! i = 0")
  case True
  then have "\<not> holds H heap t i p e" for p using holds_used [of H heap t i p e] by (auto simp: used_def)
  then show ?thesis using True by (simp add: slot_entry_def)
next
  case False
  then obtain p f where h: "holds H heap t i p f" using slot_word [OF inv i] by blast
  then have "heap p = Some f" "p \<noteq> 0" by (simp_all add: holds_def ptr_ok_def)
  moreover have "(\<exists>q. holds H heap t i q e) \<longleftrightarrow> f = e" using h holds_unique [OF h] by blast
  ultimately show ?thesis by (simp add: slot_entry_def holds_decode [OF h])
qed

lemma distinct_slot_ptrs:
  assumes inv: "table_inv H heap t"
  shows "distinct (slot_ptrs (table_slots t))"
proof -
  note ts = nth_table_slots [OF inv_tb_ok [OF inv]]
  let ?f = "\<lambda>w. if decode w = 0 then None else Some (decode w)"
  have "slot_ptrs ws = List.map_filter ?f ws" for ws
    by (induction ws) (simp_all add: slot_ptrs_def List.map_filter_simps)
  moreover have "distinct (map id (List.map_filter ?f (table_slots t)))"
  proof (rule map_filter_distinct)
    fix i j a b assume ij: "i < j" "j < length (table_slots t)" and a: "?f (table_slots t ! i) = Some a" "?f (table_slots t ! j) = Some b"
    then have c: "i < tb_capacity t" "j < tb_capacity t" using ts by auto
    have n: "decode (tb_slots t ! i) = a" "decode (tb_slots t ! j) = b" "a \<noteq> 0" "b \<noteq> 0"
      using a ts c by (auto split: if_splits)
    then obtain p q e f where e: "holds H heap t i p e" "holds H heap t j q f"
      using slot_word [OF inv c(1)] slot_word [OF inv c(2)] by (metis decode_0)
    then have "p = a" "q = b" using holds_decode n by blast+
    then have "a = b \<Longrightarrow> e = f" using e by (auto simp: holds_def)
    then show "id a \<noteq> id b" using inv_key [OF inv e] ij(1) by auto
  qed
  ultimately show ?thesis by simp
qed

lemma walk_law:
  assumes inv: "shard_inv H sh" and p: "par = 0 \<or> par = STATE_SNAP"
  obtains out heap' where "snapshot_loop collect par (table_slots (sh_table sh)) (sh_heap sh) s = Some (s @ out, heap')"
    "shard_inv H (sh\<lparr>sh_heap := heap'\<rparr>)" "\<And>k. shard_live (sh\<lparr>sh_heap := heap'\<rparr>) k = map_option (mark par) (shard_live sh k)"
    "dom heap' = dom (sh_heap sh)" "distinct (map fst out)"
    "\<And>k. map_of out k = (case shard_live sh k of None \<Rightarrow> None | Some e \<Rightarrow> if marked par e then None else e_value e)"
proof -
  let ?t = "sh_table sh" and ?heap = "sh_heap sh"
  let ?ws = "table_slots ?t"
  let ?heap' = "mark_heap par ?ws ?heap" and ?out = "visits par ?heap ?ws"
  have ti: "table_inv H ?heap ?t" using inv by (simp add: shard_inv_def)
  note ts = nth_table_slots [OF inv_tb_ok [OF ti]]
  have m: "?heap' q = Some (mark par e) \<and> e_key (mark par e) = e_key e \<and> entry_ok H (mark par e)" if h: "holds H ?heap ?t i q e" for i q e
  proof -
    have "i < tb_capacity ?t" "q \<noteq> 0" "?heap q = Some e" "entry_ok H e" using h by (simp_all add: holds_def ptr_ok_def)
    moreover have "tb_slots ?t ! i \<in> set ?ws" using ts calculation(1) by (metis nth_mem)
    then have "q \<in> set (slot_ptrs ?ws)" using holds_decode [OF h] calculation(2) by (auto simp: slot_ptrs_def)
    ultimately show ?thesis using mark_ok [OF p] by (simp add: mark_heap_def)
  qed
  have tm1: "table_inv H ?heap' ?t" by (rule table_map(1) [OF ti m])
  have tm2: "entry_at ?heap' ?t k = map_option (mark par) (entry_at ?heap ?t k)" for k by (rule table_map(2) [OF ti m])
  have hl: "i < tb_capacity ?t" if "holds H ?heap ?t i q e" for i q e using that by (simp add: holds_def)
  have vis: "(k, v) \<in> set ?out \<longleftrightarrow> (\<exists>i q e. holds H ?heap ?t i q e \<and> e_key e = k \<and> e_value e = Some v \<and> \<not> marked par e)" for k v
  proof -
    have "(k, v) \<in> set ?out \<longleftrightarrow> (\<exists>i < tb_capacity ?t. \<exists>e. slot_entry ?heap (tb_slots ?t ! i) = Some e \<and> to_visit par e = Some (k, v))"
      unfolding visits_def set_map_filter bind_eq_Some_conv using ts by (metis in_set_conv_nth)
    also have "\<dots> \<longleftrightarrow> (\<exists>i q e. holds H ?heap ?t i q e \<and> to_visit par e = Some (k, v))"
      using slot_entry_holds [OF ti] hl by blast
    also have "\<dots> \<longleftrightarrow> (\<exists>i q e. holds H ?heap ?t i q e \<and> e_key e = k \<and> e_value e = Some v \<and> \<not> marked par e)"
      by (auto simp: to_visit_def)
    finally show ?thesis .
  qed
  have d: "distinct (map fst ?out)"
    unfolding visits_def
  proof (rule map_filter_distinct)
    fix i j a b assume ij: "i < j" "j < length ?ws"
      and a: "slot_entry ?heap (?ws ! i) \<bind> to_visit par = Some a" "slot_entry ?heap (?ws ! j) \<bind> to_visit par = Some b"
    then have c: "i < tb_capacity ?t" "j < tb_capacity ?t" using ts by auto
    obtain e f where e: "slot_entry ?heap (tb_slots ?t ! i) = Some e" "to_visit par e = Some a"
        "slot_entry ?heap (tb_slots ?t ! j) = Some f" "to_visit par f = Some b"
      using a c ts by (auto simp: bind_eq_Some_conv)
    then obtain q r where "holds H ?heap ?t i q e" "holds H ?heap ?t j r f" using slot_entry_holds [OF ti] c by blast
    then have "e_key e \<noteq> e_key f" using inv_key [OF ti] ij(1) by blast
    then show "fst a \<noteq> fst b" using e by (auto simp: to_visit_def split: if_splits)
  qed
  show thesis
  proof (rule that [of ?out ?heap'])
    show "snapshot_loop collect par ?ws ?heap s = Some (s @ ?out, ?heap')"
      by (rule snapshot_loop_law [OF p good_slots [OF ti] distinct_slot_ptrs [OF ti]])
    show "shard_inv H (sh\<lparr>sh_heap := ?heap'\<rparr>)" using tm1 inv by (simp add: shard_inv_def)
    show lv: "shard_live (sh\<lparr>sh_heap := ?heap'\<rparr>) k = map_option (mark par) (shard_live sh k)" for k
      using tm2 [of k] by (auto simp: shard_live_def live_entry_def split: option.splits)
    show "dom ?heap' = dom ?heap" by (auto simp: mark_heap_def split: if_splits)
    show "distinct (map fst ?out)" by (rule d)
    show "map_of ?out k = (case shard_live sh k of None \<Rightarrow> None | Some e \<Rightarrow> if marked par e then None else e_value e)" for k
    proof -
      have "map_of ?out k = Some v \<longleftrightarrow> (\<exists>e. entry_at ?heap ?t k = Some e \<and> e_value e = Some v \<and> \<not> marked par e)" for v
        unfolding map_of_eq_Some_iff [OF d] vis by (auto simp: entry_at_iff [OF ti])
      also have "\<dots> v \<longleftrightarrow> (case shard_live sh k of None \<Rightarrow> None | Some e \<Rightarrow> if marked par e then None else e_value e) = Some v" for v
        by (auto simp: shard_live_def live_entry_def split: option.splits)
      finally show ?thesis by (metis option.exhaust)
    qed
  qed
qed

section \<open>A snapshot in the middle of writes\<close>

lemma captured_pending:
  assumes "map_inv H m" "sn_active (cm_snap m)"
  shows "captured_at H m k = (if pending H m k then [(k, the (cm_map H m k))] else [])"
proof (cases "cm_live H m k")
  case (Some e)
  then obtain v where "e_key e = k" "e_value e = Some v" using cm_live_Some [OF assms(1)] by blast
  moreover have "sn_sink (cm_snap m)" using assms by (simp add: map_inv_def)
  ultimately show ?thesis using Some assms(2)
    by (auto simp: captured_at_def captured_def pending_def marked_def cm_map_def)
qed (simp add: captured_at_def pending_def)

lemma changes_pending:
  assumes c: "map_changes H k v m m'" and a: "sn_active (cm_snap m)"
  shows "pending H m' k' \<longleftrightarrow> k' \<noteq> k \<and> pending H m k'"
proof -
  obtain x where x: "cm_live H m' = (cm_live H m)(k := x)"
      "\<And>e. x = Some e \<Longrightarrow> bit (e_state e) 31 = bit (sn_parity (cm_snap m)) 31" "same_frame m m'"
    using c a by (auto simp: map_changes_def)
  then have "sn_parity (cm_snap m') = sn_parity (cm_snap m)" by (simp add: same_frame_def)
  then show ?thesis using x(1,2) by (auto simp: pending_def marked_def)
qed

lemma snap_rel_changes:
  assumes r: "snap_rel H M saved m" and c: "map_changes H k v m m'"
  shows "snap_rel H M saved m'"
proof -
  have inv: "map_inv H m" "sn_active (cm_snap m)" using r by (simp_all add: snap_rel_def)
  have inv': "map_inv H m'" "sn_active (cm_snap m')" using c inv(2) by (simp_all add: map_changes_def same_frame_def)
  have out: "sn_out (cm_snap m') = sn_out (cm_snap m) @ captured_at H m k" using c by (simp add: map_changes_def)
  note p = changes_pending [OF c inv(2)] and cp = captured_pending [OF inv, of k]
  have map: "cm_map H m' = (cm_map H m)(k := v)" by (rule changes_map [OF c])
  let ?old = "saved @ sn_out (cm_snap m)"
  have old: "distinct (map fst ?old)" "\<And>k'. map_of ?old k' = (if pending H m k' then None else M k')"
      "\<And>k'. pending H m k' \<Longrightarrow> cm_map H m k' = M k'"
    using r by (simp_all add: snap_rel_def)
  have eq: "saved @ sn_out (cm_snap m') = ?old @ captured_at H m k" by (simp add: out)
  show ?thesis
  proof (cases "pending H m k")
    case True
    obtain v0 where v0: "cm_map H m k = Some v0"
      using True cm_map_None [OF inv(1), of k] by (auto simp: pending_def)
    have new: "k \<notin> fst ` set ?old" using old(2) [of k] True map_of_eq_None_iff [of ?old k] by metis
    have "distinct (map fst (saved @ sn_out (cm_snap m')))"
      unfolding eq cp using old(1) new True by (auto simp: image_Un)
    moreover have "map_of (saved @ sn_out (cm_snap m')) k' = (if pending H m' k' then None else M k')" for k'
    proof (cases "k' = k")
      case True
      have "M k = Some v0" using old(3) [OF \<open>pending H m k\<close>] v0 by simp
      then show ?thesis unfolding eq cp map_of_append using True \<open>pending H m k\<close> old(2) [of k] v0
        by (simp add: p map_add_def)
    next
      case False
      then show ?thesis unfolding eq cp map_of_append using old(2) [of k'] by (simp add: p map_add_def split: option.split)
    qed
    ultimately show ?thesis using inv' p map old(3) by (auto simp: snap_rel_def)
  next
    case False
    then show ?thesis using inv' p map old cp eq unfolding snap_rel_def by auto
  qed
qed

lemma snap_rel_unchanged:
  assumes r: "snap_rel H M saved m" and u: "unchanged H m m'"
  shows "snap_rel H M saved m'" "pending H m' = pending H m"
proof -
  have e: "cm_live H m' = cm_live H m" "cm_snap m' = cm_snap m" "map_inv H m'" using u by (simp_all add: unchanged_def)
  show p: "pending H m' = pending H m" by (simp add: fun_eq_iff pending_def e)
  show "snap_rel H M saved m'" using r e unchanged_map [OF u] by (simp add: snap_rel_def p)
qed

text \<open>The walk over a shard takes what is pending there.\<close>

lemma walk_step:
  assumes inv: "map_inv H m"
  obtains out m' where "snapshot_shard i collect m s = Some (s @ out, m')" "map_inv H m'" "same_frame m m'"
    "cm_snap m' = cm_snap m" "length (cm_shards m') = length (cm_shards m)"
    "\<And>k. cm_map H m' k = cm_map H m k" "\<And>b. free_addr b m' = free_addr b m" "\<And>n. roomy n m' = roomy n m"
    "\<And>k. pending H m' k \<longleftrightarrow> pending H m k \<and> shard_of m (H k) \<noteq> i" "distinct (map fst out)"
    "\<And>k. map_of out k = (if pending H m k \<and> shard_of m (H k) = i then cm_map H m k else None)"
proof (cases "i < length (cm_shards m)")
  case False
  then have "shard_of m (H k) \<noteq> i" for k using shard_of_lt [OF inv, of "H k"] by auto
  then show thesis using False inv by (intro that [of "[]" m]) (simp_all add: snapshot_shard_def)
next
  case i: True
  let ?par = "sn_parity (cm_snap m)" and ?sh = "cm_shards m ! i"
  have par: "?par = 0 \<or> ?par = STATE_SNAP" using inv by (simp add: map_inv_def snap_ok_def)
  have ok: "shard_ok H m i ?sh" using inv i by (simp add: map_inv_def)
  have si: "shard_inv H ?sh" using ok unfolding shard_ok_def by blast
  obtain out heap' where w: "snapshot_loop collect ?par (table_slots (sh_table ?sh)) (sh_heap ?sh) s = Some (s @ out, heap')"
    "shard_inv H (?sh\<lparr>sh_heap := heap'\<rparr>)" "\<And>k. shard_live (?sh\<lparr>sh_heap := heap'\<rparr>) k = map_option (mark ?par) (shard_live ?sh k)"
    "dom heap' = dom (sh_heap ?sh)" "distinct (map fst out)"
    "\<And>k. map_of out k = (case shard_live ?sh k of None \<Rightarrow> None | Some e \<Rightarrow> if marked ?par e then None else e_value e)"
    using walk_law [OF si par, of s] by blast
  let ?sh' = "?sh\<lparr>sh_heap := heap'\<rparr>"
  let ?m = "put_shard i ?sh' m"
  have fr: "same_frame m ?m" by simp
  have dm: "dom (shard_live ?sh') = dom (shard_live ?sh)" using w(3) by (auto simp: dom_def)
  have ok': "shard_ok H ?m i ?sh'" unfolding shard_ok_def put_shard_simps
  proof (intro conjI allI impI)
    show "sh_live ?sh' = of_nat (card (dom (shard_live ?sh')))" using ok dm unfolding shard_ok_def by simp
    show "shard_of m (H k) = i" if "shard_live ?sh' k \<noteq> None" for k
      using that ok w(3) [of k] unfolding shard_ok_def by auto
  qed (rule w(2))
  have "shard_ok H ?m j (cm_shards ?m ! j)" if "j < length (cm_shards ?m)" for j
  proof (cases "j = i")
    case False
    then show ?thesis using that inv by (simp add: map_inv_def shard_ok_def)
  qed (use ok' i in simp)
  then have inv': "map_inv H ?m"
    using inv fr unfolding map_inv_def same_frame_def snap_ok_def by (simp add: put_shard_def)
  have at: "shard_live ?sh k = (if shard_of m (H k) = i then cm_live H m k else None)" for k
    using ok unfolding shard_ok_def cm_live_def by auto
  have live: "cm_live H ?m k = (if shard_of m (H k) = i then map_option (mark ?par) (cm_live H m k) else cm_live H m k)" for k
  proof (cases "shard_of m (H k) = i")
    case True
    have "cm_live H ?m k = shard_live ?sh' k" "cm_live H m k = shard_live ?sh k" using i by (simp_all add: cm_live_def True)
    then show ?thesis using True by (simp only: w(3) if_True simp_thms)
  next
    case False
    have "cm_live H ?m k = cm_live H m k" using False by (simp add: cm_live_def)
    then show ?thesis using False by (simp only: if_False)
  qed
  have mk: "marked ?par (mark ?par e)" for e by (simp add: marked_def bit_mark [OF par])
  have mem: "?sh \<in> set (cm_shards m)" using i by simp
  have upd: "(\<forall>sh \<in> set ((cm_shards m)[i := ?sh']). P sh) \<longleftrightarrow> (\<forall>sh \<in> set (cm_shards m). P sh)" if "P ?sh' = P ?sh" for P
    unfolding all_set_conv_all_nth using that i by (auto simp: nth_list_update)
  show thesis
  proof (rule that [of out ?m])
    show "snapshot_shard i collect m s = Some (s @ out, ?m)" using i w(1) by (simp add: snapshot_shard_def Let_def)
    show "cm_map H ?m k = cm_map H m k" for k
      by (cases "cm_live H m k") (simp_all add: cm_map_def live)
    have "heap' b = None \<longleftrightarrow> sh_heap ?sh b = None" for b using w(4) by (metis domIff)
    then show "free_addr b ?m = free_addr b m" for b unfolding free_addr_def put_shard_simps by (subst upd) simp_all
    show "roomy n ?m = roomy n m" for n unfolding roomy_def put_shard_simps by (subst upd) simp_all
    show "pending H ?m k \<longleftrightarrow> pending H m k \<and> shard_of m (H k) \<noteq> i" for k
      by (auto simp: pending_def live mk)
    show "map_of out k = (if pending H m k \<and> shard_of m (H k) = i then cm_map H m k else None)" for k
      using w(6) [of k] at [of k] by (auto simp: pending_def cm_map_def split: option.splits)
  qed (use inv' w(5) in simp_all)
qed

lemma snap_rel_walk:
  assumes r: "snap_rel H M saved m" and w: "cm_snap m' = cm_snap m" "map_inv H m'" "\<And>k. cm_map H m' k = cm_map H m k"
    "\<And>k. pending H m' k \<longleftrightarrow> pending H m k \<and> shard_of m (H k) \<noteq> i" "distinct (map fst out)"
    "\<And>k. map_of out k = (if pending H m k \<and> shard_of m (H k) = i then cm_map H m k else None)"
  shows "snap_rel H M (saved @ out) m'"
proof -
  let ?old = "saved @ sn_out (cm_snap m)"
  have inv: "map_inv H m" using r by (simp add: snap_rel_def)
  have old: "distinct (map fst ?old)" "\<And>k. map_of ?old k = (if pending H m k then None else M k)"
      "\<And>k. pending H m k \<Longrightarrow> cm_map H m k = M k"
    using r by (simp_all add: snap_rel_def)
  have disj: "fst ` set out \<inter> fst ` set ?old = {}"
  proof -
    have "k \<notin> fst ` set ?old" if "k \<in> fst ` set out" for k
    proof -
      have "map_of out k \<noteq> None" using that by (simp add: map_of_eq_None_iff)
      then have "map_of ?old k = None" using w(6) [of k] old(2) [of k] by (auto split: if_splits)
      then show ?thesis using map_of_eq_None_iff [of ?old k] by metis
    qed
    then show ?thesis by blast
  qed
  have "distinct (map fst ((saved @ out) @ sn_out (cm_snap m')))"
    using old(1) w(5) disj unfolding w(1) by auto
  moreover have "map_of ((saved @ out) @ sn_out (cm_snap m')) k = (if pending H m' k then None else M k)" for k
  proof -
    have "map_of ((saved @ out) @ sn_out (cm_snap m')) k = (case map_of out k of Some v \<Rightarrow> Some v | None \<Rightarrow> map_of ?old k)"
    proof (cases "map_of out k")
      case (Some v)
      then have "k \<in> fst ` set out" by (metis map_of_eq_None_iff option.distinct(1))
      then have "k \<notin> fst ` set ?old" using disj by blast
      then have "map_of saved k = None" by (auto simp: map_of_eq_None_iff)
      then show ?thesis using Some by (simp add: map_add_def)
    qed (simp add: w(1) map_add_def split: option.split)
    moreover have "cm_map H m k \<noteq> None" if "pending H m k" using that cm_map_None [OF inv, of k] by (auto simp: pending_def)
    ultimately show ?thesis using w(4) [of k] w(6) [of k] old(2) [of k] old(3) [of k] by (auto split: option.splits)
  qed
  moreover have "sn_active (cm_snap m')" using r w(1) by (simp add: snap_rel_def)
  ultimately show ?thesis using w(2,3,4) old(3) by (simp add: snap_rel_def)
qed

text \<open>The order of the steps does not matter, as long as every shard is walked.\<close>

lemma snap_run_law:
  assumes "snap_rel H M saved m" "fits (List.map_filter event_op evs) m"
  shows "\<exists>saved' m'. snap_run H evs m saved = Some (saved', m') \<and> snap_rel H M saved' m' \<and> same_frame m m'
    \<and> (\<forall>k. pending H m' k \<longrightarrow> pending H m k \<and> Walk (shard_of m (H k)) \<notin> set evs)"
  using assms
proof (induction evs arbitrary: m saved)
  case (Cons ev evs)
  have inv: "map_inv H m" "sn_active (cm_snap m)" using Cons.prems(1) by (simp_all add: snap_rel_def)
  show ?case
  proof (cases ev)
    case (Do p)
    have f: "fits (p # List.map_filter event_op evs) m" using Cons.prems(2) Do by (simp add: List.map_filter_simps)
    obtain r m1 where e: "cm_exec H p m = Some (r, m1)" "step_from (op_addr p) m m1"
        "unchanged H m m1 \<or> (\<exists>k v. map_changes H k v m m1)"
      by (rule exec_law [OF inv(1) fits_Cons(1) [OF f] fits_Cons(2) [OF f]]) blast+
    have s: "snap_rel H M saved m1 \<and> same_frame m m1 \<and> (\<forall>k. pending H m1 k \<longrightarrow> pending H m k)"
      using e(3)
    proof
      assume u: "unchanged H m m1"
      then show ?thesis using snap_rel_unchanged [OF Cons.prems(1) u] by (simp add: unchanged_def)
    next
      assume "\<exists>k v. map_changes H k v m m1"
      then obtain k v where c: "map_changes H k v m m1" by blast
      then show ?thesis using snap_rel_changes [OF Cons.prems(1) c] changes_pending [OF c inv(2)] by (simp add: map_changes_def)
    qed
    have f1: "fits (List.map_filter event_op evs) m1" by (rule fits_Cons(3) [OF f e(2)])
    obtain saved' m' where "snap_run H evs m1 saved = Some (saved', m')" "snap_rel H M saved' m'" "same_frame m1 m'"
        "\<And>k. pending H m' k \<Longrightarrow> pending H m1 k \<and> Walk (shard_of m1 (H k)) \<notin> set evs"
      using Cons.IH [OF conjunct1 [OF s] f1] by blast
    then show ?thesis using s Do e(1) same_frame_shard_of [of m m1] same_frame_trans [of m m1 m'] by auto
  next
    case (Walk i)
    obtain out m1 where w: "snapshot_shard i collect m saved = Some (saved @ out, m1)" "map_inv H m1" "same_frame m m1"
      "cm_snap m1 = cm_snap m" "\<And>k. cm_map H m1 k = cm_map H m k" "\<And>b. free_addr b m1 = free_addr b m" "\<And>n. roomy n m1 = roomy n m"
      "\<And>k. pending H m1 k \<longleftrightarrow> pending H m k \<and> shard_of m (H k) \<noteq> i" "distinct (map fst out)"
      "\<And>k. map_of out k = (if pending H m k \<and> shard_of m (H k) = i then cm_map H m k else None)"
      by (rule walk_step [OF inv(1), of i saved]) blast
    have s: "snap_rel H M (saved @ out) m1" by (rule snap_rel_walk [OF Cons.prems(1) w(4,2,5,8,9,10)])
    have f1: "fits (List.map_filter event_op evs) m1"
      using Cons.prems(2) Walk w(6,7) by (simp add: fits_def List.map_filter_simps)
    obtain saved' m' where "snap_run H evs m1 (saved @ out) = Some (saved', m')" "snap_rel H M saved' m'" "same_frame m1 m'"
        "\<And>k. pending H m' k \<Longrightarrow> pending H m1 k \<and> Walk (shard_of m1 (H k)) \<notin> set evs"
      using Cons.IH [OF s f1] by blast
    then show ?thesis using Walk w(1,3,8) same_frame_shard_of [of m m1] same_frame_trans [of m m1 m'] by auto
  qed
qed simp

lemma xor_snap: "par = 0 \<or> par = STATE_SNAP \<Longrightarrow>
    (par XOR STATE_SNAP = 0 \<or> par XOR STATE_SNAP = STATE_SNAP) \<and> (bit (par XOR STATE_SNAP) 31 \<longleftrightarrow> \<not> bit par 31)"
  by (auto simp: bit_consts bit_xor_iff)

lemma begin_law:
  assumes inv: "map_inv H m" and a: "\<not> sn_active (cm_snap m)" and b: "begin_snapshot m = (ok, m0)"
  shows "ok" "map_inv H m0" "cm_live H m0 = cm_live H m" "cm_map H m0 = cm_map H m" "sn_active (cm_snap m0)" "sn_out (cm_snap m0) = []"
    "pending H m0 k \<longleftrightarrow> (\<exists>e. cm_live H m k = Some e \<and> marked (sn_parity (cm_snap m)) e)"
    "fits ps m0 = fits ps m" "shard_of m0 = shard_of m" "length (cm_shards m0) = length (cm_shards m)"
proof -
  have par: "sn_parity (cm_snap m) = 0 \<or> sn_parity (cm_snap m) = STATE_SNAP" using inv by (simp add: map_inv_def snap_ok_def)
  note x = xor_snap [OF par]
  let ?sn = "\<lparr>sn_active = True, sn_parity = sn_parity (cm_snap m) XOR STATE_SNAP, sn_sink = True, sn_out = []\<rparr>"
  have m0: "ok" "m0 = m\<lparr>cm_snap := ?sn, cm_snap_active := True\<rparr>"
    using b a by (auto simp: begin_snapshot_def snap_begin_def Let_def)
  then show "ok" by simp
  show so: "shard_of m0 = shard_of m" by (simp add: m0(2) fun_eq_iff shard_of_def)
  show live: "cm_live H m0 = cm_live H m" by (simp add: fun_eq_iff cm_live_def so) (simp add: m0(2))
  then show "cm_map H m0 = cm_map H m" by (simp add: fun_eq_iff cm_map_def)
  have "shard_ok H m0 = shard_ok H m" by (simp add: fun_eq_iff shard_ok_def so)
  then show "map_inv H m0" using inv x by (simp add: map_inv_def m0(2) snap_ok_def)
  show "pending H m0 k \<longleftrightarrow> (\<exists>e. cm_live H m k = Some e \<and> marked (sn_parity (cm_snap m)) e)"
    unfolding pending_def live using x by (auto simp: m0(2) marked_def)
qed (use b a in \<open>auto simp: begin_snapshot_def snap_begin_def Let_def fits_def roomy_def free_addr_def\<close>)

lemma end_law:
  "map_inv H m \<Longrightarrow> map_inv H (end_snapshot m)" "cm_live H (end_snapshot m) = cm_live H m" "cm_map H (end_snapshot m) = cm_map H m"
  "fits ps (end_snapshot m) = fits ps m" "\<not> sn_active (cm_snap (end_snapshot m))" "shard_of (end_snapshot m) = shard_of m"
  "cm_shards (end_snapshot m) = cm_shards m" "sn_parity (cm_snap (end_snapshot m)) = sn_parity (cm_snap m)"
proof -
  show so: "shard_of (end_snapshot m) = shard_of m" by (simp add: fun_eq_iff shard_of_def end_snapshot_def)
  show live: "cm_live H (end_snapshot m) = cm_live H m" by (simp add: fun_eq_iff cm_live_def so) (simp add: end_snapshot_def)
  then show "cm_map H (end_snapshot m) = cm_map H m" by (simp add: fun_eq_iff cm_map_def)
  have "shard_ok H (end_snapshot m) = shard_ok H m" by (simp add: fun_eq_iff shard_ok_def so)
  then show "map_inv H (end_snapshot m)" if "map_inv H m"
    using that by (simp add: map_inv_def end_snapshot_def snap_end_def snap_ok_def)
qed (simp_all add: end_snapshot_def snap_end_def fits_def roomy_def free_addr_def)

text \<open>
  C2. A snapshot is the map at the moment it began.  Whatever operations run between its beginning and its end, in any order with the
  walks over the shards, once every shard has been walked the entries visited and the entries handed over by
  the writes are together the map at the beginning, each key once; and the next snapshot can start.
\<close>

theorem snapshot_point_in_time:
  assumes "map_inv H m" and "settled H m" and "\<not> sn_active (cm_snap m)" and "begin_snapshot m = (ok, m0)"
    and "fits (List.map_filter event_op evs) m" and "\<forall>i < length (cm_shards m). Walk i \<in> set evs"
  shows "\<exists>saved m'. snap_run H evs m0 [] = Some (saved, m') \<and> distinct (map fst (saved @ sn_out (cm_snap m')))
    \<and> map_of (saved @ sn_out (cm_snap m')) = cm_map H m \<and> map_inv H (end_snapshot m') \<and> settled H (end_snapshot m')"
proof -
  note b = begin_law [OF assms(1,3,4)]
  have all: "pending H m0 k" if "cm_map H m k \<noteq> None" for k
    using that assms(2) cm_map_None [OF assms(1), of k] b(7) [of k] by (auto simp: settled_def pending_def)
  have "snap_rel H (cm_map H m) [] m0" unfolding snap_rel_def using b(2,4,5,6) all by (auto, metis option.exhaust)
  moreover have "fits (List.map_filter event_op evs) m0" using b(8) assms(5) by blast
  ultimately obtain saved m' where r: "snap_run H evs m0 [] = Some (saved, m')" "snap_rel H (cm_map H m) saved m'"
      "\<And>k. pending H m' k \<Longrightarrow> Walk (shard_of m0 (H k)) \<notin> set evs"
    using snap_run_law by blast
  have none: "\<not> pending H m' k" for k
  proof
    assume "pending H m' k"
    then have "Walk (shard_of m (H k)) \<notin> set evs" using r(3) [of k] b(9) by simp
    then show False using assms(6) shard_of_lt [OF assms(1), of "H k"] by blast
  qed
  have "map_of (saved @ sn_out (cm_snap m')) = cm_map H m"
    using r(2) none unfolding snap_rel_def by (simp add: fun_eq_iff)
  moreover have "settled H (end_snapshot m')"
    using none by (simp add: settled_def pending_def end_law)
  moreover have "map_inv H (end_snapshot m')" using r(2) end_law(1) unfolding snap_rel_def by blast
  ultimately show ?thesis using r(1,2) unfolding snap_rel_def by blast
qed

lemma length_shards: "map_inv H m \<Longrightarrow> length (cm_shards m) = cm_shard_mask m + 1"
  by (auto simp: map_inv_def)

text \<open>A map of one shard that holds one key, left by a finished snapshot.\<close>

lemma settled_example:
  obtains m where "map_inv (\<lambda>_. 5) m" "settled (\<lambda>_. 5) m" "\<not> sn_active (cm_snap m)" "cm_map (\<lambda>_. 5) m = [[1] \<mapsto> 7 :: nat]"
    "fits [Put 32 [2] 8, Delete [1]] m" "length (cm_shards m) = 1"
proof -
  let ?H = "\<lambda>_ :: bytes. 5 :: 64 word" and ?m = "build 1 8 10 :: nat custom_map"
  have c: "max (next_power_of_two 8) 8 \<le> (2 :: nat) ^ 32" using next_power_of_two_pow [of 3] by simp
  have inv: "map_inv ?H ?m" and e: "cm_map ?H ?m = Map.empty" "cm_live ?H ?m = Map.empty"
    using build_inv [OF c, of ?H 0 10] by simp_all
  have na: "\<not> sn_active (cm_snap ?m)" by (simp add: build_def snap_new_def)
  obtain ok m0 where bs: "begin_snapshot ?m = (ok, m0)" by fastforce
  note b = begin_law [OF inv na bs]
  have "ptr_ok 16" "ptr_ok 32" by code_simp+
  then have "fits [Put 16 [1] (7 :: nat), Put 32 [2] 8, Delete [1]] ?m" by (simp add: fits_def build_fits List.map_filter_simps)
  then have f: "fits [Put 16 [1] (7 :: nat), Put 32 [2] 8, Delete [1]] m0" unfolding b(8) .
  obtain m1 where x: "cm_map ?H m1 = snd (map_exec (Put 16 [1] 7) (cm_map ?H m0))" "map_inv ?H m1"
      "step_from (op_addr (Put 16 [1] (7 :: nat))) m0 m1" "unchanged ?H m0 m1 \<or> (\<exists>k v. map_changes ?H k v m0 m1)"
    by (rule exec_law [OF b(2) fits_Cons(1) [OF f] fits_Cons(2) [OF f]]) blast
  have m1: "cm_map ?H m1 = [[1] \<mapsto> 7]" using x(1) b(4) e(1) by simp
  have no: "\<not> pending ?H m0 k" for k using b(7) e(2) by simp
  from x(4) have "\<exists>k v. map_changes ?H k v m0 m1"
  proof
    assume "unchanged ?H m0 m1"
    then show ?thesis using unchanged_map [of ?H m0 m1] m1 b(4) e(1) by (metis map_upd_nonempty)
  qed
  then obtain k v where ch: "map_changes ?H k v m0 m1" by blast
  have st: "settled ?H (end_snapshot m1)"
    using changes_pending [OF ch b(5)] no by (simp add: settled_def pending_def end_law)
  have f1: "fits [Put 32 [2] 8, Delete [1]] m1" by (rule fits_Cons(3) [OF f x(3)])
  have "cm_shard_mask m0 = 0" using length_shards [OF b(2)] b(10) by (simp add: build_def)
  then have l: "length (cm_shards m1) = 1" using length_shards [OF x(2)] ch by (simp add: map_changes_def same_frame_def)
  show thesis
  proof (rule that [of "end_snapshot m1"])
  qed (use st x(2) m1 f1 l in \<open>simp_all add: end_law\<close>)
qed

theorem snapshot_point_in_time_witness:
  "\<exists>(m :: nat custom_map) m0 saved m'. cm_map (\<lambda>_. 5) m = [[1] \<mapsto> 7] \<and> begin_snapshot m = (True, m0)
     \<and> snap_run (\<lambda>_. 5) [Do (Put 32 [2] 8), Walk 0, Do (Delete [1])] m0 [] = Some (saved, m')
     \<and> map_of (saved @ sn_out (cm_snap m')) = [[1] \<mapsto> 7]"
proof -
  let ?H = "\<lambda>_ :: bytes. 5 :: 64 word" and ?evs = "[Do (Put 32 [2] 8), Walk 0, Do (Delete [1])] :: nat snap_event list"
  obtain m where m: "map_inv ?H m" "settled ?H m" "\<not> sn_active (cm_snap m)" "cm_map ?H m = [[1] \<mapsto> 7 :: nat]"
    "fits [Put 32 [2] 8, Delete [1]] m" "length (cm_shards m) = 1"
    by (rule settled_example)
  obtain ok m0 where b: "begin_snapshot m = (ok, m0)" by fastforce
  have "fits (List.map_filter event_op ?evs) m" using m(5) by (simp add: fits_def List.map_filter_simps)
  moreover have "\<forall>i < length (cm_shards m). Walk i \<in> set ?evs" using m(6) by simp
  ultimately obtain saved m' where "snap_run ?H ?evs m0 [] = Some (saved, m')" "map_of (saved @ sn_out (cm_snap m')) = cm_map ?H m"
    using snapshot_point_in_time [OF m(1-3) b] by blast
  then show ?thesis using begin_law(1) [OF m(1,3) b] b unfolding m(4) by (metis (full_types) m(4))
qed

section \<open>Where a snapshot is not one\<close>

lemma walks_nothing:
  assumes "map_inv H m" "\<And>k. \<not> pending H m k"
  shows "\<exists>m'. snap_run H (map Walk is) m s = Some (s, m') \<and> cm_map H m' = cm_map H m"
  using assms
proof (induction "is" arbitrary: m)
  case (Cons i "is")
  obtain out m1 where w: "snapshot_shard i collect m s = Some (s @ out, m1)" "map_inv H m1"
      "\<And>k. cm_map H m1 k = cm_map H m k" "\<And>k. pending H m1 k \<longleftrightarrow> pending H m k \<and> shard_of m (H k) \<noteq> i"
      "\<And>k. map_of out k = (if pending H m k \<and> shard_of m (H k) = i then cm_map H m k else None)"
    by (rule walk_step [OF Cons.prems(1), of i s]) blast
  have "map_of out k = None" for k using w(5) [of k] Cons.prems(2) by simp
  then have "map_of out = Map.empty" by (rule ext)
  then have "out = []" by simp
  moreover have "\<exists>m'. snap_run H (map Walk is) m1 s = Some (s, m') \<and> cm_map H m' = cm_map H m1"
    by (rule Cons.IH [OF w(2)]) (use w(4) Cons.prems(2) in simp)
  ultimately show ?case using w(1,3) by (auto simp: fun_eq_iff)
qed simp

text \<open>
  C11. A snapshot given up before it walked the shards spoils the next one: the marks of the entries are then those of the new
  snapshot, and its walk over all shards visits nothing although the map is unchanged.
\<close>

theorem aborted_snapshot_hides_map:
  assumes "map_inv H m" and "settled H m" and "\<not> sn_active (cm_snap m)"
    and "begin_snapshot m = (ok, m0)" and "begin_snapshot (end_snapshot m0) = (ok', m1)"
  shows "ok' \<and> (\<exists>m'. snap_run H (map Walk [0..<length (cm_shards m)]) m1 [] = Some ([], m') \<and> sn_out (cm_snap m1) = []
    \<and> cm_map H m' = cm_map H m)"
proof -
  note b = begin_law [OF assms(1,3,4)]
  have inv: "map_inv H (end_snapshot m0)" by (rule end_law(1) [OF b(2)])
  note c = begin_law [OF inv end_law(5) assms(5)]
  have "\<not> pending H m1 k" for k
    using c(7) [of k] b(7) [of k] assms(2) b(3) unfolding end_law by (auto simp: settled_def pending_def)
  then obtain m' where "snap_run H (map Walk [0..<length (cm_shards m)]) m1 [] = Some ([], m')" "cm_map H m' = cm_map H m1"
    using walks_nothing [OF c(2)] by blast
  moreover have "cm_map H m1 = cm_map H m" using c(4) b(4) by (simp add: end_law)
  ultimately show ?thesis using c(1,6) by simp
qed

theorem aborted_snapshot_hides_map_witness:
  "\<exists>(m :: nat custom_map) m1 m'. cm_map (\<lambda>_. 5) m = [[1] \<mapsto> 7] \<and> begin_snapshot (end_snapshot (snd (begin_snapshot m))) = (True, m1)
     \<and> snap_run (\<lambda>_. 5) [Walk 0] m1 [] = Some ([], m') \<and> cm_map (\<lambda>_. 5) m' = [[1] \<mapsto> 7]"
proof -
  obtain m where m: "map_inv (\<lambda>_. 5) m" "settled (\<lambda>_. 5) m" "\<not> sn_active (cm_snap m)" "cm_map (\<lambda>_. 5) m = [[1] \<mapsto> 7 :: nat]"
    "length (cm_shards m) = 1"
    by (rule settled_example)
  obtain ok m0 where b: "begin_snapshot m = (ok, m0)" by fastforce
  obtain ok' m1 where c: "begin_snapshot (end_snapshot m0) = (ok', m1)" by fastforce
  from aborted_snapshot_hides_map [OF m(1-3) b c] b c m(4,5) show ?thesis by auto
qed

text \<open>A write through a hint keeps the mark the entry had before the snapshot was asked.\<close>

lemma hinted_state:
  assumes e: "entry_ok H e" and st: "st = unlock_write (bump_seq (e_state e) OR STATE_LOCK) True"
  shows "entry_ok H (e\<lparr>e_value := Some v, e_state := st\<rparr>)" "bit st 31 = bit (e_state e) 31"
proof -
  let ?l = "bump_seq (e_state e) OR STATE_LOCK"
  have l: "bit ?l n = bit (e_state e) n" if "n = 1 \<or> 31 \<le> n" for n
    using that bit_bump_seq [of n "e_state e"] by (auto simp: bit_or_iff bit_consts)
  have b: "bit st n = (if n = 0 then False else if n = 1 then True else bit (e_state e) n)" if "n < 2 \<or> 31 \<le> n" for n
    using bit_write_end [OF that, of ?l True] l [of n] that unfolding st unlock_write_end by auto
  have "bit st 2 = bit (e_state e) 2"
    by (simp add: st unlock_write_end bit_write_end_2 bit_or_iff bit_consts bit_bump_2)
  moreover have "stored_hash st = stored_hash (e_state e)" by (rule stored_hash_cong) (use b in auto)
  ultimately show "entry_ok H (e\<lparr>e_value := Some v, e_state := st\<rparr>)" using e b by (simp add: entry_ok_def)
  show "bit st 31 = bit (e_state e) 31" using b by simp
qed

lemma hinted_write_law:
  assumes inv: "map_inv H m" and l: "cm_live H m k = Some e"
    and h: "holds H (sh_heap (cm_shards m ! shard_of m (H k))) (sh_table (cm_shards m ! shard_of m (H k))) i p e"
    and v: "e_value e = Some v" and bf: "before = (\<lambda>e. before_write e (cm_snap m))"
  obtains m' e' where "hinted_write (shard_of m (H k)) p e before f k m = Some m'" "map_inv H m'" "same_frame m m'"
    "cm_live H m' = (cm_live H m)(k \<mapsto> e')" "e_value e' = Some (f v)" "bit (e_state e') 31 = bit (e_state e) 31"
    "sn_out (cm_snap m') = sn_out (cm_snap m) @ captured_at H m k"
proof -
  let ?i = "shard_of m (H k)"
  let ?sh = "cm_shards m ! ?i" and ?l = "bump_seq (e_state e) OR STATE_LOCK"
  let ?e' = "e\<lparr>e_value := Some (f v), e_state := unlock_write ?l True\<rparr>"
  note at = shard_at(1) [OF inv, of "H k"] and si = shard_at_inv(1) [OF inv, of "H k"]
  have e: "entry_ok H e" "sh_heap ?sh p = Some e" using h by (auto simp: holds_def)
  have k: "e_key e = k" using cm_live_Some [OF inv l] by blast
  have s: "snap_ok (cm_snap m)" using inv by (simp add: map_inv_def)
  have lb: "bit ?l n = bit (e_state e) n" if "n = 1 \<or> 31 \<le> n" for n
    using that bit_bump_seq [of n "e_state e"] by (auto simp: bit_or_iff bit_consts)
  have bv: "bit (e_state (e\<lparr>e_state := ?l\<rparr>)) 1 \<longleftrightarrow> e_value (e\<lparr>e_state := ?l\<rparr>) \<noteq> None"
    using e(1) lb [of 1] by (simp add: entry_ok_def)
  obtain st1 where b: "before_write (e\<lparr>e_state := ?l\<rparr>) (cm_snap m) =
      Some (e\<lparr>e_state := ?l, e_state := st1\<rparr>, (cm_snap m)\<lparr>sn_out := sn_out (cm_snap m) @ captured (cm_snap m) (e\<lparr>e_state := ?l\<rparr>)\<rparr>)"
    by (rule before_write_law [OF s bv])
  have c: "captured (cm_snap m) (e\<lparr>e_state := ?l\<rparr>) = captured_at H m k"
    using lb [of 31] l by (simp add: captured_at_def captured_def split: option.split)
  note hs1 = hinted_state(1) [OF e(1) refl, where v = "f v"] and hs2 = hinted_state(2) [OF e(1) refl]
  have k': "e_key ?e' = k" using k by simp
  have eq: "(put_entry p ?e' ?sh)\<lparr>sh_len := sh_len ?sh\<rparr> = put_entry p ?e' ?sh" by (simp add: put_entry_def)
  note up = hit_law [OF si h k k' hs1 le_refl, unfolded eq]
  have lv: "shard_live (put_entry p ?e' ?sh) = (shard_live ?sh)(k \<mapsto> ?e')" using up(2) by (simp add: live_entry_def)
  have "shard_live ?sh k = Some e" using l by (simp add: cm_live_def)
  then have cnt: "sh_live (put_entry p ?e' ?sh) = of_nat (card (dom (shard_live (put_entry p ?e' ?sh))))"
    unfolding lv card_live_upd using shard_at_inv(2) [OF inv, of "H k"] by (simp add: put_entry_def)
  let ?m = "(put_shard ?i (put_entry p ?e' ?sh) m)\<lparr>cm_snap := (cm_snap m)\<lparr>sn_out := sn_out (cm_snap m) @ captured_at H m k\<rparr>\<rparr>"
  have fr: "same_frame m ?m" by simp
  note ch = change_shard [OF inv fr _ up(1) lv cnt]
  have ee: "e\<lparr>e_state := st1, e_value := Some (f v), e_state := unlock_write ?l True\<rparr> = ?e'" by simp
  show thesis
  proof (rule that [of "touched k ?m" ?e'])
    show "hinted_write ?i p e before f k m = Some (touched k ?m)"
      using b v ee by (simp add: hinted_write_def at bf Let_def c)
    show "bit (e_state ?e') 31 = bit (e_state e) 31" using hs2 by simp
  qed (use ch fr in simp_all)
qed

lemma entry_matches: "entry_ok H e \<Longrightarrow> e_key e = k \<Longrightarrow> e_value e \<noteq> None \<Longrightarrow> e_state e AND STATE_MATCH_MASK = expected_match (H k)"
  by (auto simp: match_iff entry_ok_def)

text \<open>With no snapshot in progress it is an ordinary set.\<close>

lemma set_with_hint_law:
  assumes inv: "map_inv H m" and l: "cm_live H m k = Some e"
    and h: "holds H (sh_heap (cm_shards m ! shard_of m (H k))) (sh_table (cm_shards m ! shard_of m (H k))) i p e"
  obtains m' e' where "set_with_hint True a k (H k) p v m = Some (False, m')" "map_inv H m'" "same_frame m m'"
    "cm_live H m' = (cm_live H m)(k \<mapsto> e')" "e_value e' = Some v" "bit (e_state e') 31 = bit (e_state e) 31"
    "sn_out (cm_snap m') = sn_out (cm_snap m) @ captured_at H m k"
proof -
  obtain v0 where e: "e_key e = k" "e_value e = Some v0" using cm_live_Some [OF inv l] by blast
  have ok: "entry_ok H e" "sh_heap (cm_shards m ! shard_of m (H k)) p = Some e" "p \<noteq> 0" using h by (auto simp: holds_def ptr_ok_def)
  have bf: "snap_before_write m = (\<lambda>e. before_write e (cm_snap m))"
    using inv by (auto simp: fun_eq_iff snap_before_write_def before_write_def map_inv_def)
  obtain m' e' where w: "hinted_write (shard_of m (H k)) p e (snap_before_write m) (\<lambda>_. v) k m = Some m'" "map_inv H m'" "same_frame m m'"
    "cm_live H m' = (cm_live H m)(k \<mapsto> e')" "e_value e' = Some v" "bit (e_state e') 31 = bit (e_state e) 31"
    "sn_out (cm_snap m') = sn_out (cm_snap m) @ captured_at H m k"
    by (rule hinted_write_law [OF inv l h e(2) bf])
  have "set_with_hint True a k (H k) p v m = Some (False, m')"
    using w(1) ok e entry_matches [OF ok(1) e(1)] shard_at(1) [OF inv, of "H k"] by (simp add: set_with_hint_def Let_def)
  then show thesis using w(2-7) by (rule that)
qed

text \<open>
  C12. A set through an entry hint during a snapshot hands the old value over and then restores the mark the entry had, so that the walk of
  its shard visits the key again: the snapshot holds the key twice, once with a value written after it began.
\<close>

theorem hinted_set_breaks_snapshot:
  assumes "map_inv H m" and "sn_active (cm_snap m)" and "cm_live H m k = Some e" and "pending H m k"
    and "holds H (sh_heap (cm_shards m ! shard_of m (H k))) (sh_table (cm_shards m ! shard_of m (H k))) i p e"
  shows "\<exists>m' saved m''. set_with_hint True a k (H k) p v m = Some (False, m')
    \<and> snapshot_shard (shard_of m (H k)) collect m' [] = Some (saved, m'')
    \<and> (k, the (cm_map H m k)) \<in> set (sn_out (cm_snap m'')) \<and> (k, v) \<in> set saved"
proof -
  obtain m' e' where w: "set_with_hint True a k (H k) p v m = Some (False, m')" "map_inv H m'" "same_frame m m'"
    "cm_live H m' = (cm_live H m)(k \<mapsto> e')" "e_value e' = Some v" "bit (e_state e') 31 = bit (e_state e) 31"
    "sn_out (cm_snap m') = sn_out (cm_snap m) @ captured_at H m k"
    by (rule set_with_hint_law [OF assms(1,3,5)])
  have par: "sn_parity (cm_snap m') = sn_parity (cm_snap m)" using w(3) by (simp add: same_frame_def)
  have p: "pending H m' k" using assms(3,4) w(4,6) by (simp add: pending_def marked_def par)
  obtain out m'' where s: "snapshot_shard (shard_of m (H k)) collect m' [] = Some ([] @ out, m'')" "cm_snap m'' = cm_snap m'"
      "\<And>k'. map_of out k' = (if pending H m' k' \<and> shard_of m' (H k') = shard_of m (H k) then cm_map H m' k' else None)"
    by (rule walk_step [OF w(2), of "shard_of m (H k)" "[]"]) blast
  have "map_of out k = Some v"
    using s(3) [of k] p w(4,5) by (simp add: same_frame_shard_of [OF w(3)] cm_map_def)
  then have "(k, v) \<in> set out" by (rule map_of_SomeD)
  moreover have "(k, the (cm_map H m k)) \<in> set (sn_out (cm_snap m''))"
    using s(2) w(7) captured_pending [OF assms(1,2), of k] assms(4) by simp
  ultimately show ?thesis using w(1) s(1) by auto
qed

theorem hinted_set_breaks_snapshot_witness:
  "\<exists>(m :: nat custom_map) p m' saved m''. cm_map (\<lambda>_. 5) m = [[1] \<mapsto> 7] \<and> set_with_hint True 32 [1] 5 p 9 m = Some (False, m')
     \<and> snapshot_shard 0 collect m' [] = Some (saved, m'') \<and> ([1], 7) \<in> set (sn_out (cm_snap m'')) \<and> ([1], 9) \<in> set saved"
proof -
  let ?H = "\<lambda>_ :: bytes. 5 :: 64 word"
  obtain m where m: "map_inv ?H m" "settled ?H m" "\<not> sn_active (cm_snap m)" "cm_map ?H m = [[1] \<mapsto> 7 :: nat]"
    "length (cm_shards m) = 1"
    by (rule settled_example)
  obtain ok m0 where bs: "begin_snapshot m = (ok, m0)" by fastforce
  note b = begin_law [OF m(1,3) bs]
  obtain e where e: "cm_live ?H m0 [1] = Some e" using cm_map_None [OF b(2), of "[1]"] b(4) m(4) by fastforce
  have p: "pending ?H m0 [1]" unfolding b(7) using b(3) e m(2) by (auto simp: settled_def pending_def)
  obtain i q where h: "holds ?H (sh_heap (cm_shards m0 ! shard_of m0 5)) (sh_table (cm_shards m0 ! shard_of m0 5)) i q e"
    by (rule live_cases [OF b(2) e]) blast
  have z: "shard_of m0 5 = 0" using shard_of_lt [OF b(2), of 5] b(10) m(5) by simp
  from hinted_set_breaks_snapshot [OF b(2,5) e p, of i q 32 9] h obtain m' saved m'' where
    "set_with_hint True 32 [1] 5 q 9 m0 = Some (False, m')" "snapshot_shard 0 collect m' [] = Some (saved, m'')"
    "([1], 7) \<in> set (sn_out (cm_snap m''))" "([1], 9) \<in> set saved"
    by (auto simp: b(4) m(4) z)
  then show ?thesis using b(4) m(4) by (intro exI [of _ m0] exI [of _ q] exI [of _ m'] exI [of _ saved] exI [of _ m'']) simp
qed

end
