(* ===== verification/MapWalks.thy ===== *)
theory MapWalks
  imports MapRefine
begin

text \<open>
  The operations that walk over the concurrent map: listing and counting its keys, dropping entries, rewriting values,
  compacting a shard and clearing the map.
\<close>

section \<open>What the walks are about\<close>

text \<open>The live keys and values of a shard and of the map, in the order of the slots.\<close>

definition live_pairs :: "'v shard \<Rightarrow> (bytes \<times> 'v) list" where
  "live_pairs sh = map (\<lambda>e. (e_key e, the (e_value e))) (lives (sh_heap sh) (table_slots (sh_table sh)))"

definition map_pairs :: "'v custom_map \<Rightarrow> (bytes \<times> 'v) list" where
  "map_pairs m = concat (map live_pairs (cm_shards m))"

text \<open>The keys of the entries that some slots point to.\<close>

definition names :: "'v entries \<Rightarrow> 64 word list \<Rightarrow> bytes \<Rightarrow> bool" where
  "names heap ws k \<longleftrightarrow> (\<exists>w \<in> set ws. \<exists>e. decode w \<noteq> 0 \<and> heap (decode w) = Some e \<and> e_key e = k)"

text \<open>What is left when the keys of some slots that fail a test are dropped.\<close>

definition without :: "(bytes \<Rightarrow> bool) \<Rightarrow> (bytes \<Rightarrow> 'v \<Rightarrow> bool) \<Rightarrow> (bytes \<rightharpoonup> 'v) \<Rightarrow> bytes \<rightharpoonup> 'v" where
  "without N f M k = (case M k of None \<Rightarrow> None | Some v \<Rightarrow> if N k \<and> \<not> f k v then None else Some v)"

section \<open>Listing\<close>

lemma walk_slots_law:
  "(\<And>w. w \<in> set ws \<Longrightarrow> good_word H heap w) \<Longrightarrow>
     walk_slots f heap ws s = Some (fold (\<lambda>e. f (e_key e) (the (e_value e))) (lives heap ws) s)"
proof (induction ws arbitrary: s)
  case (Cons w ws)
  have g: "good_word H heap w" by (simp add: Cons.prems)
  have ih: "walk_slots f heap ws s' = Some (fold (\<lambda>e. f (e_key e) (the (e_value e))) (lives heap ws) s')" for s'
    by (rule Cons.IH) (simp add: Cons.prems)
  show ?case
  proof (cases "decode w = 0")
    case False
    then obtain e where "heap (decode w) = Some e" "entry_ok H e" using g by (auto simp: good_word_def)
    then show ?thesis using ih False by (auto simp: live_of_def entry_ok_def state_occupied_bit)
  qed (simp add: ih live_of_def)
qed simp

lemma live_pairs_law:
  assumes inv: "shard_inv H sh"
  shows "distinct (map fst (live_pairs sh))" "map_of (live_pairs sh) k = shard_live sh k \<bind> e_value"
    "length (live_pairs sh) = card (dom (shard_live sh))" "set (map fst (live_pairs sh)) = dom (shard_live sh)"
proof -
  let ?t = "sh_table sh" and ?heap = "sh_heap sh"
  let ?es = "lives ?heap (table_slots ?t)"
  have ti: "table_inv H ?heap ?t" using inv by (simp add: shard_inv_def)
  have f: "map fst (live_pairs sh) = map e_key ?es" by (simp add: live_pairs_def comp_def)
  show d: "distinct (map fst (live_pairs sh))" unfolding f by (rule lives_table(1) [OF ti])
  have mem: "e \<in> set ?es \<longleftrightarrow> shard_live sh (e_key e) = Some e" for e
  proof -
    have "e \<in> set ?es \<longleftrightarrow> entry_at ?heap ?t (e_key e) = Some e \<and> e_value e \<noteq> None"
      unfolding lives_table(3) [OF ti] entry_at_iff [OF ti] by (auto simp: holds_def entry_ok_def)
    also have "\<dots> \<longleftrightarrow> shard_live sh (e_key e) = Some e" by (auto simp: shard_live_def live_entry_def split: option.splits)
    finally show ?thesis .
  qed
  have key: "e_key e = k" if "shard_live sh k = Some e" for k e using shard_live_holds [OF inv that] by metis
  have "map_of (live_pairs sh) k = Some v \<longleftrightarrow> shard_live sh k \<bind> e_value = Some v" for v
  proof -
    have "map_of (live_pairs sh) k = Some v \<longleftrightarrow> (\<exists>e. shard_live sh k = Some e \<and> the (e_value e) = v)"
    proof -
      have "(k, v) \<in> set (live_pairs sh) \<longleftrightarrow> (\<exists>e \<in> set ?es. e_key e = k \<and> the (e_value e) = v)"
        by (auto simp: live_pairs_def)
      also have "\<dots> \<longleftrightarrow> (\<exists>e. shard_live sh k = Some e \<and> the (e_value e) = v)" using mem key by metis
      finally show ?thesis unfolding map_of_eq_Some_iff [OF d] .
    qed
    also have "\<dots> \<longleftrightarrow> shard_live sh k \<bind> e_value = Some v"
    proof (cases "shard_live sh k")
      case (Some e)
      then obtain v' where "e_value e = Some v'" by (rule shard_live_holds [OF inv])
      then show ?thesis by (simp add: Some)
    qed simp
    finally show ?thesis .
  qed
  then show "map_of (live_pairs sh) k = shard_live sh k \<bind> e_value" by (metis option.exhaust)
  show s: "set (map fst (live_pairs sh)) = dom (shard_live sh)"
  proof (intro equalityI subsetI)
    fix k
    assume "k \<in> set (map fst (live_pairs sh))"
    then obtain e where "e \<in> set ?es" "k = e_key e" unfolding f by auto
    then show "k \<in> dom (shard_live sh)" using mem [of e] by (simp add: domIff)
  next
    fix k
    assume "k \<in> dom (shard_live sh)"
    then obtain e where e: "shard_live sh k = Some e" by blast
    then have "e \<in> set ?es" using mem [of e] key [OF e] by simp
    then show "k \<in> set (map fst (live_pairs sh))" unfolding f using key [OF e] by force
  qed
  show "length (live_pairs sh) = card (dom (shard_live sh))"
    using distinct_card [OF d] s by simp
qed

lemma walk_shard_law:
  assumes "shard_inv H sh"
  shows "walk_shard f sh s = Some (fold (\<lambda>(k, v). f k v) (live_pairs sh) s)"
proof -
  have "walk_slots f (sh_heap sh) (table_slots (sh_table sh)) s
      = Some (fold (\<lambda>e. f (e_key e) (the (e_value e))) (lives (sh_heap sh) (table_slots (sh_table sh))) s)"
    by (rule walk_slots_law [of _ H], rule good_slots) (use assms in \<open>simp_all add: shard_inv_def\<close>)
  then show ?thesis by (simp add: walk_shard_def live_pairs_def fold_map comp_def)
qed

lemma walk_shards_law:
  "(\<And>sh. sh \<in> set shs \<Longrightarrow> shard_inv H sh) \<Longrightarrow>
     walk_shards f shs s = Some (fold (\<lambda>(k, v). f k v) (concat (map live_pairs shs)) s)"
proof (induction shs arbitrary: s)
  case (Cons sh shs)
  have "walk_shard f sh s = Some (fold (\<lambda>(k, v). f k v) (live_pairs sh) s)"
    by (rule walk_shard_law [of H]) (simp add: Cons.prems)
  moreover have "walk_shards f shs s' = Some (fold (\<lambda>(k, v). f k v) (concat (map live_pairs shs)) s')" for s'
    by (rule Cons.IH) (simp add: Cons.prems)
  ultimately show ?case by simp
qed simp

lemma distinct_concat_tag:
  "(\<And>i. i < length xs \<Longrightarrow> distinct (xs ! i)) \<Longrightarrow> (\<And>i k. i < length xs \<Longrightarrow> k \<in> set (xs ! i) \<Longrightarrow> t k = i) \<Longrightarrow>
     distinct (concat xs)"
proof (induction xs rule: rev_induct)
  case (snoc x xs)
  have d: "distinct (concat xs)"
    using snoc.prems by (intro snoc.IH) (metis length_append_singleton less_SucI nth_append)+
  have x: "distinct x" "\<And>k. k \<in> set x \<Longrightarrow> t k = length xs"
    using snoc.prems(1) [of "length xs"] snoc.prems(2) [of "length xs"] by simp_all
  have "t k < length xs" if "k \<in> set (concat xs)" for k
  proof -
    obtain i where "i < length xs" "k \<in> set (xs ! i)" using \<open>k \<in> _\<close> by (auto simp: in_set_conv_nth) (metis nth_mem)
    then show ?thesis using snoc.prems(2) [of i k] by (simp add: nth_append)
  qed
  then have "set (concat xs) \<inter> set x = {}" using x(2) by (metis disjoint_iff less_irrefl)
  then show ?case using d x(1) by simp
qed simp

lemma shard_ok_at: "map_inv H m \<Longrightarrow> i < length (cm_shards m) \<Longrightarrow> shard_ok H m i (cm_shards m ! i)"
  by (simp add: map_inv_def)

lemma shard_inv_mem: "map_inv H m \<Longrightarrow> sh \<in> set (cm_shards m) \<Longrightarrow> shard_inv H sh"
  using shard_ok_at unfolding shard_ok_def by (metis in_set_conv_nth)

lemma shard_live_other: "map_inv H m \<Longrightarrow> i < length (cm_shards m) \<Longrightarrow>
    shard_live (cm_shards m ! i) k = (if shard_of m (H k) = i then cm_live H m k else None)"
  using shard_ok_at [of H m i] unfolding shard_ok_def cm_live_def by auto

lemma map_pairs_law:
  assumes inv: "map_inv H m"
  shows "distinct (map fst (map_pairs m))" "(k, v) \<in> set (map_pairs m) \<longleftrightarrow> cm_map H m k = Some v"
proof -
  let ?shs = "cm_shards m"
  have mem: "(k, v) \<in> set (live_pairs (?shs ! i)) \<longleftrightarrow> shard_of m (H k) = i \<and> cm_map H m k = Some v" if i: "i < length ?shs" for i k v
  proof -
    have si: "shard_inv H (?shs ! i)" using shard_inv_mem [OF inv] i by simp
    show ?thesis
      unfolding map_of_eq_Some_iff [OF live_pairs_law(1) [OF si], symmetric] live_pairs_law(2) [OF si] shard_live_other [OF inv i]
      by (simp add: cm_map_def)
  qed
  show "(k, v) \<in> set (map_pairs m) \<longleftrightarrow> cm_map H m k = Some v"
  proof -
    have "(k, v) \<in> set (map_pairs m) \<longleftrightarrow> (\<exists>i < length ?shs. (k, v) \<in> set (live_pairs (?shs ! i)))"
      unfolding map_pairs_def set_concat set_map UN_iff by (metis (no_types, lifting) image_iff in_set_conv_nth)
    then show ?thesis using mem shard_of_lt [OF inv, of "H k"] by auto
  qed
  have "distinct (concat (map (map fst \<circ> live_pairs) ?shs))"
  proof (rule distinct_concat_tag)
    fix i assume i: "i < length (map (map fst \<circ> live_pairs) ?shs)"
    then have si: "shard_inv H (?shs ! i)" using shard_inv_mem [OF inv] by simp
    show "distinct (map (map fst \<circ> live_pairs) ?shs ! i)" using i live_pairs_law(1) [OF si] by simp
    show "shard_of m (H k) = i" if "k \<in> set (map (map fst \<circ> live_pairs) ?shs ! i)" for k
      using that i mem [of i k] by auto
  qed
  then show "distinct (map fst (map_pairs m))" by (simp add: map_pairs_def map_concat)
qed

section \<open>Walking over the slots of a shard\<close>

lemma names_Nil [simp]: "\<not> names heap [] k"
  by (simp add: names_def)

lemma names_Cons:
  "names heap (w # ws) k \<longleftrightarrow> (decode w \<noteq> 0 \<and> (\<exists>e. heap (decode w) = Some e \<and> e_key e = k)) \<or> names heap ws k"
  by (auto simp: names_def)

lemma names_same: "same_slots i m m' \<Longrightarrow> names (sh_heap (cm_shards m' ! i)) ws k = names (sh_heap (cm_shards m ! i)) ws k"
proof -
  assume s: "same_slots i m m'"
  have "(\<exists>e. sh_heap (cm_shards m' ! i) p = Some e \<and> e_key e = k) \<longleftrightarrow> (\<exists>e. sh_heap (cm_shards m ! i) p = Some e \<and> e_key e = k)" for p
  proof -
    have "map_option e_key (sh_heap (cm_shards m' ! i) p) = map_option e_key (sh_heap (cm_shards m ! i) p)"
      using s by (simp add: same_slots_def)
    then show ?thesis by (cases "sh_heap (cm_shards m' ! i) p"; cases "sh_heap (cm_shards m ! i) p") auto
  qed
  then show ?thesis unfolding names_def by blast
qed

lemma same_slots_refl [simp]: "same_slots i m m"
  by (simp add: same_slots_def)

lemma same_slots_trans: "same_slots i m m' \<Longrightarrow> same_slots i m' m'' \<Longrightarrow> same_slots i m m''"
  by (simp add: same_slots_def)

lemma same_slots_touched [simp]: "same_slots i m (touched k m') = same_slots i m m'"
  by (simp add: same_slots_def)

text \<open>A slot that points somewhere points to an entry; a live one is the entry its key stands for, a dead one has no other in its shard.\<close>

lemma slot_cases:
  assumes inv: "map_inv H m" and i: "i < length (cm_shards m)" and w: "w \<in> set (table_slots (sh_table (cm_shards m ! i)))"
    and p: "decode w \<noteq> 0"
  obtains (dead) e where "sh_heap (cm_shards m ! i) (decode w) = Some e" "\<not> state_occupied (e_state e)" "e_value e = None"
      "shard_of m (H (e_key e)) = i \<Longrightarrow> cm_map H m (e_key e) = None"
  | (live) e j v st where "sh_heap (cm_shards m ! i) (decode w) = Some e" "state_occupied (e_state e)" "e_value e = Some v"
      "shard_of m (H (e_key e)) = i" "cm_live H m (e_key e) = Some e" "cm_map H m (e_key e) = Some v"
      "holds H (sh_heap (cm_shards m ! i)) (sh_table (cm_shards m ! i)) j (decode w) e" "state_lock (e_state e) = Some st"
      "\<And>n. n \<noteq> 0 \<Longrightarrow> bit st n = bit (e_state e) n" "state_occupied st"
proof -
  let ?sh = "cm_shards m ! i"
  have ok: "shard_ok H m i ?sh" by (rule shard_ok_at [OF inv i])
  then have ti: "table_inv H (sh_heap ?sh) (sh_table ?sh)" unfolding shard_ok_def shard_inv_def by blast
  obtain j where j: "j < tb_capacity (sh_table ?sh)" "w = tb_slots (sh_table ?sh) ! j"
    using nth_table_slots [OF inv_tb_ok [OF ti]] w by (metis in_set_conv_nth)
  have "tb_slots (sh_table ?sh) ! j \<noteq> 0" using p j(2) by auto
  then obtain q e where h: "holds H (sh_heap ?sh) (sh_table ?sh) j q e" using slot_word [OF ti j(1)] by blast
  have q: "decode w = q" unfolding j(2) by (rule holds_decode [OF h])
  have e: "sh_heap ?sh (decode w) = Some e" "entry_ok H e" using h q by (auto simp: holds_def)
  have at: "entry_at (sh_heap ?sh) (sh_table ?sh) (e_key e) = Some e" using h entry_at_iff [OF ti] by blast
  have occ: "state_occupied (e_state e) \<longleftrightarrow> e_value e \<noteq> None" using e(2) by (simp add: entry_ok_def state_occupied_bit)
  have lv: "shard_live ?sh (e_key e) = (if e_value e = None then None else Some e)"
    by (simp add: shard_live_def live_entry_def at)
  show thesis
  proof (cases "e_value e")
    case None
    then show thesis using e(1) occ lv by (intro dead) (auto simp: cm_map_def cm_live_def)
  next
    case (Some v)
    obtain st where st: "state_lock (e_state e) = Some st" "\<And>n. n \<noteq> 0 \<Longrightarrow> bit st n = bit (e_state e) n"
        "state_occupied st \<longleftrightarrow> e_value e \<noteq> None"
      by (rule locked_entry [OF e(2)]) blast
    have so: "shard_of m (H (e_key e)) = i" using ok lv Some unfolding shard_ok_def by simp
    then have "cm_live H m (e_key e) = Some e" using lv Some by (simp add: cm_live_def)
    then show thesis using e(1) occ Some st so h q by (intro live [where e = e and v = v and j = j and st = st]) (simp_all add: cm_map_def)
  qed
qed

lemma without_none [simp]: "without (\<lambda>k. False) f M = M"
  by (rule ext) (simp add: without_def split: option.split)

lemma retain_loop_law:
  fixes m :: "'v custom_map"
  shows "map_inv H m \<Longrightarrow> i < length (cm_shards m) \<Longrightarrow> set ws \<subseteq> set (table_slots (sh_table (cm_shards m ! i))) \<Longrightarrow>
     \<exists>m'. retain_loop f i ws m = Some m' \<and> map_inv H m' \<and> same_frame m m' \<and> length (cm_shards m') = length (cm_shards m)
       \<and> same_slots i m m'
       \<and> cm_map H m' = without (\<lambda>k. shard_of m (H k) = i \<and> names (sh_heap (cm_shards m ! i)) ws k) f (cm_map H m)"
proof (induction ws arbitrary: m)
  case (Cons w ws)
  let ?sh = "cm_shards m ! i"
  let ?N = "\<lambda>ws k. shard_of m (H k) = i \<and> names (sh_heap ?sh) ws k"
  have at: "vget (cm_shards m) i = Some ?sh" using Cons.prems(2) by (simp add: vget_def)
  have w: "w \<in> set (table_slots (sh_table ?sh))" and ws: "set ws \<subseteq> set (table_slots (sh_table ?sh))" using Cons.prems(3) by simp_all
  have skip: ?case if r: "retain_loop f i (w # ws) m = retain_loop f i ws m" and M: "without (?N (w # ws)) f (cm_map H m) = without (?N ws) f (cm_map H m)"
    using Cons.IH [OF Cons.prems(1,2) ws] unfolding r M .
  show ?case
  proof (cases "decode w = 0")
    case True
    then show ?thesis by (intro skip) (simp_all add: names_Cons)
  next
    case p: False
    from Cons.prems(1,2) w p show ?thesis
    proof (cases rule: slot_cases)
      case (dead e)
      have "without (?N (w # ws)) f (cm_map H m) k = without (?N ws) f (cm_map H m) k" for k
        using dead(1,4) p by (cases "cm_map H m k") (auto simp: without_def names_Cons)
      then show ?thesis using dead p at by (intro skip) (simp_all add: fun_eq_iff)
    next
      case (live e j v st)
      show ?thesis
      proof (cases "f (e_key e) v")
        case True
        have "without (?N (w # ws)) f (cm_map H m) k = without (?N ws) f (cm_map H m) k" for k
          using live(1,6) p True by (cases "cm_map H m k") (auto simp: without_def names_Cons)
        then show ?thesis using live p at True by (intro skip) (simp_all add: fun_eq_iff)
      next
        case False
        obtain m1 m2 where d: "entry_write None False i (decode w) (e\<lparr>e_state := st\<rparr>) m = Some m1" "bump i False m1 = Some m2"
            "map_changes H (e_key e) None m m2" "same_slots i m m2"
          using drop_law [OF Cons.prems(1) live(5), of j "decode w" st] live(4,7,9) by metis
        let ?m = "touched (e_key e) m2"
        have fr: "map_inv H ?m" "same_frame m ?m" "cm_map H ?m = (cm_map H m)(e_key e := None)"
          using d(3) changes_map [OF d(3)] by (simp_all add: map_changes_def)
        have len: "length (cm_shards ?m) = length (cm_shards m)"
          using fr(1,2) Cons.prems(1) unfolding map_inv_def same_frame_def by (metis Suc_pred' zero_less_numeral zero_less_power)
        have ss: "same_slots i m ?m" using d(4) by simp
        have "set ws \<subseteq> set (table_slots (sh_table (cm_shards ?m ! i)))" using ws ss by (simp add: same_slots_def)
        then obtain m' where m': "retain_loop f i ws ?m = Some m'" "map_inv H m'" "same_frame ?m m'"
            "length (cm_shards m') = length (cm_shards ?m)" "same_slots i ?m m'"
            "cm_map H m' = without (\<lambda>k. shard_of ?m (H k) = i \<and> names (sh_heap (cm_shards ?m ! i)) ws k) f (cm_map H ?m)"
          using Cons.IH [OF fr(1), of] Cons.prems(2) len by auto
        have "cm_map H m' = without (?N ws) f ((cm_map H m)(e_key e := None))"
          unfolding m'(6) fr(3) names_same [OF ss] same_frame_shard_of [OF fr(2)] ..
        also have "\<dots> = without (?N (w # ws)) f (cm_map H m)"
          using live(1,4,6) p False by (auto simp: fun_eq_iff without_def names_Cons split: option.split)
        finally have M: "cm_map H m' = without (?N (w # ws)) f (cm_map H m)" .
        have "retain_loop f i (w # ws) m = Some m'"
          using p live False d(1,2) m'(1) at by (simp add: drop_entry_def)
        then show ?thesis using m'(2,4) len M same_frame_trans [OF fr(2) m'(3)] same_slots_trans [OF ss m'(5)] by auto
      qed
    qed
  qed
qed simp

lemma walk_state:
  assumes "map_inv H m" "map_inv H m'" "same_frame m m'"
  shows "length (cm_shards m') = length (cm_shards m)"
  using assms unfolding map_inv_def same_frame_def by (metis Suc_pred' zero_less_numeral zero_less_power)

lemma names_all:
  assumes inv: "map_inv H m" and k: "cm_map H m k = Some v"
  shows "names (sh_heap (cm_shards m ! shard_of m (H k))) (table_slots (sh_table (cm_shards m ! shard_of m (H k)))) k"
proof -
  let ?sh = "cm_shards m ! shard_of m (H k)"
  have si: "shard_inv H ?sh" by (rule shard_at_inv(1) [OF inv])
  obtain e where e: "shard_live ?sh k = Some e" using k by (auto simp: cm_map_def cm_live_def split: bind_splits)
  obtain i p where h: "holds H (sh_heap ?sh) (sh_table ?sh) i p e" "e_key e = k"
    by (rule shard_live_holds [OF si e])
  have "tb_slots (sh_table ?sh) ! i \<in> set (table_slots (sh_table ?sh))"
    using h(1) nth_table_slots [OF inv_tb_ok] si unfolding holds_def shard_inv_def by (metis nth_mem)
  moreover have "decode (tb_slots (sh_table ?sh) ! i) = p" by (rule holds_decode [OF h(1)])
  moreover have "p \<noteq> 0" "sh_heap ?sh p = Some e" using h(1) by (auto simp: holds_def ptr_ok_def)
  ultimately show ?thesis using h(2) unfolding names_def by metis
qed

lemma retain_shard_law:
  assumes inv: "map_inv H m" and i: "i < length (cm_shards m)"
  obtains m' where "retain_loop f i (table_slots (sh_table (cm_shards m ! i))) m = Some m'" "map_inv H m'" "same_frame m m'"
    "cm_map H m' = without (\<lambda>k. shard_of m (H k) = i) f (cm_map H m)"
proof -
  let ?N = "\<lambda>k. shard_of m (H k) = i \<and> names (sh_heap (cm_shards m ! i)) (table_slots (sh_table (cm_shards m ! i))) k"
  have "without ?N f (cm_map H m) k = without (\<lambda>k. shard_of m (H k) = i) f (cm_map H m) k" for k
    using names_all [OF inv, of k] by (auto simp: without_def split: option.split)
  then show thesis using retain_loop_law [OF inv i subset_refl, of f] that by (auto simp: fun_eq_iff)
qed

lemma retain_shards_law:
  "map_inv H m \<Longrightarrow> (\<And>i. i \<in> set is \<Longrightarrow> i < length (cm_shards m)) \<Longrightarrow>
     \<exists>m'. retain_shards f is m = Some m' \<and> map_inv H m' \<and> same_frame m m'
       \<and> cm_map H m' = without (\<lambda>k. shard_of m (H k) \<in> set is) f (cm_map H m)"
proof (induction "is" arbitrary: m)
  case (Cons i "is")
  have i: "i < length (cm_shards m)" by (simp add: Cons.prems(2))
  obtain m1 where m1: "retain_loop f i (table_slots (sh_table (cm_shards m ! i))) m = Some m1" "map_inv H m1" "same_frame m m1"
      "cm_map H m1 = without (\<lambda>k. shard_of m (H k) = i) f (cm_map H m)"
    by (rule retain_shard_law [OF Cons.prems(1) i])
  have "\<And>j. j \<in> set is \<Longrightarrow> j < length (cm_shards m1)"
    unfolding walk_state [OF Cons.prems(1) m1(2,3)] by (simp add: Cons.prems(2))
  then obtain m' where m': "retain_shards f is m1 = Some m'" "map_inv H m'" "same_frame m1 m'"
      "cm_map H m' = without (\<lambda>k. shard_of m1 (H k) \<in> set is) f (cm_map H m1)"
    using Cons.IH [OF m1(2)] by blast
  have "cm_map H m' = without (\<lambda>k. shard_of m (H k) \<in> set (i # is)) f (cm_map H m)"
    unfolding m'(4) m1(4) same_frame_shard_of [OF m1(3)] by (auto simp: fun_eq_iff without_def split: option.split)
  then show ?case using m1 m'(1,2) same_frame_trans [OF m1(3) m'(3)] i by (auto simp: vget_def)
qed simp

text \<open>C14. \<^verbatim>\<open>retain\<close> keeps exactly the keys whose values pass the test and leaves their values alone, in every shard; it always ends,
  and the invariant holds afterwards.\<close>

theorem retain_correct:
  assumes "map_inv H m"
  shows "\<exists>m'. cm_retain f m = Some m' \<and> map_inv H m'
    \<and> cm_map H m' = (\<lambda>k. case cm_map H m k of None \<Rightarrow> None | Some v \<Rightarrow> if f k v then Some v else None)"
proof -
  obtain m' where m': "cm_retain f m = Some m'" "map_inv H m'"
      "cm_map H m' = without (\<lambda>k. shard_of m (H k) \<in> set [0..<length (cm_shards m)]) f (cm_map H m)"
    using retain_shards_law [OF assms, of "[0..<length (cm_shards m)]" f] by (auto simp: cm_retain_def)
  have "cm_map H m' = (\<lambda>k. case cm_map H m k of None \<Rightarrow> None | Some v \<Rightarrow> if f k v then Some v else None)"
    unfolding m'(3) using shard_of_lt [OF assms] by (auto simp: fun_eq_iff without_def split: option.split)
  then show ?thesis using m' by blast
qed

text \<open>C16. \<^verbatim>\<open>keys\<close> lists every live key of the map, each once.\<close>

theorem keys_correct:
  assumes "map_inv H m"
  shows "\<exists>ks. cm_keys m = Some ks \<and> distinct ks \<and> set ks = dom (cm_map H m)"
proof -
  have "for_each (\<lambda>k _ out. out @ [k]) m [] = Some (fold (\<lambda>(k, v) out. out @ [k]) (map_pairs m) [])"
    unfolding for_each_def map_pairs_def
    using walk_shards_law [OF shard_inv_mem [OF assms], of "cm_shards m" "\<lambda>k _ out. out @ [k]" "[]"] by simp
  moreover have "fold (\<lambda>(k, v) out. out @ [k]) ps out = out @ map fst ps" for ps :: "(bytes \<times> 'a) list" and out
    by (induction ps arbitrary: out) auto
  ultimately have "cm_keys m = Some (map fst (map_pairs m))" by (simp add: cm_keys_def)
  moreover have "set (map fst (map_pairs m)) = dom (cm_map H m)"
    using map_pairs_law(2) [OF assms] by (force simp: dom_def)
  ultimately show ?thesis using map_pairs_law(1) [OF assms] by blast
qed

section \<open>Counting and the key limit\<close>

lemma fold_live: "(\<And>sh. sh \<in> set shs \<Longrightarrow> sh_live sh = of_nat (length (live_pairs sh))) \<Longrightarrow>
    fold (\<lambda>s n. n + sh_live s) shs a = a + of_nat (length (concat (map live_pairs shs)))"
  by (induction shs arbitrary: a) (simp_all add: algebra_simps)

lemma map_dom:
  assumes "map_inv H m"
  shows "finite (dom (cm_map H m))" "card (dom (cm_map H m)) = length (map_pairs m)"
proof -
  have d: "dom (cm_map H m) = set (map fst (map_pairs m))" using map_pairs_law(2) [OF assms] by (force simp: dom_def)
  show "finite (dom (cm_map H m))" unfolding d by simp
  show "card (dom (cm_map H m)) = length (map_pairs m)"
    unfolding d using distinct_card [OF map_pairs_law(1) [OF assms]] by simp
qed

lemma len_law:
  assumes inv: "map_inv H m"
  shows "cm_len m = min (card (dom (cm_map H m)) mod 2 ^ 64) (2 ^ 63 - 1)"
proof -
  have "sh_live sh = of_nat (length (live_pairs sh))" if mem: "sh \<in> set (cm_shards m)" for sh
  proof -
    obtain i where "i < length (cm_shards m)" "sh = cm_shards m ! i" using mem by (metis in_set_conv_nth)
    then have "shard_inv H sh" "sh_live sh = of_nat (card (dom (shard_live sh)))"
      using shard_ok_at [OF inv, of i] unfolding shard_ok_def by blast+
    then show ?thesis by (simp add: live_pairs_law(3))
  qed
  then have "fold (\<lambda>s n. n + sh_live s) (cm_shards m) 0 = of_nat (card (dom (cm_map H m)))"
    unfolding map_dom(2) [OF inv] map_pairs_def by (subst fold_live) simp_all
  then show ?thesis by (simp add: cm_len_def unat_of_nat)
qed

text \<open>C9. \<^verbatim>\<open>try_set\<close> and the limit on the number of keys: a map below its limit, or one that holds the key, takes the value and answers
  whether the key is new; a full map refuses a new key and stays as it is.  Written through \<^verbatim>\<open>try_set\<close>, a map never holds more keys than
  its limit.\<close>

theorem try_set_correct:
  assumes "map_inv H m" "roomy 1 m" "free_addr a m" "card (dom (cm_map H m)) < 2 ^ 63"
  shows "\<exists>m'. try_set H a k v m =
      Some (if cm_max_keys m \<noteq> usize_max \<and> cm_max_keys m \<le> card (dom (cm_map H m)) \<and> cm_map H m k = None
            then Err Full else Ok (cm_map H m k = None), m')
    \<and> map_inv H m' \<and> cm_max_keys m' = cm_max_keys m
    \<and> cm_map H m' = (if cm_max_keys m \<noteq> usize_max \<and> cm_max_keys m \<le> card (dom (cm_map H m)) \<and> cm_map H m k = None
                     then cm_map H m else (cm_map H m)(k \<mapsto> v))
    \<and> (cm_max_keys m \<noteq> usize_max \<and> card (dom (cm_map H m)) \<le> cm_max_keys m \<longrightarrow> card (dom (cm_map H m')) \<le> cm_max_keys m)"
proof -
  let ?M = "cm_map H m"
  let ?refused = "cm_max_keys m \<noteq> usize_max \<and> cm_max_keys m \<le> card (dom ?M) \<and> ?M k = None"
  have len: "cm_len m = card (dom ?M)" using assms(4) by (simp add: len_law [OF assms(1)])
  have r: "(if is_full m then map_option Not (key_exists H k m) else Some False) = Some ?refused"
    by (auto simp: is_full_def len lookups(4) [OF assms(1)])
  obtain m1 where m1: "cm_set H a k v m = Some (?M k = None, m1)" "map_changes H k (Some v) m m1"
  proof -
    obtain m1 where "shard_write (set_loop a k (H k) v True) (shard_of m (H k)) k m = Some (?M k = None, m1)"
        "if True \<or> ?M k = None then map_changes H k (Some v) m m1 else unchanged H m m1"
      by (rule shard_write_law [OF assms(1-3)])
    then show thesis using that by (simp add: write_ops)
  qed
  have ch: "map_inv H m1" "cm_max_keys m1 = cm_max_keys m" "cm_map H m1 = ?M(k \<mapsto> v)"
    using m1(2) changes_map [OF m1(2)] by (simp_all add: map_changes_def same_frame_def)
  show ?thesis
  proof (cases ?refused)
    case True
    then have "try_set H a k v m = Some (Err Full, m)" unfolding try_set_def unless_full_def r by simp
    then show ?thesis using True assms(1) by auto
  next
    case False
    then have t: "try_set H a k v m = Some (Ok (?M k = None), m1)"
      unfolding try_set_def unless_full_def r m1(1) by (simp only: bind.simps if_False option.map prod.case)
    have "card (dom (?M(k \<mapsto> v))) \<le> cm_max_keys m" if "cm_max_keys m \<noteq> usize_max" "card (dom ?M) \<le> cm_max_keys m"
      using that False map_dom(1) [OF assms(1)] by (cases "?M k") (auto simp: card_insert_if domIff)
    then show ?thesis unfolding t using False ch by (intro exI [of _ m1]) simp
  qed
qed

section \<open>A map with one key\<close>

lemma map_one_key:
  obtains m where "map_inv (\<lambda>_. 5) m" "cm_map (\<lambda>_. 5) m = [[1] \<mapsto> 7 :: nat]" "cm_max_keys m = 1" "roomy 1 m" "free_addr 32 m"
    "length (cm_shards m) = 1"
proof -
  let ?H = "\<lambda>_ :: bytes. 5 :: 64 word" and ?m = "build 1 8 1 :: nat custom_map"
  have c: "max (next_power_of_two 8) 8 \<le> (2 :: nat) ^ 32" using next_power_of_two_pow [of 3] by simp
  have inv: "map_inv ?H ?m" and e: "cm_map ?H ?m = Map.empty" using build_inv [OF c, of ?H 0 1] by simp_all
  have "ptr_ok 16" "ptr_ok 32" by code_simp+
  then have f: "fits [Put 16 [1] (7 :: nat), Put 32 [2] 8] ?m" by (simp add: fits_def build_fits List.map_filter_simps)
  obtain m where m: "cm_map ?H m = snd (map_exec (Put 16 [1] 7) (cm_map ?H ?m))" "map_inv ?H m"
      "step_from (op_addr (Put 16 [1] (7 :: nat))) ?m m" "unchanged ?H ?m m \<or> (\<exists>k v. map_changes ?H k v ?m m)"
    by (rule exec_law [OF inv fits_Cons(1) [OF f] fits_Cons(2) [OF f]]) blast
  have fr: "same_frame ?m m" using m(4) by (auto simp: unchanged_def map_changes_def)
  note f1 = fits_Cons(3) [OF f m(3)]
  show thesis
  proof (rule that [of m])
    show "length (cm_shards m) = 1" using walk_state [OF inv m(2) fr] by (simp add: build_def)
    show "cm_max_keys m = 1" using fr by (simp add: same_frame_def build_def)
    show "roomy 1 m" "free_addr 32 m" using fits_Cons(1) [OF f1] fits_Cons(2) [OF f1, of 32] by simp_all
  qed (use m(1,2) e in simp_all)
qed

theorem retain_correct_witness:
  "\<exists>(m :: nat custom_map) m'. cm_map (\<lambda>_. 5) m = [[1] \<mapsto> 7] \<and> cm_retain (\<lambda>_ v. v < 5) m = Some m' \<and> cm_map (\<lambda>_. 5) m' = Map.empty"
proof -
  obtain m where m: "map_inv (\<lambda>_. 5) m" "cm_map (\<lambda>_. 5) m = [[1] \<mapsto> 7 :: nat]" by (rule map_one_key)
  obtain m' where "cm_retain (\<lambda>_ v. v < 5) m = Some m'"
      "cm_map (\<lambda>_. 5) m' = (\<lambda>k. case cm_map (\<lambda>_. 5) m k of None \<Rightarrow> None | Some v \<Rightarrow> if v < 5 then Some v else None)"
    using retain_correct [OF m(1), of "\<lambda>_ v. v < 5"] by blast
  then have "cm_retain (\<lambda>_ v. v < 5) m = Some m'" "cm_map (\<lambda>_. 5) m' = Map.empty" by (auto simp: m(2) fun_eq_iff)
  then show ?thesis using m(2) by blast
qed

theorem keys_correct_witness:
  "\<exists>m :: nat custom_map. cm_map (\<lambda>_. 5) m = [[1] \<mapsto> 7] \<and> cm_keys m = Some [[1]]"
proof -
  obtain m where m: "map_inv (\<lambda>_. 5) m" "cm_map (\<lambda>_. 5) m = [[1] \<mapsto> 7 :: nat]" by (rule map_one_key)
  obtain ks where ks: "cm_keys m = Some ks" "distinct ks" "set ks = {[1]}" using keys_correct [OF m(1)] by (auto simp: m(2))
  then have "length ks = 1" using distinct_card [OF ks(2)] by simp
  then have "ks = [[1]]" using ks(3) by (cases ks) auto
  then show ?thesis using ks(1) m(2) by blast
qed

theorem try_set_correct_witness:
  "\<exists>(m :: nat custom_map) m'. cm_map (\<lambda>_. 5) m = [[1] \<mapsto> 7] \<and> try_set (\<lambda>_. 5) 32 [2] 8 m = Some (Err Full, m')
     \<and> cm_map (\<lambda>_. 5) m' = [[1] \<mapsto> 7]"
proof -
  obtain m where m: "map_inv (\<lambda>_. 5) m" "cm_map (\<lambda>_. 5) m = [[1] \<mapsto> 7 :: nat]" "cm_max_keys m = 1" "roomy 1 m" "free_addr 32 m"
    by (rule map_one_key) blast
  have c: "card (dom (cm_map (\<lambda>_. 5) m)) < 2 ^ 63" by (simp add: m(2))
  have "1 \<noteq> usize_max" by (simp add: usize_max_def)
  then have "\<exists>m'. try_set (\<lambda>_. 5) 32 [2] 8 m = Some (Err Full, m') \<and> cm_map (\<lambda>_. 5) m' = [[1] \<mapsto> 7]"
    using try_set_correct [OF m(1,4,5) c, of "[2]" 8] by (auto simp: m(2,3))
  then show ?thesis using m(2) by blast
qed

end
