(* ===== verification/MapBatch.thy ===== *)
theory MapBatch
  imports MapWalks
begin

text \<open>
  Batched lookups: the probes of a batch give, for every key, null or an entry of its shard, and a lookup that is given such a
  hint answers as one without.
\<close>

section \<open>Unrolled loops\<close>

lemma each_map: "(\<And>x. x \<in> set xs \<Longrightarrow> f x = Some (g x)) \<Longrightarrow> each f xs = Some (map g xs)"
  by (induction xs) simp_all

declare unroll8.simps [simp del]

lemma unroll8_map:
  "(\<And>x. x \<in> set xs \<Longrightarrow> f x = Some (h x) \<and> g x = Some (h x)) \<Longrightarrow> unroll8 f g xs = Some (map h xs)"
proof (induction f g xs rule: unroll8.induct)
  case (1 f g xs)
  show ?case
  proof (cases "8 \<le> length xs")
    case True
    have e: "each f (take 8 xs) = Some (map h (take 8 xs))" by (rule each_map) (use 1(2) in \<open>auto dest: in_set_takeD\<close>)
    moreover have "unroll8 f g (drop 8 xs) = Some (map h (drop 8 xs))"
      by (rule 1(1) [OF True e]) (use 1(2) in \<open>auto dest: in_set_dropD\<close>)
    ultimately show ?thesis using True by (subst unroll8.simps) (simp flip: map_append)
  next
    case False
    then show ?thesis using 1(2) each_map [of xs g h] by (subst unroll8.simps) simp
  qed
qed

section \<open>Probes by tag\<close>

lemma straight_result:
  assumes "i + n \<le> length (tb_slots t)" "\<And>w. step w \<noteq> None"
  shows "\<exists>r j. scan_straight step t i n = Some (r, j) \<and> (\<forall>p. r = Hit p \<longrightarrow> j < i + n \<and> step (tb_slots t ! j) = Some (Hit p))"
  using assms(1)
proof (induction n arbitrary: i)
  case (Suc n)
  obtain r where r: "step (tb_slots t ! i) = Some r" using assms(2) by blast
  have g: "vget (tb_slots t) i = Some (tb_slots t ! i)" using Suc.prems by (simp add: vget_def)
  show ?case
  proof (cases "r = Go")
    case True
    obtain r' j where "scan_straight step t (i + 1) n = Some (r', j)" "\<forall>p. r' = Hit p \<longrightarrow> j < (i + 1) + n \<and> step (tb_slots t ! j) = Some (Hit p)"
      using Suc.IH [of "i + 1"] Suc.prems by auto
    then show ?thesis using g r True by (auto simp: scan_straight.simps)
  next
    case False
    then show ?thesis using g r by (cases r) (auto simp: scan_straight.simps)
  qed
qed (simp add: scan_straight.simps)

lemma zero_hi: "word_hi 0 \<noteq> expected_hi h"
proof -
  have "bit (expected_hi h) 14" by (simp add: expected_hi_def bit_ucast_iff bit_or_iff TAG_BITS_def bit_push_bit_iff)
  moreover have "\<not> bit (word_hi 0) 14" by (simp add: word_hi_def)
  ultimately show ?thesis by metis
qed

text \<open>The probe by tag reads inside the table and finds an entry of the table or none.\<close>

lemma probe_law:
  assumes inv: "shard_inv H sh" and i: "i < tb_capacity (sh_table sh)"
  obtains p where "probe_from_base (sh_table sh) i h 16 = Some p"
    "p = 0 \<or> (\<exists>j e. holds H (sh_heap sh) (sh_table sh) j p e)"
proof -
  let ?t = "sh_table sh"
  have ti: "table_inv H (sh_heap sh) ?t" using inv by (simp add: shard_inv_def)
  note t = inv_tb_ok [OF ti]
  have len: "i + 16 \<le> length (tb_slots ?t)" using tb_okD(3) [OF t] i by simp
  obtain r j where r: "scan_straight (probe_tag h) ?t i 16 = Some (r, j)"
      "\<forall>p. r = Hit p \<longrightarrow> j < i + 16 \<and> probe_tag h (tb_slots ?t ! j) = Some (Hit p)"
    using straight_result [OF len, of "probe_tag h"] by (auto simp: probe_tag_def)
  have pf: "probe_from_base ?t i h 16 = Some (case r of Hit p \<Rightarrow> p | _ \<Rightarrow> 0)" by (simp add: probe_from_base_def r(1))
  show thesis
  proof (cases r)
    case (Hit p)
    then have w: "j < i + 16" "word_hi (tb_slots ?t ! j) = expected_hi h" "p = tb_slots ?t ! j AND PTR_MASK"
      using r(2) by (auto simp: probe_tag_def split: if_splits)
    have "tb_slots ?t ! j \<noteq> 0" using w(2) zero_hi by metis
    then have "j < tb_capacity ?t" using w(1) i t unfolding tb_ok_def by (metis add_less_mono1 less_trans not_le)
    then obtain q e where q: "holds H (sh_heap sh) ?t j q e" using slot_word [OF ti] \<open>tb_slots ?t ! j \<noteq> 0\<close> by blast
    then have "p = q" using w(3) encode_ptr [of q "H (e_key e)"] by (simp add: holds_def ptr_ok_def)
    then show thesis using pf Hit q by (intro that [of p]) auto
  qed (use pf in \<open>auto intro: that [of 0]\<close>)
qed

section \<open>Hints\<close>

definition hint_ok :: "hasher \<Rightarrow> 'v custom_map \<Rightarrow> bytes \<Rightarrow> 64 word \<Rightarrow> bool" where
  "hint_ok H m k p \<longleftrightarrow> p = 0 \<or>
     (\<exists>i e. holds H (sh_heap (cm_shards m ! shard_of m (H k))) (sh_table (cm_shards m ! shard_of m (H k))) i p e)"

lemma hint_lookup:
  assumes inv: "map_inv H m" and h: "hint_ok H m k p"
  shows "with_entry_hint k (H k) p f m = Some (map_option f (cm_map H m k))"
proof (cases "p = 0")
  case True
  then show ?thesis using lookups(7) [OF inv] shard_at(1) [OF inv, of "H k"] by (simp add: with_entry_hint_def Let_def)
next
  case False
  let ?sh = "cm_shards m ! shard_of m (H k)"
  have si: "shard_inv H ?sh" by (rule shard_at_inv(1) [OF inv])
  have ti: "table_inv H (sh_heap ?sh) (sh_table ?sh)" using si by (simp add: shard_inv_def)
  obtain i e where e: "holds H (sh_heap ?sh) (sh_table ?sh) i p e" using h False by (auto simp: hint_ok_def)
  have hp: "sh_heap ?sh p = Some e" "entry_ok H e" using e by (auto simp: holds_def)
  show ?thesis
  proof (cases "e_state e AND STATE_MATCH_MASK = expected_match (H k) \<and> e_key e = k")
    case True
    then obtain v where v: "e_value e = Some v" using hp(2) by (auto simp: match_iff entry_ok_def)
    have "entry_at (sh_heap ?sh) (sh_table ?sh) k = Some e" using e True by (auto simp: entry_at_iff [OF ti])
    then have "cm_map H m k = Some v" using v shard_live_entry by (simp add: cm_map_def cm_live_def shard_live_entry)
    then show ?thesis using True v hp False shard_at(1) [OF inv, of "H k"] by (simp add: with_entry_hint_def Let_def)
  next
    case m: False
    then show ?thesis using hp False lookups(7) [OF inv] shard_at(1) [OF inv, of "H k"]
      by (auto simp: with_entry_hint_def Let_def)
  qed
qed

lemma slot_of_law: "map_inv H m \<Longrightarrow> slot_of H m k =
    Some (H k, Some (shard_of m (H k), home H (sh_table (cm_shards m ! shard_of m (H k))) k))"
  using shard_at(1) [of H m "H k"] shard_at_inv(1) [of H m "H k"] home_and [of "sh_table (cm_shards m ! shard_of m (H k))" H k]
    inv_tb_ok [of H "sh_heap (cm_shards m ! shard_of m (H k))" "sh_table (cm_shards m ! shard_of m (H k))"]
  by (simp add: slot_of_def locate_shard shard_inv_def)

lemma prefetch_slots_law:
  assumes inv: "map_inv H m" and n: "length hashes = length keys" "length tables = length keys"
  shows "prefetch_slots H m keys hashes tables =
    Some (map H keys, map (\<lambda>k. Some (shard_of m (H k), home H (sh_table (cm_shards m ! shard_of m (H k))) k)) keys)"
  using unroll8_map [of keys "slot_of H m" "\<lambda>k. (H k, Some (shard_of m (H k), home H (sh_table (cm_shards m ! shard_of m (H k))) k))" "slot_of H m"]
    slot_of_law [OF inv] n
  by (simp add: prefetch_slots_def Let_def comp_def)

lemma probe_ptr_law:
  assumes inv: "map_inv H m"
  obtains p where "probe_ptr m (Some (shard_of m (H k), home H (sh_table (cm_shards m ! shard_of m (H k))) k), H k) = Some p"
    "hint_ok H m k p"
proof -
  let ?sh = "cm_shards m ! shard_of m (H k)"
  have si: "shard_inv H ?sh" by (rule shard_at_inv(1) [OF inv])
  then have "home H (sh_table ?sh) k < tb_capacity (sh_table ?sh)"
    using home_lt inv_tb_ok [of H "sh_heap ?sh" "sh_table ?sh"] by (simp add: shard_inv_def)
  from probe_law [OF si this, of "H k"] obtain p where p: "probe_from_base (sh_table ?sh) (home H (sh_table ?sh) k) (H k) 16 = Some p"
    "p = 0 \<or> (\<exists>j e. holds H (sh_heap ?sh) (sh_table ?sh) j p e)" by blast
  then show thesis using shard_at(1) [OF inv, of "H k"] by (intro that [of p]) (simp_all add: probe_ptr_def hint_ok_def)
qed

text \<open>
  C8. A batch of up to thirty-two keys is hashed and probed with no access outside the tables, in the unrolled loops and in the loops over what
  is left, and every key looked up through its hint gives what the map holds for it.
\<close>

theorem batch_lookup_correct:
  assumes "map_inv H m" and "length keys \<le> PREFETCH_BATCH" and "length hashes = length keys" and "length entries = length keys"
  shows "\<exists>ps. prefetch_batch_entries H m keys hashes entries = Some (map H keys, ps) \<and> length ps = length keys
    \<and> (\<forall>i < length keys. with_entry_hint (keys ! i) (H (keys ! i)) (ps ! i) f m = Some (map_option f (cm_map H m (keys ! i))))"
proof -
  let ?slot = "\<lambda>k. Some (shard_of m (H k), home H (sh_table (cm_shards m ! shard_of m (H k))) k)"
  have "\<forall>k. \<exists>p. probe_ptr m (?slot k, H k) = Some p \<and> hint_ok H m k p"
    using probe_ptr_law [OF assms(1)] by blast
  from choice [OF this] obtain P where P: "\<And>k. probe_ptr m (?slot k, H k) = Some (P k)" "\<And>k. hint_ok H m k (P k)" by blast
  let ?Q = "\<lambda>th. the (probe_ptr m th)"
  have z: "zip (map ?slot keys) (map H keys) = map (\<lambda>k. (?slot k, H k)) keys" by (induction keys) simp_all
  have u: "unroll8 (probe_ptr m) (probe_ptr_checked m) (zip (map ?slot keys) (map H keys)) = Some (map ?Q (zip (map ?slot keys) (map H keys)))"
    by (rule unroll8_map) (auto simp: z P(1) probe_ptr_checked_def)
  have pe: "probe_and_prefetch_entries m (map ?slot keys) (map H keys) entries = Some (map P keys)"
    using u assms(4) by (simp add: probe_and_prefetch_entries_def Let_def z P(1) comp_def)
  have ps: "prefetch_slots H m keys hashes (replicate (length keys) None) = Some (map H keys, map ?slot keys)"
    by (rule prefetch_slots_law [OF assms(1,3)]) simp
  have "prefetch_batch_entries H m keys hashes entries = Some (map H keys, map P keys)"
  proof (cases "keys = []")
    case True
    then show ?thesis using assms(3,4) by (simp add: prefetch_batch_entries_def)
  next
    case False
    have n: "min (min (min (length keys) PREFETCH_BATCH) (length hashes)) (length entries) = length keys" using assms(2-4) by simp
    show ?thesis unfolding prefetch_batch_entries_def Let_def n using False ps pe assms(3,4) by simp
  qed
  moreover have "with_entry_hint k (H k) (P k) f m = Some (map_option f (cm_map H m k))" for k
    by (rule hint_lookup [OF assms(1) P(2)])
  ultimately show ?thesis by (intro exI [of _ "map P keys"]) simp
qed

theorem batch_lookup_correct_witness:
  "\<exists>(m :: nat custom_map) ps. cm_map (\<lambda>_. 5) m = [[1] \<mapsto> 7]
     \<and> prefetch_batch_entries (\<lambda>_. 5) m [[1], [2]] [0, 0] [0, 0] = Some ([5, 5], ps)
     \<and> with_entry_hint [1] 5 (ps ! 0) id m = Some (Some 7) \<and> with_entry_hint [2] 5 (ps ! 1) id m = Some None"
proof -
  obtain m where m: "map_inv (\<lambda>_. 5) m" "cm_map (\<lambda>_. 5) m = [[1] \<mapsto> 7 :: nat]" by (rule map_one_key)
  obtain ps where "prefetch_batch_entries (\<lambda>_. 5) m [[1], [2]] [0, 0] [0, 0] = Some ([5, 5], ps)"
      "\<And>i. i < 2 \<Longrightarrow> with_entry_hint ([[1], [2]] ! i) 5 (ps ! i) id m = Some (map_option id (cm_map (\<lambda>_. 5) m ([[1], [2]] ! i)))"
    using batch_lookup_correct [OF m(1), of "[[1], [2]]" "[0, 0]" "[0, 0]" id] by (auto simp: PREFETCH_BATCH_def)
  from this(1) this(2) [of 0] this(2) [of 1] m(2) show ?thesis by (intro exI [of _ m] exI [of _ ps]) simp
qed

end
