(* ===== verification/MapContract.thy ===== *)
theory MapContract
  imports MapWalks Store
begin

text \<open>
  The concurrent map (\<^verbatim>\<open>crates/customhash\<close>) keeps the contract through which the commands of the store use it
  (\<^verbatim>\<open>cmap\<close> in \<^verbatim>\<open>Store\<close>), the notifications of the write observer included.
\<close>

section \<open>The map as the store sees it\<close>

text \<open>The writes the observer was told about, and the map of the contract.\<close>

fun wrote :: "notice \<Rightarrow> bytes option" where
  "wrote (Wrote k) = Some k"
| "wrote Cleared = None"

definition cmap_of :: "hasher \<Rightarrow> 'v custom_map \<Rightarrow> 'v cmap" where
  "cmap_of H m = \<lparr>cm_entries = cm_map H m, cm_observing = (CustomMap.cm_observing m \<and> cm_observer m),
     cm_notified = List.map_filter wrote (cm_notes m)\<rparr>"

definition contract_step :: "hasher \<Rightarrow> 'v custom_map \<Rightarrow> ('r \<times> 'v custom_map) option \<Rightarrow> 'r \<times> 'v cmap \<Rightarrow> bool" where
  "contract_step H m x y \<longleftrightarrow> (\<exists>m'. x = Some (fst y, m') \<and> cmap_of H m' = snd y \<and> map_inv H m')"

lemma notes_touched:
  "cm_notes (touched k m) = cm_notes m @ (if CustomMap.cm_observing m \<and> cm_observer m then [Wrote k] else [])"
  by (simp add: touched_def notify_def)

lemma put_notes [simp]:
  "cm_notes (put_shard i sh m) = cm_notes m" "cm_observer (put_shard i sh m) = cm_observer m"
  "CustomMap.cm_observing (put_shard i sh m) = CustomMap.cm_observing m"
  by (simp_all add: put_shard_def)

lemma bump_notes: "bump i up m = Some m' \<Longrightarrow> cm_notes m' = cm_notes m \<and> cm_observer m' = cm_observer m
    \<and> CustomMap.cm_observing m' = CustomMap.cm_observing m"
  by (auto simp: bump_def split: bind_splits)

lemma entry_write_notes: "entry_write v occ i p e m = Some m' \<Longrightarrow> cm_notes m' = cm_notes m \<and> cm_observer m' = cm_observer m
    \<and> CustomMap.cm_observing m' = CustomMap.cm_observing m"
  by (auto simp: entry_write_def split: bind_splits)

lemma entry_release_notes: "entry_release i p e m = Some m' \<Longrightarrow> cm_notes m' = cm_notes m"
  by (auto simp: entry_release_def split: bind_splits)

text \<open>What each kind of write tells the observer.\<close>

lemma shard_write_notes:
  assumes "shard_write f i k m = Some (b, m')"
  shows "cm_notes m' = cm_notes (touched k m)"
proof -
  obtain sn sh m1 where m: "(if b then bump i True ((put_shard i sh m)\<lparr>cm_snap := sn\<rparr>) else Some ((put_shard i sh m)\<lparr>cm_snap := sn\<rparr>)) = Some m1"
      "m' = touched k m1"
    using assms by (auto simp: shard_write_def Let_def split: bind_splits if_splits)
  then have "cm_notes m1 = cm_notes m \<and> cm_observer m1 = cm_observer m \<and> CustomMap.cm_observing m1 = CustomMap.cm_observing m"
    by (cases b) (auto dest!: bump_notes)
  then show ?thesis by (simp add: m(2) notes_touched)
qed

lemma remove_entry_notes:
  assumes "remove_entry H k m = Some (r, m')"
  shows "cm_notes m' = (if r = None then cm_notes m else cm_notes (touched k m))"
  using assms unfolding remove_entry_def
  by (auto simp: notes_touched split: bind_splits option.splits if_splits prod.splits
      dest!: bump_notes entry_write_notes entry_release_notes)

lemma update_entry_notes:
  assumes "update_entry k hi f m = Some (r, m')"
  shows "cm_notes m' = (if r = None then cm_notes m else cm_notes (touched k m))"
  using assms unfolding update_entry_def
  by (auto simp: notes_touched split: bind_splits option.splits if_splits prod.splits
      dest!: bump_notes entry_write_notes entry_release_notes)

lemma same_frame_flags: "same_frame m m' \<Longrightarrow>
    CustomMap.cm_observing m' = CustomMap.cm_observing m \<and> cm_observer m' = cm_observer m"
  by (simp add: same_frame_def)

text \<open>A step that writes, and one that does not, seen from the contract.\<close>

lemma cmap_of_touched:
  assumes "same_frame m m'" "cm_notes m' = cm_notes (touched k m)" "cm_map H m' = M"
  shows "cmap_of H m' = cm_touched k ((cmap_of H m)\<lparr>cm_entries := M\<rparr>)"
  using same_frame_flags [OF assms(1)] assms(2,3)
  by (simp add: cmap_of_def cm_touched_def notes_touched List.map_filter_simps map_filter_def)

lemma contract_simps [simp]:
  "cm_entries (cmap_of H m) = cm_map H m"
  "cm_put k v (cmap_of H m) = (cmap_of H m)\<lparr>cm_entries := (cm_map H m)(k \<mapsto> v)\<rparr>"
  "cm_drop k (cmap_of H m) = (cmap_of H m)\<lparr>cm_entries := (cm_map H m)(k := None)\<rparr>"
  "(cmap_of H m)\<lparr>cm_entries := cm_map H m\<rparr> = cmap_of H m"
  by (simp_all add: cmap_of_def cm_put_def cm_drop_def)

lemma insert_contract:
  assumes "map_inv H m" "roomy 1 m" "free_addr a m"
  shows "contract_step H m (map_insert H a k v m) (cm_insert k v (cmap_of H m))"
    "contract_step H m (insert_if_absent H a k v m) (cm_insert_if_absent k v (cmap_of H m))"
proof -
  obtain m' where w: "shard_write (set_loop a k (H k) v True) (shard_of m (H k)) k m = Some (cm_map H m k = None, m')"
      "if True \<or> cm_map H m k = None then map_changes H k (Some v) m m' else unchanged H m m'"
    by (rule shard_write_law [OF assms])
  have ch: "map_changes H k (Some v) m m'" using w(2) by simp
  have "cmap_of H m' = cm_touched k ((cmap_of H m)\<lparr>cm_entries := (cm_map H m)(k \<mapsto> v)\<rparr>)"
    using ch by (intro cmap_of_touched shard_write_notes [OF w(1)] changes_map) (simp_all add: map_changes_def)
  then show "contract_step H m (map_insert H a k v m) (cm_insert k v (cmap_of H m))"
    using w(1) ch by (auto simp: contract_step_def write_ops cm_insert_def map_changes_def)
next
  obtain m' where w: "shard_write (set_loop a k (H k) v False) (shard_of m (H k)) k m = Some (cm_map H m k = None, m')"
      "if False \<or> cm_map H m k = None then map_changes H k (Some v) m m' else unchanged H m m'"
    by (rule shard_write_law [OF assms])
  note n = shard_write_notes [OF w(1)]
  show "contract_step H m (insert_if_absent H a k v m) (cm_insert_if_absent k v (cmap_of H m))"
  proof (cases "cm_map H m k")
    case None
    then have ch: "map_changes H k (Some v) m m'" using w(2) by simp
    have "cmap_of H m' = cm_touched k ((cmap_of H m)\<lparr>cm_entries := (cm_map H m)(k \<mapsto> v)\<rparr>)"
      using ch by (intro cmap_of_touched n changes_map) (simp_all add: map_changes_def)
    then show ?thesis using w(1) ch None by (auto simp: contract_step_def write_ops cm_insert_if_absent_def map_changes_def)
  next
    case (Some v')
    then have un: "unchanged H m m'" using w(2) by simp
    have "cmap_of H m' = cm_touched k ((cmap_of H m)\<lparr>cm_entries := cm_map H m\<rparr>)"
      using un by (intro cmap_of_touched n unchanged_map) (simp_all add: unchanged_def)
    then show ?thesis using w(1) un Some by (auto simp: contract_step_def write_ops cm_insert_if_absent_def unchanged_def)
  qed
qed

lemma remove_contract:
  assumes "map_inv H m"
  shows "contract_step H m (map_remove H k m) (cm_remove k (cmap_of H m))"
proof -
  obtain m' where w: "remove_entry H k m = Some (cm_map H m k, m')" "if cm_map H m k = None then m' = m else map_changes H k None m m'"
    by (rule remove_entry_law [OF assms])
  note n = remove_entry_notes [OF w(1)]
  show ?thesis
  proof (cases "cm_map H m k")
    case None
    then show ?thesis using w assms by (simp add: contract_step_def map_remove_def cm_remove_def)
  next
    case (Some v)
    then have ch: "map_changes H k None m m'" using w(2) by simp
    have "cmap_of H m' = cm_touched k ((cmap_of H m)\<lparr>cm_entries := (cm_map H m)(k := None)\<rparr>)"
      using ch n Some by (intro cmap_of_touched changes_map) (simp_all add: map_changes_def)
    then show ?thesis using w(1) ch Some by (auto simp: contract_step_def map_remove_def cm_remove_def map_changes_def)
  qed
qed

lemma update_contract:
  assumes "map_inv H m"
  shows "\<exists>y. cm_update_with k (\<lambda>v. Some (snd (g v), fst (g v))) (cmap_of H m) = Some y \<and> contract_step H m (update_with H k g m) y"
proof -
  obtain m' where w: "update_entry k (H k, shard_of m (H k)) (Some \<circ> g) m =
      Some (case cm_map H m k of None \<Rightarrow> None | Some v \<Rightarrow> map_option snd ((Some \<circ> g) v), m')"
      "case cm_map H m k \<bind> (Some \<circ> g) of None \<Rightarrow> m' = m | Some (w, _) \<Rightarrow> map_changes H k (Some w) m m'"
    by (rule update_entry_law [OF assms])
  note n = update_entry_notes [OF w(1)]
  have u: "update_with H k g m = update_entry k (H k, shard_of m (H k)) (Some \<circ> g) m"
    by (simp add: update_with_def update_with_hinted_def locate_hinted_def locate_shard)
  show ?thesis
  proof (cases "cm_map H m k")
    case None
    then show ?thesis using w assms by (simp add: u contract_step_def cm_update_with_def)
  next
    case (Some v)
    then have ch: "map_changes H k (Some (fst (g v))) m m'" using w(2) by (simp add: split_beta)
    have "cmap_of H m' = cm_touched k ((cmap_of H m)\<lparr>cm_entries := (cm_map H m)(k \<mapsto> fst (g v))\<rparr>)"
      using ch n Some by (intro cmap_of_touched changes_map) (simp_all add: map_changes_def)
    then show ?thesis using w(1) ch Some by (auto simp: u contract_step_def cm_update_with_def map_changes_def)
  qed
qed

text \<open>
  C3. The concurrent map keeps the contract the commands of the store rest on: a lookup, an insertion, an insertion of an absent
  key, a removal and an update answer what the contract says, leave the map and the keys the observer was told about as the contract
  says, and keep the invariant.
\<close>

theorem map_meets_contract:
  assumes "map_inv H m" "roomy 1 m" "free_addr a m"
  shows "get_ref H k m = Some (cm_get_ref k (cmap_of H m))
    \<and> contract_step H m (map_insert H a k v m) (cm_insert k v (cmap_of H m))
    \<and> contract_step H m (insert_if_absent H a k v m) (cm_insert_if_absent k v (cmap_of H m))
    \<and> contract_step H m (map_remove H k m) (cm_remove k (cmap_of H m))
    \<and> (\<exists>y. cm_update_with k (\<lambda>x. Some (snd (g x), fst (g x))) (cmap_of H m) = Some y \<and> contract_step H m (update_with H k g m) y)"
  using insert_contract [OF assms] remove_contract [OF assms(1)] update_contract [OF assms(1), of k g]
  by (simp add: lookups(5) [OF assms(1)] cm_get_ref_def)

theorem map_meets_contract_witness:
  "\<exists>m :: nat custom_map. cm_map (\<lambda>_. 5) m = [[1] \<mapsto> 7]
     \<and> contract_step (\<lambda>_. 5) m (map_insert (\<lambda>_. 5) 32 [2] 8 m) (cm_insert [2] 8 (cmap_of (\<lambda>_. 5) m))"
proof -
  obtain m where m: "map_inv (\<lambda>_. 5) m" "cm_map (\<lambda>_. 5) m = [[1] \<mapsto> 7 :: nat]" "cm_max_keys m = 1" "roomy 1 m" "free_addr 32 m"
    by (rule map_one_key) blast
  then show ?thesis using map_meets_contract [OF m(1,4,5), of "[2]" 8 "\<lambda>v. (v, v)"] by blast
qed

end
