(* ===== verification/Tombstone.thy ===== *)
theory Tombstone
  imports MapWalks
begin

text \<open>
  Runs of the concurrent map in which an entry that was removed is overlooked by the fused probe-or-insert: the key gets a second entry,
  and the operations that follow meet one or the other of the two.
\<close>

section \<open>A key with two entries\<close>

text \<open>On the probe chain of the key lies an entry of the key, further on a second one, and before the second only entries of other keys.\<close>

definition doubled :: "hasher \<Rightarrow> bytes \<Rightarrow> 'v shard \<Rightarrow> 64 word \<Rightarrow> 'v entry \<Rightarrow> 64 word \<Rightarrow> 'v entry \<Rightarrow> bool" where
  "doubled H k sh p e q f \<longleftrightarrow>
     (let t = sh_table sh; at = (\<lambda>n. (home H t k + n) mod tb_capacity t) in
      tb_ok t \<and> e_key e = k \<and> e_key f = k \<and> p \<noteq> q
      \<and> (\<exists>c d. c < d \<and> d < tb_capacity t \<and> holds H (sh_heap sh) t (at c) p e \<and> holds H (sh_heap sh) t (at d) q f
           \<and> (\<forall>n < d. n \<noteq> c \<longrightarrow> (\<exists>r g. holds H (sh_heap sh) t (at n) r g \<and> e_key g \<noteq> k))))"

text \<open>The same of the shard of the key in a map.\<close>

definition two_at :: "hasher \<Rightarrow> bytes \<Rightarrow> 'v custom_map \<Rightarrow> 64 word \<Rightarrow> 'v entry \<Rightarrow> 64 word \<Rightarrow> 'v entry \<Rightarrow> bool" where
  "two_at H k m p e q f \<longleftrightarrow> shard_of m (H k) < length (cm_shards m) \<and> snap_ok (cm_snap m)
     \<and> doubled H k (cm_shards m ! shard_of m (H k)) p e q f"

text \<open>Room for two more insertions before the table grows, and an empty slot among the sixteen that the fused operation looks at.\<close>

definition near_free :: "hasher \<Rightarrow> bytes \<Rightarrow> 'v shard \<Rightarrow> bool" where
  "near_free H k sh \<longleftrightarrow> sh_len sh + 1 < tb_threshold (sh_table sh)
     \<and> (\<exists>j < 16. home H (sh_table sh) k + j < tb_capacity (sh_table sh) \<and> tb_slots (sh_table sh) ! (home H (sh_table sh) k + j) = 0)"

text \<open>A map of one shard of eight slots, all keys hashed to 5.\<close>

definition sample_shard :: "64 word list \<Rightarrow> nat entries \<Rightarrow> nat \<Rightarrow> 64 word \<Rightarrow> nat shard" where
  "sample_shard ws heap len live =
     \<lparr>sh_table = \<lparr>tb_slots = replicate 5 0 @ ws @ replicate 17 0, tb_capacity = 8, tb_mask = 7, tb_threshold = 5\<rparr>,
      sh_len = len, sh_live = live, sh_heap = heap, sh_retired = [], sh_initial_capacity = 8\<rparr>"

definition one_shard :: "nat shard \<Rightarrow> nat custom_map" where
  "one_shard sh =
     \<lparr>cm_shards = [sh], cm_shift = 63, cm_shard_mask = 0, cm_max_keys = 10, cm_observer = False, cm_observing = False,
      cm_snap_active = False, cm_snap = snap_new, cm_notes = []\<rparr>"

definition sample_entry :: "64 word \<Rightarrow> nat option \<Rightarrow> nat entry" where
  "sample_entry st v = \<lparr>e_key = [1], e_state = st, e_value = v\<rparr>"

section \<open>Searching and writing it\<close>

lemma find_fast_first:
  assumes t: "tb_ok (sh_table sh)" and d: "d < tb_capacity (sh_table sh)"
    and go: "\<And>n. n < d \<Longrightarrow> find_step (sh_heap sh) k (H k)
        (tb_slots (sh_table sh) ! ((home H (sh_table sh) k + n) mod tb_capacity (sh_table sh))) = Some Go"
    and hit: "find_step (sh_heap sh) k (H k)
        (tb_slots (sh_table sh) ! ((home H (sh_table sh) k + d) mod tb_capacity (sh_table sh))) = Some (Hit p)"
  shows "find_fast k (H k) sh = Some (Some p)"
proof -
  let ?t = "sh_table sh" and ?h = "home H (sh_table sh) k" and ?c = "tb_capacity (sh_table sh)"
  let ?step = "find_step (sh_heap sh) k (H k)"
  have h: "?h < ?c" by (rule home_lt [OF t])
  have slow: "\<exists>j. scan ?step ?t ((?h + m) mod ?c) ?c = Some (Hit p, j)" if m: "m \<le> d" for m
  proof -
    have e: "((?h + m) mod ?c + n) mod ?c = (?h + (m + n)) mod ?c" for n by (simp add: mod_simps add.assoc)
    have "scan ?step ?t ((?h + m) mod ?c) ?c = Some (Hit p, ((?h + m) mod ?c + (d - m)) mod ?c)"
    proof (rule scan_finds [OF t])
      show "?step (tb_slots ?t ! (((?h + m) mod ?c + n) mod ?c)) = Some Go" if "n < d - m" for n
        unfolding e by (rule go) (use that in simp)
      show "?step (tb_slots ?t ! (((?h + m) mod ?c + (d - m)) mod ?c)) = Some (Hit p)" unfolding e using hit m by simp
    qed (use tb_okD(1) [OF t] d in simp_all)
    then show ?thesis by blast
  qed
  show ?thesis
  proof (cases "?h + 16 > ?c")
    case True
    then show ?thesis using slow [of 0] h by (auto simp: find_fast_home [OF t])
  next
    case False
    have len: "?h + 16 \<le> length (tb_slots ?t)" using False tb_okD(3) [OF t] by simp
    have go': "?step (tb_slots ?t ! (?h + n)) = Some Go" if "n < d" "n < 16" for n using go [of n] that False by simp
    have "\<exists>j. scan_straight ?step ?t ?h 16 = Some (Hit p, j) \<or> (scan_straight ?step ?t ?h 16 = Some (Go, j) \<and> 16 \<le> d)"
    proof (cases "d < 16")
      case True
      then have "?step (tb_slots ?t ! (?h + d)) = Some (Hit p)" using hit False by simp
      then show ?thesis using straight_finds [OF len True, of ?step "Hit p"] go' True by auto
    next
      case False
      then show ?thesis using straight_skip [OF len le_refl, of ?step] go' by (auto simp: scan_straight.simps)
    qed
    then show ?thesis using False slow [of 16] by (auto simp: find_fast_home [OF t])
  qed
qed

lemma doubled_find:
  assumes "doubled H k sh p e q f" "e_value f \<noteq> None"
  shows "find_fast k (H k) sh = Some (Some (if e_value e = None then q else p))"
proof -
  let ?t = "sh_table sh"
  let ?at = "\<lambda>n. (home H ?t k + n) mod tb_capacity ?t"
  obtain c d where a: "tb_ok ?t" "e_key e = k" "e_key f = k" "c < d" "d < tb_capacity ?t"
      "holds H (sh_heap sh) ?t (?at c) p e" "holds H (sh_heap sh) ?t (?at d) q f"
      "\<And>n. n < d \<Longrightarrow> n \<noteq> c \<Longrightarrow> \<exists>r g. holds H (sh_heap sh) ?t (?at n) r g \<and> e_key g \<noteq> k"
    using assms(1) unfolding doubled_def Let_def by blast
  have other: "find_step (sh_heap sh) k (H k) (tb_slots ?t ! ?at n) = Some Go" if "n < d" "n \<noteq> c" for n
    using a(8) [OF that] find_step_other by blast
  note own = find_step_own [OF a(6,2)] and own' = find_step_own [OF a(7,3)]
  show ?thesis
  proof (cases "e_value e")
    case None
    have "find_step (sh_heap sh) k (H k) (tb_slots ?t ! ?at n) = Some Go" if "n < d" for n
      using other [OF that] own None by (cases "n = c") simp_all
    then show ?thesis using find_fast_first [OF a(1,5), of k H q] own' assms(2) None by simp
  next
    case (Some v)
    have "c < tb_capacity ?t" using a(4,5) by simp
    then show ?thesis using find_fast_first [OF a(1), of c k H p] other a(4) own Some by simp
  qed
qed

lemma doubled_put:
  assumes d: "doubled H k sh p e q f" and e': "e_key e' = k" "entry_ok H e'"
    and sh': "sh_table sh' = sh_table sh" "sh_heap sh' = (sh_heap sh)(p \<mapsto> e')"
  shows "doubled H k sh' p e' q f"
proof -
  let ?t = "sh_table sh"
  let ?at = "\<lambda>n. (home H ?t k + n) mod tb_capacity ?t"
  obtain c d where a: "tb_ok ?t" "e_key e = k" "e_key f = k" "c < d" "d < tb_capacity ?t" "p \<noteq> q"
      "holds H (sh_heap sh) ?t (?at c) p e" "holds H (sh_heap sh) ?t (?at d) q f"
      "\<And>n. n < d \<Longrightarrow> n \<noteq> c \<Longrightarrow> \<exists>r g. holds H (sh_heap sh) ?t (?at n) r g \<and> e_key g \<noteq> k"
    using d unfolding doubled_def Let_def by blast
  have keep: "holds H (sh_heap sh') ?t i r g" if "holds H (sh_heap sh) ?t i r g" "r \<noteq> p" for i r g
    using that by (simp add: holds_def sh')
  have "holds H (sh_heap sh') ?t (?at c) p e'" using a(2,7) e' by (simp add: holds_def sh')
  moreover have "holds H (sh_heap sh') ?t (?at d) q f" using keep [OF a(8)] a(6) by simp
  moreover have "\<exists>r g. holds H (sh_heap sh') ?t (?at n) r g \<and> e_key g \<noteq> k" if n: "n < d" "n \<noteq> c" for n
  proof -
    obtain r g where r: "holds H (sh_heap sh) ?t (?at n) r g" "e_key g \<noteq> k" using a(9) [OF n] by blast
    then have "r \<noteq> p" using a(2,7) by (auto simp: holds_def)
    with keep r show ?thesis by blast
  qed
  ultimately show ?thesis unfolding doubled_def Let_def sh'(1) using a(1,3-6) e'(1) by blast
qed

text \<open>The set stops at the first of the two entries.\<close>

lemma doubled_set:
  assumes d: "doubled H k sh p e q f" and len: "sh_len sh < tb_threshold (sh_table sh)" and s: "snap_ok sn" and e: "e_value e = None"
  obtains e' where "set_loop b k (H k) w True sn sh = Some (True, sn, (put_entry p e' sh)\<lparr>sh_len := sh_len sh + 1\<rparr>)"
    "e_key e' = k" "entry_ok H e'" "e_value e' = Some w"
proof -
  let ?t = "sh_table sh"
  let ?at = "\<lambda>n. (home H ?t k + n) mod tb_capacity ?t"
  obtain c d where a: "tb_ok ?t" "e_key e = k" "c < d" "d < tb_capacity ?t" "holds H (sh_heap sh) ?t (?at c) p e"
      "\<And>n. n < d \<Longrightarrow> n \<noteq> c \<Longrightarrow> \<exists>r g. holds H (sh_heap sh) ?t (?at n) r g \<and> e_key g \<noteq> k"
    using d unfolding doubled_def Let_def by blast
  have c: "c < tb_capacity ?t" using a(3,4) by simp
  have other: "slot_step (sh_heap sh) k (H k) (tb_slots ?t ! ?at n) = Some Go" if "n < c" for n
    using a(6) [of n] that a(3) slot_step_other by fastforce
  have scan: "scan (slot_step (sh_heap sh) k (H k)) ?t (home H ?t k) (tb_capacity ?t) = Some (Hit p, ?at c)"
    by (rule scan_finds [OF a(1) home_lt [OF a(1)] c]) (use other slot_step_own [OF a(5,2)] in simp_all)
  have ok: "entry_ok H e" "sh_heap sh p = Some e" using a(5) by (auto simp: holds_def)
  obtain st where st: "state_lock (e_state e) = Some st" "\<And>n. n \<noteq> 0 \<Longrightarrow> bit st n = bit (e_state e) n"
      "state_occupied st \<longleftrightarrow> e_value e \<noteq> None"
    by (rule locked_entry [OF ok(1)]) blast
  have occ: "True \<longleftrightarrow> Some w \<noteq> None" by simp
  obtain e' where w: "write_entry (Some w) True (e\<lparr>e_state := st\<rparr>) sn = Some (e', sn\<lparr>sn_out := sn_out sn @ captured sn e\<rparr>)"
      "entry_ok H e'" "written sn e (Some w) e'"
    by (rule write_entry_law [OF s ok(1) st(2) occ])
  have "captured sn e = []" using e by (simp add: captured_def)
  then have sn: "sn\<lparr>sn_out := sn_out sn @ captured sn e\<rparr> = sn" by simp
  show thesis
  proof (rule that [of e'])
    show "set_loop b k (H k) w True sn sh = Some (True, sn, (put_entry p e' sh)\<lparr>sh_len := sh_len sh + 1\<rparr>)"
      unfolding set_loop.simps [of b k "H k" w True sn sh] Let_def home_and [OF a(1)] scan
      using len ok(2) st(1,3) w(1) e by (simp add: sn)
  qed (use w(2,3) a(2) in \<open>simp_all add: written_def\<close>)
qed

lemma probe_step_other:
  "holds H heap t i p e \<Longrightarrow> e_key e \<noteq> k \<or> e_value e = None \<Longrightarrow> probe_step heap k (H k) (tb_slots t ! i) = Some Go"
  using find_step_other [of H heap t i p e k] find_step_own [of H heap t i p e k] encode_nonzero [of p "H (e_key e)"]
  by (cases "e_key e = k") (auto simp: probe_step_def find_step_def holds_def ptr_ok_def split: if_splits)

lemma probe_step_zero: "probe_step heap k h 0 = Some Stop"
  using find_step_zero [of heap k h] by (simp add: probe_step_def find_step_def split: if_splits)

lemma probe_scan:
  assumes inv: "table_inv H heap t" and h: "holds H heap t i p e" "e_key e = k" "e_value e = None"
    and j: "j < 16" "home H t k + j < tb_capacity t" "tb_slots t ! (home H t k + j) = 0"
  obtains c d where "scan_straight (probe_step heap k (H k)) t (home H t k) 16 = Some (Stop, home H t k + d)"
    "c < d" "home H t k + d < tb_capacity t" "tb_slots t ! (home H t k + d) = 0" "(home H t k + c) mod tb_capacity t = i"
    "\<And>n. n < d \<Longrightarrow> n \<noteq> c \<Longrightarrow> \<exists>r g. holds H heap t (home H t k + n) r g \<and> e_key g \<noteq> k"
proof -
  let ?h = "home H t k" and ?c = "tb_capacity t"
  note t = inv_tb_ok [OF inv]
  define d where "d = (LEAST j. tb_slots t ! (?h + j) = 0)"
  have d: "tb_slots t ! (?h + d) = 0" "d \<le> j" unfolding d_def by (rule LeastI, rule j(3)) (rule Least_le, rule j(3))
  have lt: "?h + d < ?c" "d < 16" using d(2) j(1,2) by simp_all
  have i: "i < ?c" using h(1) by (simp add: holds_def)
  define c where "c = dist t ?h i"
  have c: "(?h + c) mod ?c = i" unfolding c_def by (rule dist_step [OF home_lt [OF t] i])
  have free: "(?h + d) mod ?c \<notin> used t" using d(1) lt(1) by (simp add: used_def)
  have cd: "c < d"
  proof (rule ccontr)
    assume "\<not> c < d"
    then have "d = c \<or> d < c" by auto
    then show False
      using free c holds_used [OF h(1)] inv_chain [OF inv h(1), of d] h(2) by (auto simp: c_def)
  qed
  have at: "\<exists>r g. holds H heap t (?h + n) r g" if "n < d" for n
    using not_less_Least [of n "\<lambda>j. tb_slots t ! (?h + j) = 0"] that lt(1) inv_used [OF inv] by (simp add: d_def [symmetric] used_def)
  have own: "n = c \<and> g = e" if n: "n < d" and g: "holds H heap t (?h + n) r g" "e_key g = k" for n r g
  proof -
    have i: "?h + n = i" using inv_key [OF inv g(1) h(1)] g(2) h(2) by simp
    then have "c = n" using c lt(1) cd n by simp
    then show ?thesis using holds_unique [of H heap t i] g(1) h(1) i by blast
  qed
  have go: "probe_step heap k (H k) (tb_slots t ! (?h + n)) = Some Go" if n: "n < d" for n
    using at [OF n] own [OF n] h(3) probe_step_other by blast
  show thesis
  proof (rule that [of d c])
    show "scan_straight (probe_step heap k (H k)) t ?h 16 = Some (Stop, ?h + d)"
      by (rule straight_finds) (use go lt d(1) tb_okD(3) [OF t] home_lt [OF t, of H k] in \<open>simp_all add: probe_step_zero\<close>)
    show "\<exists>r g. holds H heap t (?h + n) r g \<and> e_key g \<noteq> k" if "n < d" "n \<noteq> c" for n using at own that by blast
  qed (use cd lt(1) d(1) c in simp_all)
qed

lemma probe_doubles:
  assumes inv: "shard_inv H sh" and h: "holds H (sh_heap sh) (sh_table sh) i p e" "e_key e = k" "e_value e = None"
    and free: "near_free H k sh" and a: "ptr_ok a" "sh_heap sh a = None" and s: "snap_ok sn"
  obtains sh' f where "probe_or_insert a (H k) k v sn sh = Some (Inserted, sh')" "doubled H k sh' p e a f" "e_value f = Some v"
    "sh_len sh' < tb_threshold (sh_table sh')" "sh_live sh' = sh_live sh"
proof -
  let ?t = "sh_table sh" and ?heap = "sh_heap sh" and ?h = "home H (sh_table sh) k" and ?c = "tb_capacity (sh_table sh)"
  have ti: "table_inv H ?heap ?t" using inv by (simp add: shard_inv_def)
  note t = inv_tb_ok [OF ti]
  obtain j where "j < 16" "?h + j < ?c" "tb_slots ?t ! (?h + j) = 0" using free by (auto simp: near_free_def)
  then obtain c d where s: "scan_straight (probe_step ?heap k (H k)) ?t ?h 16 = Some (Stop, ?h + d)"
      "c < d" "?h + d < ?c" "tb_slots ?t ! (?h + d) = 0" "(?h + c) mod ?c = i"
      "\<And>n. n < d \<Longrightarrow> n \<noteq> c \<Longrightarrow> \<exists>r g. holds H ?heap ?t (?h + n) r g \<and> e_key g \<noteq> k"
    using probe_scan [OF ti h] by metis
  let ?f = "\<lparr>e_key = k, e_state = fresh_state sn OR hash_bits (H k), e_value = Some v\<rparr>"
  let ?t' = "?t\<lparr>tb_slots := (tb_slots ?t)[?h + d := encode a (H k)]\<rparr>"
  let ?sh = "(put_entry a ?f sh)\<lparr>sh_table := ?t', sh_len := sh_len sh + 1\<rparr>"
  have j: "?h + d < length (tb_slots ?t)" using s(3) tb_okD(3) [OF t] by simp
  have l: "sh_len sh + 1 < tb_threshold ?t" using free by (simp add: near_free_def)
  have keep: "holds H (sh_heap ?sh) ?t' n r g" if "holds H ?heap ?t n r g" for n r g
  proof -
    have "tb_slots ?t ! n \<noteq> 0" using holds_used [OF that] by (simp add: used_def)
    then have "n \<noteq> ?h + d" using s(4) by auto
    then show ?thesis using that a(2) by (auto simp: holds_def put_entry_def)
  qed
  have h': "home H ?t' k = ?h" by (simp add: home_def)
  have i: "holds H (sh_heap ?sh) ?t' ((?h + c) mod ?c) p e" using keep [OF h(1)] s(5) by simp
  have q: "holds H (sh_heap ?sh) ?t' ((?h + d) mod ?c) a ?f"
    using s(3) j a(1) fresh_entry_ok(1) [OF \<open>snap_ok sn\<close>] by (simp add: holds_def put_entry_def)
  have o: "\<exists>r g. holds H (sh_heap ?sh) ?t' ((?h + n) mod ?c) r g \<and> e_key g \<noteq> k" if "n < d" "n \<noteq> c" for n
    using s(6) [OF that] keep that(1) s(3) by fastforce
  have "tb_ok ?t'" using t s(3) by (auto simp: tb_ok_def)
  moreover have "p \<noteq> a" using h(1) a(2) by (auto simp: holds_def)
  ultimately have "doubled H k ?sh p e a ?f"
    unfolding doubled_def Let_def using i q o s(2,3) h(2) by (simp add: h') (rule exI [of _ c], rule exI [of _ d], simp)
  moreover have "probe_or_insert a (H k) k v sn sh = Some (Inserted, ?sh)"
    unfolding probe_or_insert_def Let_def home_and [OF t] s(1)
    using s(3) l j by (simp add: tb_okD(2) [OF t] claim_slot_def vset_def put_entry_def Let_def)
  ultimately show thesis by (intro that [of ?sh ?f]) (use l in \<open>simp_all add: put_entry_def\<close>)
qed

text \<open>Removing a key leaves its entry, dead, in its slot.\<close>

lemma remove_buries:
  assumes inv: "map_inv H m" and k: "cm_map H m k = Some u"
  obtains m1 sh i p e where "map_remove H k m = Some (Some u, m1)" "snap_ok (cm_snap m1)" "shard_of m1 (H k) = shard_of m (H k)"
    "cm_shards m1 = (cm_shards m)[shard_of m (H k) := sh]" "shard_inv H sh" "sh_live sh = sh_live (cm_shards m ! shard_of m (H k)) - 1"
    "sh_table sh = sh_table (cm_shards m ! shard_of m (H k))" "sh_len sh = sh_len (cm_shards m ! shard_of m (H k))"
    "dom (sh_heap sh) = dom (sh_heap (cm_shards m ! shard_of m (H k)))"
    "holds H (sh_heap sh) (sh_table sh) i p e" "e_key e = k" "e_value e = None"
proof -
  let ?i = "shard_of m (H k)"
  let ?sh = "cm_shards m ! ?i"
  obtain e0 where l: "cm_live H m k = Some e0" using k by (auto simp: cm_map_def bind_eq_Some_conv)
  obtain i p v st where e: "find_fast k (H k) ?sh = Some (Some p)" "holds H (sh_heap ?sh) (sh_table ?sh) i p e0"
      "sh_heap ?sh p = Some e0" "entry_ok H e0" "e_key e0 = k" "e_value e0 = Some v" "cm_map H m k = Some v"
      "state_lock (e_state e0) = Some st" "\<And>n. n \<noteq> 0 \<Longrightarrow> bit st n = bit (e_state e0) n" "state_unlock st = e_state e0" "state_occupied st"
    by (rule live_cases [OF inv l]) blast
  have occ: "False \<longleftrightarrow> None \<noteq> (None :: 'a option)" by simp
  obtain e' sh' where w: "entry_write None False ?i p (e0\<lparr>e_state := st\<rparr>) m =
      Some ((put_shard ?i sh' m)\<lparr>cm_snap := (cm_snap m)\<lparr>sn_out := sn_out (cm_snap m) @ captured_at H m k\<rparr>\<rparr>)"
      "shard_inv H sh'" "written (cm_snap m) e0 None e'" "sh_live sh' = sh_live ?sh" "dom (sh_heap sh') = dom (sh_heap ?sh)"
      "sh_len sh' = sh_len ?sh" "sh_table sh' = sh_table ?sh" "sh_heap sh' = (sh_heap ?sh)(p \<mapsto> e')"
    by (rule entry_write_law [OF inv l e(2,9) occ]) blast
  let ?sh' = "sh'\<lparr>sh_live := sh_live ?sh - 1\<rparr>"
  let ?m = "(put_shard ?i ?sh' m)\<lparr>cm_snap := (cm_snap m)\<lparr>sn_out := sn_out (cm_snap m) @ captured_at H m k\<rparr>\<rparr>"
  have h: "holds H (sh_heap sh') (sh_table sh') i p e'"
  proof -
    have "i \<in> used (sh_table sh')" using holds_used [OF e(2)] w(7) by simp
    then obtain r g where g: "holds H (sh_heap sh') (sh_table sh') i r g" using inv_used w(2) unfolding shard_inv_def by blast
    then have "r = p" using holds_decode [OF g] holds_decode [OF e(2)] w(7) by simp
    then show ?thesis using g w(8) by (auto simp: holds_def)
  qed
  have "state_occupied (e_state e0)" using e(4,6) by (simp add: entry_ok_def state_occupied_bit)
  then have r: "map_remove H k m = Some (Some v, touched k ?m)"
    using e w(1,4) shard_at(1) [OF inv, of "H k"] shard_of_lt [OF inv, of "H k"]
    by (simp add: map_remove_def remove_entry_def locate_shard shard_find_def bump_def vget_def)
  have "snap_ok (cm_snap m)" using inv by (simp add: map_inv_def)
  then have "snap_ok (cm_snap (touched k ?m))" by (simp add: snap_ok_def)
  moreover have "shard_of (touched k ?m) (H k) = ?i" by (simp add: touched_def notify_def shard_of_def put_shard_def)
  ultimately show thesis
    by (intro that [of "touched k ?m" ?sh' i p e']) (use r k e(5,7) w h in \<open>simp_all add: written_def\<close>)
qed

lemma doubled_heap:
  "doubled H k sh p e q f \<Longrightarrow> sh_heap sh p = Some e \<and> entry_ok H e \<and> sh_heap sh q = Some f \<and> entry_ok H f \<and> e_key e = k"
  by (auto simp: doubled_def Let_def holds_def)

lemma two_set:
  assumes d: "two_at H k m p e q f" and e: "e_value e = None"
    and len: "sh_len (cm_shards m ! shard_of m (H k)) < tb_threshold (sh_table (cm_shards m ! shard_of m (H k)))"
  obtains m' e' where "cm_set H b k w m = Some (True, m')" "two_at H k m' p e' q f" "e_value e' = Some w" "shard_of m' (H k) = shard_of m (H k)"
    "sh_live (cm_shards m' ! shard_of m (H k)) = sh_live (cm_shards m ! shard_of m (H k)) + 1"
proof -
  let ?i = "shard_of m (H k)"
  let ?sh = "cm_shards m ! ?i"
  have i: "?i < length (cm_shards m)" and s: "snap_ok (cm_snap m)" and dd: "doubled H k ?sh p e q f" using d by (simp_all add: two_at_def)
  obtain e' where e': "set_loop b k (H k) w True (cm_snap m) ?sh = Some (True, cm_snap m, (put_entry p e' ?sh)\<lparr>sh_len := sh_len ?sh + 1\<rparr>)"
      "e_key e' = k" "entry_ok H e'" "e_value e' = Some w"
    by (rule doubled_set [OF dd len s e])
  let ?sh' = "(put_entry p e' ?sh)\<lparr>sh_len := sh_len ?sh + 1, sh_live := sh_live ?sh + 1\<rparr>"
  let ?m = "touched k ((put_shard ?i ?sh' m)\<lparr>cm_snap := cm_snap m\<rparr>)"
  have set: "cm_set H b k w m = Some (True, ?m)"
    using e'(1) i by (simp add: cm_set_def set_compact_def set_located_def set_located_pinned_def set_key_def
        set_key_with_overwrite_def shard_write_def locate_shard vget_def bump_def put_entry_def)
  have so: "shard_of ?m (H k) = ?i" by (simp add: touched_def notify_def shard_of_def put_shard_def)
  have "doubled H k ?sh' p e' q f" by (rule doubled_put [OF dd e'(2,3)]) (simp_all add: put_entry_def)
  then have "two_at H k ?m p e' q f" using i s unfolding two_at_def so by simp
  then show thesis using set so e'(4) i by (intro that [of ?m e']) (simp_all add: put_entry_def)
qed

lemma two_remove:
  assumes d: "two_at H k m p e q f" and v: "e_value e = Some w" "e_value f \<noteq> None"
  obtains m' e' where "map_remove H k m = Some (Some w, m')" "two_at H k m' p e' q f" "e_value e' = None"
proof -
  let ?i = "shard_of m (H k)"
  let ?sh = "cm_shards m ! ?i"
  have i: "?i < length (cm_shards m)" and s: "snap_ok (cm_snap m)" and dd: "doubled H k ?sh p e q f" using d by (simp_all add: two_at_def)
  have ok: "sh_heap ?sh p = Some e" "entry_ok H e" "e_key e = k" using doubled_heap [OF dd] by simp_all
  obtain st where st: "state_lock (e_state e) = Some st" "\<And>n. n \<noteq> 0 \<Longrightarrow> bit st n = bit (e_state e) n"
      "state_occupied st \<longleftrightarrow> e_value e \<noteq> None"
    by (rule locked_entry [OF ok(2)]) blast
  have occ: "False \<longleftrightarrow> None \<noteq> (None :: 'a option)" by simp
  obtain e' where e': "write_entry None False (e\<lparr>e_state := st\<rparr>) (cm_snap m) =
      Some (e', (cm_snap m)\<lparr>sn_out := sn_out (cm_snap m) @ captured (cm_snap m) e\<rparr>)" "entry_ok H e'" "written (cm_snap m) e None e'"
    by (rule write_entry_law [OF s ok(2) st(2) occ])
  let ?sh' = "(put_entry p e' ?sh)\<lparr>sh_live := sh_live ?sh - 1\<rparr>"
  let ?m = "touched k ((put_shard ?i ?sh' m)\<lparr>cm_snap := (cm_snap m)\<lparr>sn_out := sn_out (cm_snap m) @ captured (cm_snap m) e\<rparr>\<rparr>)"
  have "state_occupied (e_state e)" using ok(2) v(1) by (simp add: entry_ok_def state_occupied_bit)
  then have r: "map_remove H k m = Some (Some w, ?m)"
    using doubled_find [OF dd v(2)] v(1) ok(1) st(1,3) e'(1) i
    by (simp add: map_remove_def remove_entry_def locate_shard shard_find_def vget_def entry_write_def bump_def put_entry_def)
  have so: "shard_of ?m (H k) = ?i" by (simp add: touched_def notify_def shard_of_def put_shard_def)
  have "doubled H k ?sh' p e' q f"
    by (rule doubled_put [OF dd _ e'(2)]) (use e'(3) ok(3) in \<open>simp_all add: put_entry_def written_def\<close>)
  then have "two_at H k ?m p e' q f" using i s unfolding two_at_def so by (simp add: snap_ok_def)
  then show thesis using r e'(3) by (intro that [of ?m e']) (simp_all add: written_def)
qed

lemma two_get: "two_at H k m p e q f \<Longrightarrow> e_value e = None \<Longrightarrow> e_value f = Some v \<Longrightarrow> cm_get H k m = Some (Some v)"
  using doubled_find [of H k "cm_shards m ! shard_of m (H k)" p e q f] doubled_heap [of H k "cm_shards m ! shard_of m (H k)" p e q f]
  by (simp add: two_at_def cm_get_def locate_shard vget_def get_pinned_find clone_found_def entry_value_def)

lemma probe_two:
  assumes inv: "map_inv H m" and k: "cm_map H m k = Some u" and a: "free_addr a m" and free: "near_free H k (cm_shards m ! shard_of m (H k))"
  obtains m1 m2 p e f where "map_remove H k m = Some (Some u, m1)" "probe_or_insert_fast a (H k) k v m1 = Some (Inserted, m2)"
    "two_at H k m2 p e a f" "e_value e = None" "e_value f = Some v" "shard_of m2 (H k) = shard_of m (H k)"
    "sh_live (cm_shards m2 ! shard_of m (H k)) = sh_live (cm_shards m ! shard_of m (H k))"
    "sh_len (cm_shards m2 ! shard_of m (H k)) < tb_threshold (sh_table (cm_shards m2 ! shard_of m (H k)))"
proof -
  let ?i = "shard_of m (H k)"
  have i: "?i < length (cm_shards m)" by (rule shard_of_lt [OF inv])
  obtain m1 sh j p e where r: "map_remove H k m = Some (Some u, m1)" "snap_ok (cm_snap m1)" "shard_of m1 (H k) = ?i"
      "cm_shards m1 = (cm_shards m)[?i := sh]" "shard_inv H sh" "sh_live sh = sh_live (cm_shards m ! ?i) - 1"
      "sh_table sh = sh_table (cm_shards m ! ?i)" "sh_len sh = sh_len (cm_shards m ! ?i)"
      "dom (sh_heap sh) = dom (sh_heap (cm_shards m ! ?i))"
      "holds H (sh_heap sh) (sh_table sh) j p e" "e_key e = k" "e_value e = None"
    by (rule remove_buries [OF inv k])
  have nf: "near_free H k sh" using free r(7,8) by (simp add: near_free_def)
  have "sh_heap (cm_shards m ! ?i) a = None" using a i by (simp add: free_addr_def)
  then have ha: "sh_heap sh a = None" "ptr_ok a" using r(9) a by (simp_all add: free_addr_def) (metis domIff)
  obtain sh' f where p: "probe_or_insert a (H k) k v (cm_snap m1) sh = Some (Inserted, sh')" "doubled H k sh' p e a f" "e_value f = Some v"
      "sh_len sh' < tb_threshold (sh_table sh')" "sh_live sh' = sh_live sh"
    by (rule probe_doubles [OF r(5,10-12) nf ha(2,1) r(2)])
  let ?sh = "sh'\<lparr>sh_live := sh_live sh' + 1\<rparr>"
  let ?m = "put_shard ?i ?sh m1"
  have "probe_or_insert_fast a (H k) k v m1 = Some (Inserted, ?m)"
    using p(1) i r(3,4) by (simp add: probe_or_insert_fast_def vget_def bump_def put_shard_def)
  moreover have "doubled H k ?sh p e a f" using p(2) by (simp add: doubled_def)
  then have "two_at H k ?m p e a f" using i r(2,3,4) by (simp add: two_at_def)
  ultimately show thesis using r p i by (intro that [of m1 ?m p e f]) simp_all
qed

text \<open>
  C13. In every map, under every hasher, take a key that is there, with an empty slot among the sixteen from its home slot and room before
  the next growth.  After the key is removed, the fused probe-or-insert overlooks its dead entry and inserts a second one; the next set
  revives the first and reports a new key, so the shard counts the key twice, and removing the key uncovers the older value: a lookup
  after the removal still answers.
\<close>

theorem probe_or_insert_resurrects:
  assumes "map_inv H m" "cm_map H m k = Some u" "free_addr a m" "near_free H k (cm_shards m ! shard_of m (H k))"
  shows "\<exists>m1 m2 m3 m4. map_remove H k m = Some (Some u, m1)
     \<and> probe_or_insert_fast a (H k) k v m1 = Some (Inserted, m2)
     \<and> cm_set H b k w m2 = Some (True, m3)
     \<and> sh_live (cm_shards m3 ! shard_of m3 (H k)) = sh_live (cm_shards m ! shard_of m (H k)) + 1
     \<and> map_remove H k m3 = Some (Some w, m4)
     \<and> cm_get H k m4 = Some (Some v)"
proof -
  obtain m1 m2 p e f where p: "map_remove H k m = Some (Some u, m1)" "probe_or_insert_fast a (H k) k v m1 = Some (Inserted, m2)"
    "two_at H k m2 p e a f" "e_value e = None" "e_value f = Some v" "shard_of m2 (H k) = shard_of m (H k)"
    "sh_live (cm_shards m2 ! shard_of m (H k)) = sh_live (cm_shards m ! shard_of m (H k))"
    "sh_len (cm_shards m2 ! shard_of m (H k)) < tb_threshold (sh_table (cm_shards m2 ! shard_of m (H k)))"
    by (rule probe_two [OF assms])
  obtain m3 e3 where s: "cm_set H b k w m2 = Some (True, m3)" "two_at H k m3 p e3 a f" "e_value e3 = Some w"
      "shard_of m3 (H k) = shard_of m2 (H k)" "sh_live (cm_shards m3 ! shard_of m2 (H k)) = sh_live (cm_shards m2 ! shard_of m2 (H k)) + 1"
    by (rule two_set [OF p(3,4), unfolded p(6), OF p(8)]) (simp add: p(6))
  obtain m4 e4 where r: "map_remove H k m3 = Some (Some w, m4)" "two_at H k m4 p e4 a f" "e_value e4 = None"
    by (rule two_remove [OF s(2,3)]) (use p(5) in simp_all)
  show ?thesis using p s r two_get [OF r(2,3) p(5)] by auto
qed

section \<open>Such a map\<close>

lemma ex_words:
  "encode 16 5 = 0x8000000000000010" "encode 32 5 = 0x8000000000000020"
  "fresh_state (snap_new :: nat snap_ctl) OR hash_bits 5 = 0x500000002"
  "(0x8000000000000010 :: 64 word) AND RESERVED_MASK = TAG_FLAG OR push_bit TAG_SHIFT (hash_tag 5)"
  "(0x8000000000000010 :: 64 word) AND PTR_MASK = 16" "(0x8000000000000020 :: 64 word) AND PTR_MASK = 32"
  "word_hi 0x8000000000000010 = expected_hi 5" "word_hi 0x8000000000000020 = expected_hi 5" "word_hi 0 \<noteq> expected_hi 5"
  by code_simp+

lemma scan_num:
  "scan step t i (numeral n) = do { w \<leftarrow> vget (tb_slots t) i; r \<leftarrow> step w;
     (case r of Go \<Rightarrow> scan step t ((i + 1) AND tb_mask t) (pred_numeral n) | _ \<Rightarrow> Some (r, i)) }"
  "scan_straight step t i (numeral n) = do { w \<leftarrow> vget (tb_slots t) i; r \<leftarrow> step w;
     (case r of Go \<Rightarrow> scan_straight step t (i + 1) (pred_numeral n) | _ \<Rightarrow> Some (r, i)) }"
  by (simp_all add: numeral_eq_Suc scan.simps scan_straight.simps)

lemma one_shard_simps:
  "locate (\<lambda>_. 5) k (one_shard sh) = (5, 0)" "shard_of (one_shard sh) 5 = 0" "vget (cm_shards (one_shard sh)) 0 = Some sh"
  "put_shard 0 sh' (one_shard sh) = one_shard sh'" "cm_snap (one_shard sh) = snap_new" "(one_shard sh)\<lparr>cm_snap := snap_new\<rparr> = one_shard sh"
  "touched k (one_shard sh) = one_shard sh"
  "bump 0 up (one_shard sh) = Some (one_shard (sh\<lparr>sh_live := (if up then sh_live sh + 1 else sh_live sh - 1)\<rparr>))"
  by (simp_all add: one_shard_def locate_def shard_of_def vget_def put_shard_def touched_def bump_def)

lemma sample_shard_simps:
  "vget (tb_slots (sh_table (sample_shard [a, b] heap n l))) 5 = Some a" "vget (tb_slots (sh_table (sample_shard [a, b] heap n l))) 6 = Some b"
  "tb_mask (sh_table (sample_shard ws heap n l)) = 7" "tb_capacity (sh_table (sample_shard ws heap n l)) = 8"
  "tb_threshold (sh_table (sample_shard ws heap n l)) = 5" "sh_len (sample_shard ws heap n l) = n" "sh_live (sample_shard ws heap n l) = l"
  "sh_heap (sample_shard ws heap n l) = heap" "(sample_shard ws heap n l)\<lparr>sh_live := l'\<rparr> = sample_shard ws heap n l'"
  "(sample_shard ws heap n l)\<lparr>sh_len := n'\<rparr> = sample_shard ws heap n' l"
  "put_entry p e (sample_shard ws heap n l) = sample_shard ws (heap(p \<mapsto> e)) n l"
  by (simp_all add: sample_shard_def vget_def nth_append put_entry_def)

lemma ex_claim:
  "n < 4 \<Longrightarrow> claim_slot a [1] 5 v snap_new 5 (sample_shard [x, y] heap n l) =
     Some (sample_shard [encode a 5, y] (heap(a \<mapsto> sample_entry 0x500000002 (Some v))) (n + 1) l)"
  "n < 4 \<Longrightarrow> claim_slot a [1] 5 v snap_new 6 (sample_shard [x, y] heap n l) =
     Some (sample_shard [x, encode a 5] (heap(a \<mapsto> sample_entry 0x500000002 (Some v))) (n + 1) l)"
  by (simp_all add: claim_slot_def ex_words vset_def Let_def sample_shard_def put_entry_def list_update_append sample_entry_def)

lemma ex_unat: "unat (5 :: 64 word) AND 7 = 5" by code_simp

lemma ex_build: "build 1 8 10 = one_shard (sample_shard [0, 0] Map.empty 0 0)"
proof -
  have "next_power_of_two 8 = 8" using next_power_of_two_pow [of 3] by simp
  moreover have "trailing_zeros 1 = 0" by code_simp
  moreover have "replicate 24 (0 :: 64 word) = replicate 5 0 @ [0, 0] @ replicate 17 0" by code_simp
  ultimately show ?thesis
    by (simp add: build_def one_shard_def shard_new_def sample_shard_def table_new_def Let_def LOAD_NUM_def LOAD_DEN_def)
qed

lemmas ex_set_defs = cm_set_def set_compact_def set_located_def set_located_pinned_def set_key_def
  set_key_with_overwrite_def shard_write_def set_loop.simps Let_def

lemma ex_set1: "cm_set (\<lambda>_. 5) 16 [1] 7 (one_shard (sample_shard [0, 0] Map.empty 0 0)) =
   Some (True, one_shard (sample_shard [0x8000000000000010, 0] [16 \<mapsto> sample_entry 0x500000002 (Some 7)] 1 1))"
  by (simp add: ex_set_defs one_shard_simps sample_shard_simps scan_num slot_step_def ex_claim ex_words ex_unat)

lemma ex_inv:
  obtains m where "m = one_shard (sample_shard [0x8000000000000010, 0] [16 \<mapsto> sample_entry 0x500000002 (Some 7)] 1 1)"
    "map_inv (\<lambda>_. 5) m" "cm_map (\<lambda>_. 5) m = [[1] \<mapsto> 7]" "free_addr 32 m"
proof -
  let ?H = "\<lambda>_ :: bytes. 5 :: 64 word" and ?m = "build 1 8 10 :: nat custom_map"
  have c: "max (next_power_of_two 8) 8 \<le> (2 :: nat) ^ 32" using next_power_of_two_pow [of 3] by simp
  have inv: "map_inv ?H ?m" and e: "cm_map ?H ?m = Map.empty" using build_inv [OF c, of ?H 0 10] by simp_all
  have "ptr_ok 16" "ptr_ok 32" by code_simp+
  then have f: "fits [Put 16 [1] (7 :: nat), Put 32 [2] 8] ?m" by (simp add: fits_def build_fits List.map_filter_simps)
  obtain m where m: "cm_exec ?H (Put 16 [1] 7) ?m = Some (fst (map_exec (Put 16 [1] 7) (cm_map ?H ?m)), m)"
      "cm_map ?H m = snd (map_exec (Put 16 [1] 7) (cm_map ?H ?m))" "map_inv ?H m" "step_from (op_addr (Put 16 [1] (7 :: nat))) ?m m"
    by (rule exec_law [OF inv fits_Cons(1) [OF f] fits_Cons(2) [OF f]]) blast
  note f1 = fits_Cons(3) [OF f m(4)]
  show thesis
  proof (rule that [of m])
    show "m = one_shard (sample_shard [0x8000000000000010, 0] [16 \<mapsto> sample_entry 0x500000002 (Some 7)] 1 1)"
      using m(1) ex_set1 unfolding ex_build by simp
    show "free_addr 32 m" using fits_Cons(2) [OF f1, of 32] by simp
  qed (use m(2,3) e in simp_all)
qed

theorem probe_or_insert_resurrects_witness:
  "\<exists>m0 m1 m2 m3 m4. cm_set (\<lambda>_. 5) 16 [1] 7 (build 1 8 10) = Some (True, m0)
     \<and> map_remove (\<lambda>_. 5) [1] m0 = Some (Some 7, m1)
     \<and> probe_or_insert_fast 32 5 [1] 8 m1 = Some (Inserted, m2)
     \<and> cm_set (\<lambda>_. 5) 48 [1] 9 m2 = Some (True, m3) \<and> sh_live (cm_shards m3 ! shard_of m3 5) = 2
     \<and> map_remove (\<lambda>_. 5) [1] m3 = Some (Some 9, m4)
     \<and> cm_get (\<lambda>_. 5) [1] m4 = Some (Some (8 :: nat))"
proof -
  obtain m where m: "m = one_shard (sample_shard [0x8000000000000010, 0] [16 \<mapsto> sample_entry 0x500000002 (Some 7)] 1 1)"
    "map_inv (\<lambda>_. 5) m" "cm_map (\<lambda>_. 5) m = [[1] \<mapsto> 7]" "free_addr 32 m" by (rule ex_inv)
  have sh: "cm_shards m ! shard_of m 5 = sample_shard [0x8000000000000010, 0] [16 \<mapsto> sample_entry 0x500000002 (Some 7)] 1 1"
    by (simp add: m(1) one_shard_simps) (simp add: one_shard_def)
  have h: "home (\<lambda>_. 5) (sh_table (sample_shard ws heap n l)) k = 5" for ws heap n l k by (simp add: home_def sample_shard_simps)
  have z: "tb_slots (sh_table (sample_shard [x, 0] heap n l)) ! 6 = 0" for x heap n l by (simp add: sample_shard_def nth_append)
  have nf: "near_free (\<lambda>_. 5) [1] (cm_shards m ! shard_of m 5)"
    unfolding sh near_free_def h by (auto simp: sample_shard_simps z intro!: exI [of _ 1])
  have "sh_live (cm_shards m ! shard_of m 5) = 1" by (simp add: sh sample_shard_simps)
  with probe_or_insert_resurrects [where u = 7 and v = 8 and b = 48 and w = 9, OF m(2) _ m(4) nf] ex_set1 show ?thesis
    unfolding ex_build m(1) [symmetric] by (auto simp: m(3))
qed

end
