(* ===== verification/MapMaintain.thy ===== *)
theory MapMaintain
  imports MapWalks
begin

text \<open>
  The maintenance of the concurrent map (\<^verbatim>\<open>crates/customhash/src/ops.rs\<close>): dropping expired values a range of slots at a time,
  compacting a shard and clearing the map.
\<close>

section \<open>Expiring\<close>

text \<open>How many of the live entries some slots point to the test answers so.\<close>

definition answers :: "('v \<Rightarrow> bool option) \<Rightarrow> bool \<Rightarrow> 'v entries \<Rightarrow> 64 word list \<Rightarrow> nat" where
  "answers f b heap ws = length (filter (\<lambda>e. f (the (e_value e)) = Some b) (lives heap ws))"

text \<open>The keys of one shard whose entries lie in a range of its slots.\<close>

definition swept :: "hasher \<Rightarrow> nat \<Rightarrow> nat \<Rightarrow> nat \<Rightarrow> 'v custom_map \<Rightarrow> bytes \<Rightarrow> bool" where
  "swept H i start stop m k \<longleftrightarrow> shard_of m (H k) = i
     \<and> names (sh_heap (cm_shards m ! i)) (take (stop - start) (drop start (table_slots (sh_table (cm_shards m ! i))))) k"

lemma lives_upd:
  assumes "\<And>q. q \<noteq> p \<Longrightarrow> heap' q = heap q" "heap p = Some e" "state_occupied (e_state e)" "p \<noteq> 0"
    and "e_key e \<notin> e_key ` set (lives heap ws)"
  shows "lives heap' ws = lives heap ws"
  using assms(5)
proof (induction ws)
  case (Cons w ws)
  have "decode w \<noteq> p" using Cons.prems assms(2-4) by (auto simp: live_of_def)
  then have "live_of heap' w = live_of heap w" using assms(1) by (simp add: live_of_def)
  then show ?case using Cons by (auto split: option.splits)
qed simp

lemma expire_retain:
  fixes m :: "'v custom_map"
  shows "map_inv H m \<Longrightarrow> i < length (cm_shards m) \<Longrightarrow> set ws \<subseteq> set (table_slots (sh_table (cm_shards m ! i))) \<Longrightarrow>
     distinct (map e_key (lives (sh_heap (cm_shards m ! i)) ws)) \<Longrightarrow>
     retain_loop (\<lambda>_ v. f v \<noteq> Some True) i ws m = Some m' \<Longrightarrow>
     expire_loop f i ws a b m =
       Some (a + answers f True (sh_heap (cm_shards m ! i)) ws, b + answers f False (sh_heap (cm_shards m ! i)) ws, m')"
proof (induction ws arbitrary: m a b)
  case (Cons w ws)
  let ?sh = "cm_shards m ! i"
  have at: "vget (cm_shards m) i = Some ?sh" using Cons.prems(2) by (simp add: vget_def)
  have w: "w \<in> set (table_slots (sh_table ?sh))" and ws: "set ws \<subseteq> set (table_slots (sh_table ?sh))" using Cons.prems(3) by simp_all
  have d: "distinct (map e_key (lives (sh_heap ?sh) ws))" using Cons.prems(4) by (simp split: option.splits)
  note ih = Cons.IH [OF Cons.prems(1,2) ws d]
  show ?case
  proof (cases "decode w = 0")
    case True
    then show ?thesis using ih Cons.prems(5) by (simp add: answers_def live_of_def)
  next
    case p: False
    from Cons.prems(1,2) w p show ?thesis
    proof (cases rule: slot_cases)
      case (dead e)
      then show ?thesis using ih p at Cons.prems(5) by (simp add: answers_def live_of_def)
    next
      case (live e j v st)
      have lo: "live_of (sh_heap ?sh) w = Some e" using live(1,2) p by (simp add: live_of_def)
      then have lv: "lives (sh_heap ?sh) (w # ws) = e # lives (sh_heap ?sh) ws" by simp
      show ?thesis
      proof (cases "f v = Some True")
        case False
        then have "retain_loop (\<lambda>_ v. f v \<noteq> Some True) i ws m = Some m'" using Cons.prems(5) live(1-3) p at by simp
        then show ?thesis using ih live(1-3) p at False
          by (cases "f v") (auto simp: answers_def lo)
      next
        case True
        obtain m1 m2 where dr: "entry_write None False i (decode w) (e\<lparr>e_state := st\<rparr>) m = Some m1" "bump i False m1 = Some m2"
            "map_changes H (e_key e) None m m2" "same_slots i m m2"
            "\<And>q. q \<noteq> decode w \<Longrightarrow> sh_heap (cm_shards m2 ! i) q = sh_heap ?sh q"
          using drop_law [OF Cons.prems(1) live(5), of j "decode w" st] live(4,7,9) by metis
        let ?m = "touched (e_key e) m2"
        have fr: "map_inv H ?m" "same_frame m ?m" using dr(3) by (simp_all add: map_changes_def)
        have len: "i < length (cm_shards ?m)" using walk_state [OF Cons.prems(1) fr] Cons.prems(2) by simp
        have ws': "set ws \<subseteq> set (table_slots (sh_table (cm_shards ?m ! i)))" using ws dr(4) by (simp add: same_slots_def)
        have "lives (sh_heap (cm_shards m2 ! i)) ws = lives (sh_heap ?sh) ws"
          using Cons.prems(4) unfolding lv by (intro lives_upd [where p = "decode w" and e = e]) (use dr(5) live(1,2) p in auto)
        then have same: "lives (sh_heap (cm_shards ?m ! i)) ws = lives (sh_heap ?sh) ws" by simp
        have "retain_loop (\<lambda>_ v. f v \<noteq> Some True) i ws ?m = Some m'"
          using Cons.prems(5) live p at True dr(1,2) by (simp add: drop_entry_def)
        from Cons.IH [OF fr(1) len ws' _ this] d
        have "expire_loop f i ws (a + 1) b ?m =
            Some (a + 1 + answers f True (sh_heap ?sh) ws, b + answers f False (sh_heap ?sh) ws, m')"
          unfolding same answers_def by simp
        then show ?thesis using live p at True dr(1,2) by (simp add: drop_entry_def answers_def lo)
      qed
    qed
  qed
qed (simp add: answers_def)

text \<open>The live entries some slots of a shard point to, as the map sees them.\<close>

lemma lives_slots:
  assumes inv: "map_inv H m" and i: "i < length (cm_shards m)" and ws: "set ws \<subseteq> set (table_slots (sh_table (cm_shards m ! i)))"
  shows "set (lives (sh_heap (cm_shards m ! i)) ws) =
    {e. \<exists>k. shard_of m (H k) = i \<and> names (sh_heap (cm_shards m ! i)) ws k \<and> cm_live H m k = Some e}" (is "_ = ?R")
proof (intro equalityI subsetI)
  let ?heap = "sh_heap (cm_shards m ! i)"
  fix e
  assume "e \<in> set (lives ?heap ws)"
  then obtain w where w: "w \<in> set ws" "live_of ?heap w = Some e" unfolding lives_def by (auto simp: set_map_filter)
  then have p: "decode w \<noteq> 0" "?heap (decode w) = Some e" "state_occupied (e_state e)"
    by (auto simp: live_of_def split: if_splits option.splits)
  from w(1) ws have "w \<in> set (table_slots (sh_table (cm_shards m ! i)))" by blast
  from inv i this p(1) show "e \<in> ?R"
  proof (cases rule: slot_cases)
    case (live e' j v st)
    then show ?thesis using p w(1) by (auto simp: names_def)
  qed (use p in auto)
next
  let ?heap = "sh_heap (cm_shards m ! i)"
  fix e
  assume "e \<in> ?R"
  then obtain k w e' where k: "shard_of m (H k) = i" "cm_live H m k = Some e" "w \<in> set ws" "decode w \<noteq> 0" "?heap (decode w) = Some e'"
      "e_key e' = k" by (auto simp: names_def)
  from k(3) ws have "w \<in> set (table_slots (sh_table (cm_shards m ! i)))" by blast
  from inv i this k(4) have "live_of ?heap w = Some e"
  proof (cases rule: slot_cases)
    case (dead e'')
    then show ?thesis using k cm_map_None [OF inv, of k] by simp
  next
    case (live e'' j v st)
    then show ?thesis using k by (simp add: live_of_def)
  qed
  then show "e \<in> set (lives ?heap ws)" using k(3) unfolding lives_def by (force simp: set_map_filter)
qed

lemma answers_law:
  assumes inv: "map_inv H m" and i: "i < length (cm_shards m)" and ws: "set ws \<subseteq> set (table_slots (sh_table (cm_shards m ! i)))"
    and d: "distinct (map e_key (lives (sh_heap (cm_shards m ! i)) ws))"
  shows "answers f b (sh_heap (cm_shards m ! i)) ws =
    card {k. shard_of m (H k) = i \<and> names (sh_heap (cm_shards m ! i)) ws k \<and> (\<exists>v. cm_map H m k = Some v \<and> f v = Some b)}"
proof -
  let ?es = "filter (\<lambda>e. f (the (e_value e)) = Some b) (lives (sh_heap (cm_shards m ! i)) ws)"
  have "distinct (map e_key ?es)" using d by (rule distinct_map_filter)
  then have "answers f b (sh_heap (cm_shards m ! i)) ws = card (e_key ` set ?es)"
    using distinct_card [of "map e_key ?es"] by (simp add: answers_def)
  also have "e_key ` set ?es =
      {k. shard_of m (H k) = i \<and> names (sh_heap (cm_shards m ! i)) ws k \<and> (\<exists>v. cm_map H m k = Some v \<and> f v = Some b)}" (is "_ = ?K")
  proof (intro equalityI subsetI)
    fix k assume "k \<in> e_key ` set ?es"
    then obtain e k' where e: "k = e_key e" "f (the (e_value e)) = Some b" "shard_of m (H k') = i"
        "names (sh_heap (cm_shards m ! i)) ws k'" "cm_live H m k' = Some e"
      unfolding set_filter lives_slots [OF inv i ws] by blast
    then show "k \<in> ?K" using cm_live_Some [OF inv e(5)] by (auto simp: cm_map_def)
  next
    fix k assume "k \<in> ?K"
    then obtain v where k: "shard_of m (H k) = i" "names (sh_heap (cm_shards m ! i)) ws k" "cm_map H m k = Some v" "f v = Some b" by blast
    then obtain e where e: "cm_live H m k = Some e" "e_value e = Some v" by (auto simp: cm_map_def split: bind_splits)
    then have "e \<in> set ?es" unfolding set_filter lives_slots [OF inv i ws] using k by auto
    then show "k \<in> e_key ` set ?es" using cm_live_Some [OF inv e(1)] by blast
  qed
  finally show ?thesis .
qed

lemma lives_append: "lives heap (us @ ws) = lives heap us @ lives heap ws"
  by (simp add: lives_def List.map_filter_def)

lemma slot_range:
  assumes inv: "map_inv H m" and i: "i < length (cm_shards m)"
  defines "t \<equiv> sh_table (cm_shards m ! i)"
  shows "length (table_slots t) = tb_capacity t" "tb_capacity t \<le> 2 ^ 32"
    "distinct (map e_key (lives (sh_heap (cm_shards m ! i)) (take n (drop s (table_slots t)))))"
    "set (take n (drop s (table_slots t))) \<subseteq> set (table_slots t)"
proof -
  have ti: "table_inv H (sh_heap (cm_shards m ! i)) t"
    using shard_ok_at [OF inv i] unfolding shard_ok_def shard_inv_def t_def by blast
  then show "length (table_slots t) = tb_capacity t" "tb_capacity t \<le> 2 ^ 32"
    using nth_table_slots [OF inv_tb_ok [OF ti]] inv_tb_ok [OF ti] by (simp_all add: tb_ok_def)
  have "table_slots t = take s (table_slots t) @ take n (drop s (table_slots t)) @ drop n (drop s (table_slots t))"
    by (metis append_take_drop_id)
  then have "distinct (map e_key (lives (sh_heap (cm_shards m ! i))
      (take s (table_slots t) @ take n (drop s (table_slots t)) @ drop n (drop s (table_slots t)))))"
    using lives_table(1) [OF ti] by metis
  then show "distinct (map e_key (lives (sh_heap (cm_shards m ! i)) (take n (drop s (table_slots t)))))"
    unfolding lives_append map_append distinct_append by blast
  show "set (take n (drop s (table_slots t))) \<subseteq> set (table_slots t)" by (meson order_trans set_drop_subset set_take_subset)
qed

lemma expire_law:
  fixes m :: "'v custom_map" and s n :: nat
  assumes "map_inv H m" "i < length (cm_shards m)"
  defines "cap \<equiv> tb_capacity (sh_table (cm_shards m ! i))"
  defines "start \<equiv> min s cap"
  defines "stop \<equiv> min (start + n) cap"
  obtains m' where "expire_shard_range i s n f m = Some (Some (stop, cap,
        card {k. swept H i start stop m k \<and> (\<exists>v. cm_map H m k = Some v \<and> f v = Some True)},
        card {k. swept H i start stop m k \<and> (\<exists>v. cm_map H m k = Some v \<and> f v = Some False)}), m')"
    "map_inv H m'" "same_frame m m'" "same_slots i m m'"
    "cm_map H m' = without (swept H i start stop m) (\<lambda>_ v. f v \<noteq> Some True) (cm_map H m)"
proof -
  let ?ws = "take (stop - start) (drop start (table_slots (sh_table (cm_shards m ! i))))"
  note r = slot_range [OF assms(1,2), folded cap_def]
  have stop: "range_end start n cap = stop" using r(2) by (simp add: range_end_def stop_def usize_max_def)
  have sl: "vslice (table_slots (sh_table (cm_shards m ! i))) start stop = Some ?ws"
    unfolding vslice_def r(1) by (simp add: start_def stop_def)
  obtain m' where m': "retain_loop (\<lambda>_ v. f v \<noteq> Some True) i ?ws m = Some m'" "map_inv H m'" "same_frame m m'" "same_slots i m m'"
      "cm_map H m' = without (swept H i start stop m) (\<lambda>_ v. f v \<noteq> Some True) (cm_map H m)"
    using retain_loop_law [OF assms(1,2) r(4)] unfolding swept_def by blast
  note e = expire_retain [OF assms(1,2) r(4,3) m'(1), where a = 0 and b = 0, unfolded answers_law [OF assms(1,2) r(4,3)]]
  have "expire_shard_range i s n f m = Some (Some (stop, cap,
        card {k. swept H i start stop m k \<and> (\<exists>v. cm_map H m k = Some v \<and> f v = Some True)},
        card {k. swept H i start stop m k \<and> (\<exists>v. cm_map H m k = Some v \<and> f v = Some False)}), m')"
    using assms(2) e unfolding expire_shard_range_def Let_def cap_def [symmetric] start_def [symmetric] stop sl
    by (simp add: swept_def conj_assoc)
  then show thesis using m'(2-5) by (rule that)
qed

lemma swept_all:
  "map_inv H m \<Longrightarrow> cm_map H m k \<noteq> None \<Longrightarrow> shard_of m (H k) = i \<Longrightarrow> tb_capacity (sh_table (cm_shards m ! i)) \<le> n \<Longrightarrow> swept H i 0 n m k"
  using names_all [of H m k] slot_range(1) [of H m i] shard_of_lt [of H m "H k"] by (auto simp: swept_def)

text \<open>C10. One step of the expiry cycle, over a range of slots of a shard, drops the keys there whose values the test calls expired and
  nothing else; its reply counts them and the live values with an expiry, and says where the next step begins.  A range from the first slot to the
  last covers every key of the shard.\<close>

theorem expire_correct:
  fixes m :: "'v custom_map" and s n :: nat
  assumes "map_inv H m" "i < length (cm_shards m)"
  defines "cap \<equiv> tb_capacity (sh_table (cm_shards m ! i))"
  defines "start \<equiv> min s cap"
  defines "stop \<equiv> min (start + n) cap"
  shows "\<exists>m'. expire_shard_range i s n f m = Some (Some (stop, cap,
        card {k. swept H i start stop m k \<and> (\<exists>v. cm_map H m k = Some v \<and> f v = Some True)},
        card {k. swept H i start stop m k \<and> (\<exists>v. cm_map H m k = Some v \<and> f v = Some False)}), m')
    \<and> map_inv H m'
    \<and> cm_map H m' = (\<lambda>k. case cm_map H m k of None \<Rightarrow> None
        | Some v \<Rightarrow> if swept H i start stop m k \<and> f v = Some True then None else Some v)
    \<and> (s = 0 \<and> cap \<le> n \<longrightarrow> (\<forall>k. cm_map H m k \<noteq> None \<and> shard_of m (H k) = i \<longrightarrow> swept H i start stop m k))"
proof -
  obtain m' where m': "expire_shard_range i s n f m = Some (Some (stop, cap,
        card {k. swept H i start stop m k \<and> (\<exists>v. cm_map H m k = Some v \<and> f v = Some True)},
        card {k. swept H i start stop m k \<and> (\<exists>v. cm_map H m k = Some v \<and> f v = Some False)}), m')" "map_inv H m'"
      "cm_map H m' = without (swept H i start stop m) (\<lambda>_ v. f v \<noteq> Some True) (cm_map H m)"
    unfolding cap_def start_def stop_def by (rule expire_law [OF assms(1,2), of s n f]) blast
  moreover have "cm_map H m' = (\<lambda>k. case cm_map H m k of None \<Rightarrow> None
      | Some v \<Rightarrow> if swept H i start stop m k \<and> f v = Some True then None else Some v)"
    unfolding m'(3) by (auto simp: fun_eq_iff without_def split: option.split)
  moreover have "swept H i start stop m k" if "s = 0" "cap \<le> n" "cm_map H m k \<noteq> None" "shard_of m (H k) = i" for k
    using swept_all [OF assms(1) that(3,4), of stop] that(1,2) by (simp add: cap_def start_def stop_def)
  ultimately show ?thesis by blast
qed

section \<open>Compacting and clearing\<close>

lemma count_states_law:
  "(\<And>w. w \<in> set ws \<Longrightarrow> good_word H heap w) \<Longrightarrow>
     \<exists>dead. count_states ws heap = Some (length (lives heap ws), dead) \<and> length (lives heap ws) + dead \<le> length ws"
proof (induction ws)
  case (Cons w ws)
  have "good_word H heap w" by (simp add: Cons.prems)
  moreover obtain dead where "count_states ws heap = Some (length (lives heap ws), dead)" "length (lives heap ws) + dead \<le> length ws"
    using Cons by auto
  ultimately show ?case by (auto simp: good_word_def live_of_def)
qed simp

text \<open>Another table for the same live entries.\<close>

lemma same_live:
  assumes inv: "map_inv H m" and i: "i < length (cm_shards m)"
    and sh: "shard_inv H sh'" "shard_live sh' = shard_live (cm_shards m ! i)" "sh_live sh' = sh_live (cm_shards m ! i)"
  shows "map_inv H (put_shard i sh' m)" "cm_live H (put_shard i sh' m) = cm_live H m"
proof -
  let ?m = "put_shard i sh' m"
  have f: "same_frame m ?m" by simp
  have ok: "shard_ok H m i sh'" using shard_ok_at [OF inv i] sh unfolding shard_ok_def by metis
  have "shard_ok H ?m j (cm_shards ?m ! j)" if j: "j < length (cm_shards ?m)" for j
    using j ok shard_ok_at [OF inv, of j] by (cases "j = i") (auto simp: shard_ok_def)
  then show "map_inv H ?m" using inv f unfolding map_inv_def same_frame_def snap_ok_def by simp
  show "cm_live H ?m = cm_live H m"
    using i by (auto simp: fun_eq_iff cm_live_def sh(2) nth_list_update)
qed

lemma compact_law:
  assumes inv: "map_inv H m"
  shows "\<exists>m'. compact_shard i m = Some m' \<and> map_inv H m' \<and> same_frame m m' \<and> cm_map H m' = cm_map H m
    \<and> list_all2 (\<lambda>sh sh'. tb_capacity (sh_table sh') \<le> tb_capacity (sh_table sh)) (cm_shards m) (cm_shards m')"
proof -
  have same: ?thesis if "compact_shard i m = Some m"
    using that inv by (auto simp: list_all2_same)
  show ?thesis
  proof (cases "compact_shard i m = Some m")
    case False
    then have i: "i < length (cm_shards m)" unfolding compact_shard_def by (metis (full_types))
    let ?sh = "cm_shards m ! i"
    let ?t = "sh_table ?sh" and ?live = "live_count ?sh"
    have si: "shard_inv H ?sh" using shard_inv_mem [OF inv] i by simp
    then have ti: "table_inv H (sh_heap ?sh) ?t" by (simp add: shard_inv_def)
    note cap = slot_range(1,2) [OF inv i]
    obtain k where k: "tb_capacity ?t = 2 ^ k" "8 \<le> tb_capacity ?t" using inv_tb_ok [OF ti] by (auto simp: tb_ok_def)
    obtain j where j: "capacity_for ?live = 2 ^ j" "8 \<le> capacity_for ?live" "?live < capacity_for ?live * LOAD_NUM div LOAD_DEN"
      by (rule capacity_for_law [of ?live])
    obtain dead where d: "count_states (table_slots ?t) (sh_heap ?sh) = Some (?live, dead)" "?live + dead \<le> tb_capacity ?t"
      using count_states_law [of "table_slots ?t", OF good_slots [OF ti]] cap(1) unfolding live_count_def by metis
    let ?n = "min (capacity_for ?live) (tb_capacity ?t)"
    have c: "compact_shard i m = (if tb_capacity ?t \<le> capacity_for ?live \<and> dead < max (tb_capacity ?t div 4) 16 then Some m
        else do { sh1 \<leftarrow> rebuild_to ?n ?sh; Some (put_shard i sh1 m) })"
      using False i d(1) unfolding compact_shard_def Let_def by (auto split: if_splits)
    then have big: "\<not> (tb_capacity ?t \<le> capacity_for ?live \<and> dead < max (tb_capacity ?t div 4) 16)" using False by auto
    have lt: "?live < ?n" using big j(3) d(2) by (auto simp: LOAD_NUM_def LOAD_DEN_def)
    have "?n = 2 ^ min j k" using j(1) k(1) by (simp add: min_def)
    then have n: "max (next_power_of_two ?n) 8 = ?n" using j(2) k(2) next_power_of_two_pow [of "min j k"] by simp
    obtain sh' where s: "rebuild_to ?n ?sh = Some sh'" "shard_inv H sh'" "tb_capacity (sh_table sh') = ?n" "sh_live sh' = sh_live ?sh"
        "entry_at (sh_heap sh') (sh_table sh') = live_entry \<circ> entry_at (sh_heap ?sh) ?t"
      using rebuild_to_law [OF si, of ?n, unfolded n, OF _ lt] cap(2) by (metis min.coboundedI2)
    have "compact_shard i m = Some (put_shard i sh' m)" using c big s(1) by simp
    moreover have "cm_map H (put_shard i sh' m) = cm_map H m"
      using same_live(2) [OF inv i s(2) rebuilt_live [OF s(5)] s(4)] by (simp add: fun_eq_iff cm_map_def)
    moreover have "list_all2 (\<lambda>sh sh'. tb_capacity (sh_table sh') \<le> tb_capacity (sh_table sh)) (cm_shards m) (cm_shards (put_shard i sh' m))"
      using i s(3) by (auto simp: list_all2_conv_all_nth nth_list_update)
    moreover have "same_frame m (put_shard i sh' m)" by simp
    ultimately show ?thesis using same_live(1) [OF inv i s(2) rebuilt_live [OF s(5)] s(4)] by blast
  qed (rule same)
qed

text \<open>C15. Compacting a shard changes no value and no key of the map: the rebuild fits in the table it chooses, which is never larger than the
  old one, so the search for an empty slot ends.\<close>

theorem compact_correct:
  assumes inv: "map_inv H m"
  shows "\<exists>m'. compact_shard i m = Some m' \<and> map_inv H m' \<and> cm_map H m' = cm_map H m
    \<and> list_all2 (\<lambda>sh sh'. tb_capacity (sh_table sh') \<le> tb_capacity (sh_table sh)) (cm_shards m) (cm_shards m')"
  using compact_law [OF inv, of i] by blast

text \<open>Clearing leaves an empty map.\<close>

theorem clear_correct:
  assumes inv: "map_inv H m" and c: "list_all (\<lambda>sh. max (next_power_of_two (sh_initial_capacity sh)) 8 \<le> 2 ^ 32) (cm_shards m)"
  shows "map_inv H (cm_clear m)" "cm_map H (cm_clear m) = Map.empty" "cm_len (cm_clear m) = 0"
proof -
  let ?m = "m\<lparr>cm_shards := map clear_shard (cm_shards m)\<rparr>"
  have new: "shard_inv H (clear_shard sh)" "shard_live (clear_shard sh) = Map.empty" if "sh \<in> set (cm_shards m)" for sh
  proof -
    have "max (next_power_of_two (sh_initial_capacity sh)) 8 \<le> 2 ^ 32" using c that by (simp add: list_all_iff)
    note n = table_new_law [OF this]
    show "shard_inv H (clear_shard sh)" "shard_live (clear_shard sh) = Map.empty"
      by (simp_all add: shard_inv_def clear_shard_def shard_live_def live_entry_def fun_eq_iff n)
  qed
  have "shard_ok H ?m i (clear_shard sh)" if "sh \<in> set (cm_shards m)" for sh i
    using new [OF that] by (simp add: shard_ok_def) (simp add: clear_shard_def)
  then have mi: "map_inv H ?m" using inv unfolding map_inv_def by simp
  have "cm_live H ?m k = None" for k
  proof -
    have "shard_of ?m (H k) < length (cm_shards m)" using shard_of_lt [OF mi, of "H k"] by simp
    then show ?thesis using new(2) by (simp add: cm_live_def)
  qed
  then have mm: "cm_map H ?m = Map.empty" by (simp add: cm_map_def fun_eq_iff)
  have ns: "map_inv H (x\<lparr>cm_notes := nn\<rparr>) = map_inv H x" "cm_map H (x\<lparr>cm_notes := nn\<rparr>) = cm_map H x" for x :: "'a custom_map" and nn
    by (simp_all add: map_inv_def shard_ok_def shard_of_def cm_map_def cm_live_def fun_eq_iff)
  show *: "map_inv H (cm_clear m)" "cm_map H (cm_clear m) = Map.empty"
    using mi mm unfolding cm_clear_def Let_def by (auto simp: ns)
  show "cm_len (cm_clear m) = 0" using len_law [OF *(1)] *(2) by simp
qed

theorem expire_correct_witness:
  "\<exists>(m :: nat custom_map) cap m'. cm_map (\<lambda>_. 5) m = [[1] \<mapsto> 7]
     \<and> expire_shard_range 0 0 (2 ^ 32) (\<lambda>v. Some (v = 7)) m = Some (Some (cap, cap, 1, 0), m') \<and> cm_map (\<lambda>_. 5) m' = Map.empty"
proof -
  let ?H = "\<lambda>_ :: bytes. 5 :: 64 word"
  obtain m where m: "map_inv ?H m" "cm_map ?H m = [[1] \<mapsto> 7 :: nat]" "length (cm_shards m) = 1" by (rule map_one_key) blast
  have i: "0 < length (cm_shards m)" using m(3) by simp
  let ?cap = "tb_capacity (sh_table (cm_shards m ! 0))" and ?f = "\<lambda>v :: nat. Some (v = 7)"
  have cap: "min (min 0 ?cap + 2 ^ 32) ?cap = ?cap" using slot_range(2) [OF m(1) i] by simp
  obtain m' where e: "expire_shard_range 0 0 (2 ^ 32) ?f m = Some (Some (?cap, ?cap,
        card {k. swept ?H 0 (min 0 ?cap) ?cap m k \<and> (\<exists>v. cm_map ?H m k = Some v \<and> ?f v = Some True)},
        card {k. swept ?H 0 (min 0 ?cap) ?cap m k \<and> (\<exists>v. cm_map ?H m k = Some v \<and> ?f v = Some False)}), m')"
      "cm_map ?H m' = (\<lambda>k. case cm_map ?H m k of None \<Rightarrow> None
        | Some v \<Rightarrow> if swept ?H 0 (min 0 ?cap) ?cap m k \<and> ?f v = Some True then None else Some v)"
      "\<forall>k. cm_map ?H m k \<noteq> None \<and> shard_of m (?H k) = 0 \<longrightarrow> swept ?H 0 (min 0 ?cap) ?cap m k"
    using expire_correct [OF m(1) i, of 0 "2 ^ 32" ?f] slot_range(2) [OF m(1) i] unfolding cap by blast
  have "shard_of m 5 = 0" using shard_of_lt [OF m(1), of 5] m(3) by simp
  then have s: "swept ?H 0 0 ?cap m [1]" using e(3) m(2) by simp
  have t: "{k. swept ?H 0 0 ?cap m k \<and> (\<exists>v. cm_map ?H m k = Some v \<and> ?f v = Some True)} = {[1]}"
    and f: "{k. swept ?H 0 0 ?cap m k \<and> (\<exists>v. cm_map ?H m k = Some v \<and> ?f v = Some False)} = {}"
    using s by (auto simp: m(2) split: if_splits)
  have "expire_shard_range 0 0 (2 ^ 32) ?f m = Some (Some (?cap, ?cap, 1, 0), m')"
    using e(1) unfolding min_0L t f by simp
  moreover have "cm_map ?H m' = Map.empty" unfolding e(2) using s by (auto simp: fun_eq_iff m(2))
  ultimately show ?thesis using m(2) by blast
qed

theorem compact_correct_witness:
  "\<exists>(m :: nat custom_map) m'. cm_map (\<lambda>_. 5) m = [[1] \<mapsto> 7] \<and> compact_shard 0 m = Some m' \<and> cm_map (\<lambda>_. 5) m' = [[1] \<mapsto> 7]"
proof -
  obtain m where m: "map_inv (\<lambda>_. 5) m" "cm_map (\<lambda>_. 5) m = [[1] \<mapsto> 7 :: nat]" by (rule map_one_key)
  then show ?thesis using compact_correct [OF m(1), of 0] by metis
qed

end
