(* ===== verification/Spec2Isabelle.thy ===== *)
theory Spec2Isabelle
  imports ListCmds HashCmds SetCmds Snapshot MapBatch MapContract Tombstone Expiry
begin

text \<open>
  A verification library for FyroDB, an in-memory key-value server that speaks the Redis protocol.

  \<^bold>\<open>The program.\<close>  The server keeps every key in one concurrent hash map (\<^verbatim>\<open>crates/customhash\<close>): a
  power-of-two number of shards, each an open-addressing table of tagged pointers to entries whose state word holds a lock, an
  occupancy bit, a sequence number, a snapshot mark and 32 bits of the hash.  A key maps to a value with an expiry
  (\<^verbatim>\<open>src/storage/value/mod.rs\<close>).  Lists, hashes and sets have a compact form while small and switch to a larger one;
  strings are stored inline or boxed.  Commands (\<^verbatim>\<open>src/storage/list.rs\<close>, \<^verbatim>\<open>hash.rs\<close>, \<^verbatim>\<open>set.rs\<close>) look a key
  up, run a closure on its value under the lock of the entry and write their reply into an output buffer (\<^verbatim>\<open>src/utils/resp.rs\<close>).  A list
  push wakes connections parked on the key; keys with an expiry are counted in striped counters; a save walks the map while
  writes go on.

  \<^bold>\<open>The theories.\<close>

  \<^item> \<^verbatim>\<open>Prelude\<close>: bytes, machine widths, indexing that can panic, UTF-8.
  \<^item> \<^verbatim>\<open>ListADT\<close>, \<^verbatim>\<open>CollADT\<close>: the interfaces of a list, a hash and a set, as locales with the lemmas that follow from their laws.
  \<^item> \<^verbatim>\<open>QuickList\<close> (\<^verbatim>\<open>value/quicklist.rs\<close>): chunks with offsets and a head index, at the byte level.
  \<^item> \<^verbatim>\<open>ListValue\<close> (\<^verbatim>\<open>value/list.rs\<close>): the small and the packed list and the switches between them.
  \<^item> \<^verbatim>\<open>Collections\<close> (\<^verbatim>\<open>value/collections.rs\<close>): compact and full hashes; integer, compact and full sets.
  \<^item> \<^verbatim>\<open>LittleEndian\<close>, \<^verbatim>\<open>SmallStr\<close> (\<^verbatim>\<open>value/small_str.rs\<close>): inline and boxed strings over an explicit heap of boxes.
  \<^item> \<^verbatim>\<open>IntParse\<close>, \<^verbatim>\<open>Resp\<close> (\<^verbatim>\<open>utils/resp.rs\<close>): decimal numbers and the reply writers over a buffer with a capacity.
  \<^item> \<^verbatim>\<open>Blocking\<close> (\<^verbatim>\<open>storage/blocking.rs\<close>): the registry of parked connections.
  \<^item> \<^verbatim>\<open>Store\<close> (\<^verbatim>\<open>value/mod.rs\<close>, \<^verbatim>\<open>store/ttl.rs\<close>, \<^verbatim>\<open>store/mod.rs\<close>): values, expiry, TTL counters, and the store over
    the contract of the map.
  \<^item> \<^verbatim>\<open>ListCmds\<close>, \<^verbatim>\<open>TypedCmd\<close>, \<^verbatim>\<open>HashCmds\<close>, \<^verbatim>\<open>SetCmds\<close>: the commands, each as a function from the store to
    its reply and the new store.
  \<^item> \<^verbatim>\<open>EntryState\<close>, \<^verbatim>\<open>Shard\<close>, \<^verbatim>\<open>ShardInv\<close> (\<^verbatim>\<open>shard.rs\<close>, \<^verbatim>\<open>snap.rs\<close>): the state word, tagged
    slots, searches, insertion, growth and rebuilding of one shard, and its invariant.
  \<^item> \<^verbatim>\<open>CustomMap\<close>, \<^verbatim>\<open>CustomMapInv\<close> (\<^verbatim>\<open>lib.rs\<close>, \<^verbatim>\<open>ops.rs\<close>): every operation of the map, the invariant, and what
    each operation on one key does.
  \<^item> \<^verbatim>\<open>MapRefine\<close>, \<^verbatim>\<open>MapWalks\<close>, \<^verbatim>\<open>MapMaintain\<close>, \<^verbatim>\<open>MapBatch\<close>, \<^verbatim>\<open>Snapshot\<close>, \<^verbatim>\<open>Tombstone\<close>:
    what sequences of operations, walks, maintenance, batched lookups and snapshots do.
  \<^item> \<^verbatim>\<open>MapContract\<close>: the map keeps the contract on which \<^verbatim>\<open>Store\<close> and the commands rest.
  \<^item> \<^verbatim>\<open>Expiry\<close> (\<^verbatim>\<open>storage/server.rs\<close>, \<^verbatim>\<open>main.rs\<close>): the active expiry, from the chunk of a shard to a full scan.

  \<^bold>\<open>How code becomes definitions.\<close>  A struct is a record, an enum a datatype, a byte an \<^verbatim>\<open>8 word\<close>, the state word and a slot
  a \<^verbatim>\<open>64 word\<close>; lengths and indices are naturals with their bound written out where the code can reach it.  A function that can panic,
  read memory it does not own or wait for ever returns an option, and \<^verbatim>\<open>None\<close> is that outcome; a \<^verbatim>\<open>Result\<close> is a sum whose left side is
  the error.  Loops are structural recursion, recursion with a measure, or \<^verbatim>\<open>partial_function (option)\<close> where the code
  may loop for ever; for those the theorems say that the code returns.  The heap of a shard is a map from addresses to entries; an
  operation that may allocate takes the fresh address as an argument.

  \<^bold>\<open>What is shown.\<close>
  \<^item> A sequence of operations on a list value, a hash, a set or the concurrent map behaves as on a plain list, finite map
    or set, and does not panic.  For lists this holds within bounds: elements of at most 512 MiB, replacements of at most the 4096 bytes
    of a chunk, and lists below 4 GiB where a chunk is rewritten.  The map has room and a fresh address for every insertion; it returns from
    every operation, through collisions, tombstones and growth.
  \<^item> A batched lookup finds what single lookups find; the walks list, keep and expire exactly the keys they should; a full map refuses new keys
    and stays below its limit; compaction ends and changes nothing.
  \<^item> A snapshot taken while writes go on is the map at the moment it began, if the snapshot before it ran to its end.
  \<^item> A scan of the expiry loop that nothing disturbs removes the expired values and no others and leaves the TTL counters exact, if the
    counters did not fall short of the keys with an expiry before.
  \<^item> The commands on lists, hashes and sets: the reply, the error and what the key holds afterwards, and that other keys keep their
    entries; a command that fails or finds nothing leaves what a client sees of its own key as it was, though a set may change its
    form.  The exception is SMOVE into a value of another type.  What the commands write into the reply buffer is the RESP form of what they return.
  \<^item> Numbers and strings read back as they were written; clones are independent; a signal wakes exactly the connections parked on a key.
  \<^item> Where the code does not do what it means to, a theorem exhibits it: an oversized element leaves an empty chunk, a reply of nine bytes
    carries a stale one, an HSET counts duplicates, SMOVE loses a member, an aborted snapshot hides the map from the next, a hinted
    write during a snapshot is saved twice, and a probe-or-insert after a removal gives a key two entries.  LINSERT tells a key that
    the map lacks (0) from one that has expired or whose list is drained (-1).

  \<^bold>\<open>Bounds.\<close>  The invariant of the map keeps a table within \<^verbatim>\<open>2 ^ 32\<close> slots, because an entry stores 32 bits of its hash and a rebuild
  places it by them; \<^verbatim>\<open>roomy\<close> asks for fewer than \<^verbatim>\<open>2 ^ 30\<close> entries in a shard before an insertion, which keeps it there.  Addresses of entries fit
  the 48 bits a slot has for them (\<^verbatim>\<open>ptr_ok\<close>).  Offsets in a chunk are 32-bit, and the lemmas on chunks carry the bound.

  \<^bold>\<open>Parameters.\<close>  The hasher of the map is any function from keys to 64-bit hashes.  The clocks and the running CPU are inputs of a
  command.  A std hash map is an association list with distinct keys, so that its order is arbitrary but fixed.  The floating-point operations of
  HINCRBYFLOAT are arguments.  Whether a weak compare-and-swap succeeds is an argument.

  \<^bold>\<open>Not modelled.\<close>  Interleavings inside one operation of the map, memory ordering and epoch reclamation: one operation runs at a time, so locks and
  the growth gate are free when it starts.  Compact keys stand for their bytes.  Sorted sets, streams and JSON values are opaque types of
  the value model.  Of the expiry loop the timing and the defragmentation are left out.  String, key, bitmap, geo and HyperLogLog commands, persistence, the request parser, connections, workers, publish and
  subscribe, the cluster, search, the vector index and the database cache are input and output, floating point or protocols of their own.
\<close>

end
